(* ===== verification/Prelude.thy ===== *)
theory Prelude
  imports Main "HOL-Library.Word" "HOL-Library.AList"
begin

text \<open>
  Shared vocabulary of the development: the machine integer types of the C sources, the
  little-endian byte encoding of machine words, lemmas on words, lists and association lists
  (the model of \<^verbatim>\<open>boost::unordered_map\<close>), and the collections of rewrite rules that the
  component theories extend.
\<close>

unbundle bit_operations_syntax

type_synonym u8 = "8 word"
type_synonym u32 = "32 word"
type_synonym i32 = "32 word"
type_synonym u64 = "64 word"

named_theorems ts_simps \<open>decoding of timestamps and of tagged addresses\<close>
named_theorems mem_simps \<open>loads and stores of node memory\<close>
named_theorems quiet_simps \<open>accesses when no other node interferes\<close>

subsection \<open>Words\<close>

lemma unat_and_mask: "unat (w AND mask n :: 'a::len word) = unat w mod 2 ^ n"
  by (simp flip: take_bit_eq_mask add: unsigned_take_bit_eq) (simp add: take_bit_eq_mod)

lemma unat_drop_bit_div: "unat (drop_bit n w :: 'a::len word) = unat w div 2 ^ n"
  by (metis drop_bit_eq_div unat_drop_bit_eq)

lemma unat_push_bit:
  "unat w * 2 ^ n < 2 ^ LENGTH('a) \<Longrightarrow> unat (push_bit n w :: 'a::len word) = unat w * 2 ^ n"
  by (simp add: unsigned_push_bit_eq) (simp add: push_bit_eq_mult take_bit_eq_mod)

lemma unat_plus_simple:
  "unat (a :: 'a::len word) + unat b < 2 ^ LENGTH('a) \<Longrightarrow> unat (a + b) = unat a + unat b"
  by (simp add: unat_add_lem)

lemma unat_minus_simple:
  "(b :: 'a::len word) \<le> a \<Longrightarrow> unat (a - b) = unat a - unat b"
  by (simp add: unat_sub)

lemma take_bit_word_self_iff:
  "take_bit n w = w \<longleftrightarrow> unat w < 2 ^ n" for w :: "'a::len word"
proof -
  have "take_bit n w = w \<longleftrightarrow> unat (take_bit n w) = unat w"
    by (metis word_unat_eq_iff)
  also have "\<dots> \<longleftrightarrow> unat w mod 2 ^ n = unat w"
    by (simp add: unsigned_take_bit_eq take_bit_nat_def)
  finally show ?thesis
    by (metis mod_less mod_less_divisor zero_less_numeral zero_less_power)
qed

lemma unat_of_nat_small: "x < 2 ^ LENGTH('a) \<Longrightarrow> unat (of_nat x :: 'a::len word) = x"
  by (simp only: unsigned_of_nat take_bit_nat_def) simp

lemma unat_exp: "m < LENGTH('a) \<Longrightarrow> unat (2 ^ m :: 'a::len word) = 2 ^ m"
  using unat_of_nat_small [of "2 ^ m", where 'a = 'a] by simp

lemma sint_small: "unat w < 2 ^ 31 \<Longrightarrow> sint w = int (unat w)" for w :: u32
proof -
  assume "unat w < 2 ^ 31"
  then have "uint w < 2 ^ 31" using of_nat_less_iff [where 'a = int, of "unat w" "2 ^ 31"] by simp
  moreover have "- (2 ^ 31) \<le> uint w" by (rule order_trans [of _ 0]) simp_all
  ultimately have "signed_take_bit 31 (uint w) = uint w" by (intro signed_take_bit_int_eq_self) simp_all
  then show ?thesis by (simp add: sint_uint)
qed

lemma sint_small64: "unat w < 2 ^ 63 \<Longrightarrow> sint w = int (unat w)" for w :: u64
proof -
  assume "unat w < 2 ^ 63"
  then have "uint w < 2 ^ 63" using of_nat_less_iff [where 'a = int, of "unat w" "2 ^ 63"] by simp
  moreover have "- (2 ^ 63) \<le> uint w" by (rule order_trans [of _ 0]) simp_all
  ultimately have "signed_take_bit 63 (uint w) = uint w" by (intro signed_take_bit_int_eq_self) simp_all
  then show ?thesis by (simp add: sint_uint)
qed

lemma sint_neg64: "2 ^ 63 \<le> unat w \<Longrightarrow> sint w < 0" for w :: u64
proof -
  assume "2 ^ 63 \<le> unat w"
  then have "unat w div 2 ^ 63 = 1"
    using unsigned_less [of w] by (intro div_nat_eqI) auto
  then have "bit (unat w) 63" by (simp add: bit_iff_odd)
  then have "bit w 63" by (simp add: bit_unsigned_iff)
  then show ?thesis using bit_last_iff [of w] by simp
qed

subsection \<open>Little-endian byte encoding\<close>

text \<open>
  A machine word of \<open>k\<close> bytes in memory is the list of its bytes, the least significant
  first, as on the x86-64 hosts the program runs on.
\<close>

primrec bytes_of_nat :: "nat \<Rightarrow> nat \<Rightarrow> u8 list" where
  "bytes_of_nat 0 v = []"
| "bytes_of_nat (Suc k) v = word_of_nat (v mod 256) # bytes_of_nat k (v div 256)"

primrec nat_of_bytes :: "u8 list \<Rightarrow> nat" where
  "nat_of_bytes [] = 0"
| "nat_of_bytes (b # bs) = unat b + 256 * nat_of_bytes bs"

definition bytes_of_u64 :: "u64 \<Rightarrow> u8 list" where
  "bytes_of_u64 w = bytes_of_nat 8 (unat w)"

definition u64_of_bytes :: "u8 list \<Rightarrow> u64" where
  "u64_of_bytes bs = word_of_nat (nat_of_bytes bs)"

lemma length_bytes_of_nat [simp]: "length (bytes_of_nat k v) = k"
  by (induction k arbitrary: v) auto

lemma length_bytes_of_u64 [simp]: "length (bytes_of_u64 w) = 8"
  by (simp add: bytes_of_u64_def)

lemma nat_of_bytes_bytes_of_nat: "nat_of_bytes (bytes_of_nat k v) = v mod 256 ^ k"
proof (induction k arbitrary: v)
  case 0
  then show ?case by simp
next
  case (Suc k)
  have "v mod 256 + 256 * (v div 256 mod 256 ^ k) = v mod (256 * 256 ^ k)"
    by (simp add: mod_mult2_eq)
  with Suc show ?case
    by (simp add: unsigned_of_nat take_bit_nat_def)
qed

lemma nat_of_bytes_less: "nat_of_bytes bs < 256 ^ length bs"
proof (induction bs)
  case (Cons b bs)
  have "unat b < 256" using unsigned_less [of b] by simp
  with Cons show ?case by simp
qed simp

lemma bytes_of_nat_nat_of_bytes: "bytes_of_nat (length bs) (nat_of_bytes bs) = bs"
proof (induction bs)
  case (Cons b bs)
  have "unat b < 256" using unsigned_less [of b] by simp
  with Cons show ?case by simp
qed simp

lemma u64_of_bytes_of_u64 [simp]: "u64_of_bytes (bytes_of_u64 w) = w"
proof -
  have "unat w < 2 ^ 64" using unsigned_less [of w] by simp
  then show ?thesis
    by (simp add: u64_of_bytes_def bytes_of_u64_def nat_of_bytes_bytes_of_nat)
qed

lemma bytes_of_u64_of_bytes: "length bs = 8 \<Longrightarrow> bytes_of_u64 (u64_of_bytes bs) = bs"
  using nat_of_bytes_less [of bs] bytes_of_nat_nat_of_bytes [of bs]
  by (simp add: u64_of_bytes_def bytes_of_u64_def unsigned_of_nat take_bit_nat_def)

subsection \<open>Association lists\<close>

text \<open>
  A \<^verbatim>\<open>boost::unordered_map\<close> is an association list with distinct keys, in the order in
  which an iteration visits it; \<open>AList.update\<close> is the assignment \<^verbatim>\<open>m[k] = v\<close> and
  \<open>AList.delete\<close> is \<^verbatim>\<open>erase\<close>.
\<close>

lemma map_of_update [simp]: "map_of (AList.update k v al) = (map_of al)(k \<mapsto> v)"
  by (rule update_conv')

lemma fst_set_update: "fst ` set (AList.update k v al) = insert k (fst ` set al)"
  by (simp add: dom_update)

lemma distinct_update_keys:
  "distinct (map fst al) \<Longrightarrow> distinct (map fst (AList.update k v al))"
  by (rule distinct_update)

end
