(* ===== verification/Timestamps.thy ===== *)
theory Timestamps
  imports Prelude
begin

text \<open>
  Timestamps and global addresses, the two tagged 64-bit words of the system
  (\<^verbatim>\<open>src/src/dstm_lib_p1/dstm_timestamps.h\<close>, \<^verbatim>\<open>src/src/dstm_timestamps.cpp\<close> and the
  address macros of \<^verbatim>\<open>src/src/dstm_malloc/dstm_malloc.h\<close>).

  A timestamp (the content of a lock word) has the lock bit in bit 63, the node that wrote it
  in bits 48 to 62 and its clock value, the version, in bits 0 to 47.  A global address has the
  node that owns it in bits 48 to 62 and the local address in bits 0 to 47.
\<close>

subsection \<open>The macros\<close>

definition LOCKBIT_TS :: "u64 \<Rightarrow> u64" where
  "LOCKBIT_TS x = drop_bit 63 x"

definition NODE_TS :: "u64 \<Rightarrow> u64" where
  "NODE_TS x = drop_bit 48 x AND 0x7fff"

definition VERSION_TS :: "u64 \<Rightarrow> u64" where
  "VERSION_TS x = x AND 0xffffffffffff"

definition TO_NODE_TS :: "u64 \<Rightarrow> u64" where
  "TO_NODE_TS x = push_bit 48 (x AND 0x7fff)"

definition ADDRESS_MASK :: u64 where
  "ADDRESS_MASK = 0xffffffffffff"

definition NODE_MASK :: u64 where
  "NODE_MASK = push_bit 48 0x7fff"

definition NODE_FROM_ADDRESS :: "u64 \<Rightarrow> u64" where
  "NODE_FROM_ADDRESS x = drop_bit 48 (NODE_MASK AND x)"

definition ADDR_FROM_ADDRESS :: "u64 \<Rightarrow> u64" where
  "ADDR_FROM_ADDRESS x = ADDRESS_MASK AND x"

text \<open>The value a lock request writes into a lock word: the version with the lock bit set.\<close>

abbreviation LOCK_BIT :: u64 where
  "LOCK_BIT \<equiv> push_bit 63 1"

abbreviation locked :: "u64 \<Rightarrow> bool" where
  "locked ts \<equiv> LOCKBIT_TS ts \<noteq> 0"

subsection \<open>Comparisons\<close>

definition isTimestampsEquivalent :: "u64 \<Rightarrow> u64 \<Rightarrow> bool" where
  "isTimestampsEquivalent ts1 ts2 =
     (if NODE_TS ts1 = NODE_TS ts2
      then (if VERSION_TS ts1 = VERSION_TS ts2 then True else False)
      else False)"

definition isTimestampsEqual :: "u64 \<Rightarrow> u64 \<Rightarrow> bool" where
  "isTimestampsEqual ts1 ts2 = (if VERSION_TS ts1 = VERSION_TS ts2 then True else False)"

definition isTimestampGreater :: "u64 \<Rightarrow> u64 \<Rightarrow> bool" where
  "isTimestampGreater ts1 ts2 = (if VERSION_TS ts1 > VERSION_TS ts2 then True else False)"

subsection \<open>The macros as bit fields\<close>

lemma mask15: "(0x7fff :: u64) = mask 15"
  by (simp add: mask_eq_exp_minus_1)

lemma mask48: "(0xffffffffffff :: u64) = mask 48"
  by (simp add: mask_eq_exp_minus_1)

lemma NODE_TS_field: "NODE_TS x = take_bit 15 (drop_bit 48 x)"
  by (simp add: NODE_TS_def mask15 take_bit_eq_mask)

lemma VERSION_TS_field: "VERSION_TS x = take_bit 48 x"
  by (simp add: VERSION_TS_def mask48 take_bit_eq_mask)

lemma TO_NODE_TS_field: "TO_NODE_TS x = push_bit 48 (take_bit 15 x)"
  by (simp add: TO_NODE_TS_def mask15 take_bit_eq_mask)

lemma ADDR_FROM_ADDRESS_field: "ADDR_FROM_ADDRESS x = take_bit 48 x"
  by (simp add: ADDR_FROM_ADDRESS_def ADDRESS_MASK_def mask48 take_bit_eq_mask and.commute)

lemma NODE_FROM_ADDRESS_field: "NODE_FROM_ADDRESS x = take_bit 15 (drop_bit 48 x)"
  unfolding NODE_FROM_ADDRESS_def NODE_MASK_def mask15
  by (rule bit_word_eqI) (auto simp: bit_simps)

lemmas ts_fields = NODE_TS_field VERSION_TS_field TO_NODE_TS_field LOCKBIT_TS_def
  ADDR_FROM_ADDRESS_field NODE_FROM_ADDRESS_field

lemma locked_bit: "locked ts \<longleftrightarrow> bit ts 63"
proof -
  have "bit (LOCKBIT_TS ts) 0 \<longleftrightarrow> bit ts 63"
    by (simp add: LOCKBIT_TS_def bit_simps)
  moreover have "n = 0" if "bit (LOCKBIT_TS ts) n" for n
    using that bit_imp_le_length [of ts "63 + n"] by (auto simp: LOCKBIT_TS_def bit_simps)
  ultimately show ?thesis
    by (metis bit_0_eq bit_word_eqI bot_apply bot_bool_def)
qed

lemma unat_VERSION_TS: "unat (VERSION_TS x) = unat x mod 2 ^ 48"
  by (simp add: VERSION_TS_field unsigned_take_bit_eq take_bit_nat_def)

lemma unat_ADDR: "unat (ADDR_FROM_ADDRESS x) = unat x mod 2 ^ 48"
  by (simp add: ADDR_FROM_ADDRESS_field unsigned_take_bit_eq take_bit_nat_def)

lemma unat_NODE: "unat (NODE_FROM_ADDRESS x) = unat x div 2 ^ 48 mod 2 ^ 15"
  by (simp add: NODE_FROM_ADDRESS_field unsigned_take_bit_eq take_bit_nat_def unat_drop_bit_div)

lemma ADDR_less: "unat (ADDR_FROM_ADDRESS x) < 2 ^ 48"
  by (simp add: unat_ADDR)

lemma locked_iff_ge: "locked ts \<longleftrightarrow> 2 ^ 63 \<le> unat ts"
proof -
  have "LOCKBIT_TS ts = 0 \<longleftrightarrow> unat ts div 2 ^ 63 = 0"
    by (metis LOCKBIT_TS_def unat_drop_bit_div unat_eq_zero)
  then show ?thesis by (auto simp: div_eq_0_iff)
qed

subsection \<open>Packing and unpacking\<close>

lemma NODE_pack [ts_simps]: "NODE_TS (TO_NODE_TS n OR take_bit 48 v) = take_bit 15 n"
  unfolding ts_fields by (rule bit_word_eqI) (auto simp: bit_simps)

lemma VERSION_pack [ts_simps]: "VERSION_TS (TO_NODE_TS n OR take_bit 48 v) = take_bit 48 v"
  unfolding ts_fields by (rule bit_word_eqI) (auto simp: bit_simps)

lemma locked_pack [ts_simps]: "\<not> locked (TO_NODE_TS n OR take_bit 48 v)"
  unfolding locked_bit by (auto simp: TO_NODE_TS_field bit_simps)

lemma locked_ADDR_pack [ts_simps]: "\<not> locked (take_bit 48 a OR TO_NODE_TS n)"
  unfolding locked_bit by (auto simp: TO_NODE_TS_field bit_simps)

lemma NODE_lock [ts_simps]: "NODE_TS (ts OR LOCK_BIT) = NODE_TS ts"
  unfolding ts_fields by (rule bit_word_eqI) (auto simp: bit_simps)

lemma VERSION_lock [ts_simps]: "VERSION_TS (ts OR LOCK_BIT) = VERSION_TS ts"
  unfolding ts_fields by (rule bit_word_eqI) (auto simp: bit_simps)

lemma locked_lock [ts_simps]: "locked (ts OR LOCK_BIT)"
  unfolding locked_bit by (simp add: bit_simps)

lemma ts_unpack: "\<not> locked ts \<Longrightarrow> TO_NODE_TS (NODE_TS ts) OR VERSION_TS ts = ts"
proof (rule bit_word_eqI)
  fix n assume "\<not> locked ts" and n: "n < LENGTH(64)"
  then have a: "\<not> bit ts 63" unfolding locked_bit by simp
  show "bit (TO_NODE_TS (NODE_TS ts) OR VERSION_TS ts) n = bit ts n"
  proof (cases "n = 63")
    case True
    with a show ?thesis by (auto simp: ts_fields bit_simps)
  next
    case False
    with n show ?thesis by (auto simp: ts_fields bit_simps)
  qed
qed

lemma ADDR_pack [ts_simps]: "ADDR_FROM_ADDRESS (take_bit 48 a OR TO_NODE_TS n) = take_bit 48 a"
  unfolding ts_fields by (rule bit_word_eqI) (auto simp: bit_simps)

lemma NODE_ADDR_pack [ts_simps]: "NODE_FROM_ADDRESS (take_bit 48 a OR TO_NODE_TS n) = take_bit 15 n"
  unfolding ts_fields by (rule bit_word_eqI) (auto simp: bit_simps)

lemma ADDR_ADDR [ts_simps]: "ADDR_FROM_ADDRESS (ADDR_FROM_ADDRESS x) = ADDR_FROM_ADDRESS x"
  unfolding ts_fields by simp

lemma addr_unpack:
  "\<not> locked x \<Longrightarrow> ADDR_FROM_ADDRESS x OR TO_NODE_TS (NODE_FROM_ADDRESS x) = x"
  using ts_unpack [of x]
  by (simp add: ADDR_FROM_ADDRESS_field NODE_FROM_ADDRESS_field NODE_TS_field VERSION_TS_field
      or.commute)

lemma addr_eqI:
  assumes "\<not> locked x" "\<not> locked y" "NODE_FROM_ADDRESS x = NODE_FROM_ADDRESS y"
    and "ADDR_FROM_ADDRESS x = ADDR_FROM_ADDRESS y"
  shows "x = y"
  using assms by (metis addr_unpack)

lemma unat_NODE_TS: "unat (NODE_TS x) = unat x div 2 ^ 48 mod 2 ^ 15"
  by (simp add: NODE_TS_field unsigned_take_bit_eq take_bit_nat_def unat_drop_bit_div)

text \<open>An unlocked timestamp as a number: the node stands above the version.\<close>

lemma unat_ts: "\<not> locked ts \<Longrightarrow> unat ts = unat (NODE_TS ts) * 2 ^ 48 + unat (VERSION_TS ts)"
proof -
  assume "\<not> locked ts"
  then have "unat ts < 2 ^ 15 * 2 ^ 48" by (simp add: locked_iff_ge)
  then have "unat ts div 2 ^ 48 < 2 ^ 15" by (simp add: div_less_iff_less_mult)
  then show ?thesis by (simp add: unat_NODE_TS unat_VERSION_TS)
qed

end
