(* ===== verification/Platform.thy ===== *)
theory Platform
  imports Timestamps
begin

text \<open>
  The platform under the sources: the memories of the nodes, the GASNet operations the code
  calls (third-party code, so parameters of the model: the record \<open>gasnet\<close>), and the
  interference of the other nodes and threads.  The contract \<open>gasnet_api\<close> states what the
  GASNet specification documents of these operations; \<open>reference_platform\<close> is the instance
  on which it is discharged and on which witnesses are evaluated.
\<close>

subsection \<open>Node memory\<close>

text \<open>The bytes of every node's address space, indexed by node and local address.\<close>

type_synonym memory = "nat \<Rightarrow> nat \<Rightarrow> u8"

definition load_bytes :: "memory \<Rightarrow> nat \<Rightarrow> u64 \<Rightarrow> nat \<Rightarrow> u8 list" where
  "load_bytes m n a k = map (\<lambda>i. m n (unat a + i)) [0..<k]"

definition store_bytes :: "memory \<Rightarrow> nat \<Rightarrow> u64 \<Rightarrow> u8 list \<Rightarrow> memory" where
  "store_bytes m n a bs =
     m(n := (\<lambda>x. if unat a \<le> x \<and> x < unat a + length bs then bs ! (x - unat a) else m n x))"

definition load64 :: "memory \<Rightarrow> nat \<Rightarrow> u64 \<Rightarrow> u64" where
  "load64 m n a = u64_of_bytes (load_bytes m n a 8)"

definition store64 :: "memory \<Rightarrow> nat \<Rightarrow> u64 \<Rightarrow> u64 \<Rightarrow> memory" where
  "store64 m n a w = store_bytes m n a (bytes_of_u64 w)"

text \<open>Two address ranges of the global memory do not meet.\<close>

definition apart :: "nat \<Rightarrow> u64 \<Rightarrow> nat \<Rightarrow> nat \<Rightarrow> u64 \<Rightarrow> nat \<Rightarrow> bool" where
  "apart n a k n' a' k' \<longleftrightarrow> n \<noteq> n' \<or> unat a + k \<le> unat a' \<or> unat a' + k' \<le> unat a"

lemma apart_sym: "apart n a k n' a' k' \<longleftrightarrow> apart n' a' k' n a k"
  by (auto simp: apart_def)

lemma apart_nodes: "x \<noteq> y \<Longrightarrow> apart (unat x) a k (unat y) a' k'" for x y :: u64
  by (auto simp: apart_def dest: word_unat_eq_iff [THEN iffD2])

lemma length_load_bytes [simp]: "length (load_bytes m n a k) = k"
  by (simp add: load_bytes_def)

lemma nth_load_bytes: "i < k \<Longrightarrow> load_bytes m n a k ! i = m n (unat a + i)"
  by (simp add: load_bytes_def)

lemma load_store_same [mem_simps]: "load_bytes (store_bytes m n a bs) n a (length bs) = bs"
  by (rule nth_equalityI) (auto simp: load_bytes_def store_bytes_def)

lemma load_store_apart [mem_simps]:
  "apart n a (length bs) n' a' k \<Longrightarrow> load_bytes (store_bytes m n a bs) n' a' k = load_bytes m n' a' k"
  by (auto simp: load_bytes_def store_bytes_def apart_def)

lemma store_load_same [mem_simps]: "store_bytes m n a (load_bytes m n a k) = m"
  by (intro ext) (auto simp: store_bytes_def nth_load_bytes)

lemma store_store_same [mem_simps]:
  "length bs = length bs' \<Longrightarrow> store_bytes (store_bytes m n a bs) n a bs' = store_bytes m n a bs'"
  by (intro ext) (auto simp: store_bytes_def)

lemma store_store_apart:
  "apart n a (length bs) n' a' (length bs') \<Longrightarrow>
   store_bytes (store_bytes m n a bs) n' a' bs' = store_bytes (store_bytes m n' a' bs') n a bs"
  by (intro ext) (auto simp: store_bytes_def apart_def)

lemma load_store64_same [mem_simps]: "load64 (store64 m n a w) n a = w"
  using load_store_same [of m n a "bytes_of_u64 w"] by (simp add: load64_def store64_def)

lemma load_store64_apart [mem_simps]:
  "apart n a 8 n' a' 8 \<Longrightarrow> load64 (store64 m n a w) n' a' = load64 m n' a'"
  by (simp add: load64_def store64_def load_store_apart)

lemma store_load64_same [mem_simps]: "store64 m n a (load64 m n a) = m"
  by (simp add: load64_def store64_def bytes_of_u64_of_bytes store_load_same)

lemma store_store64_same [mem_simps]: "store64 (store64 m n a v) n a w = store64 m n a w"
  by (simp add: store64_def store_store_same)

lemma store_store64_apart:
  "apart n a 8 n' a' 8 \<Longrightarrow> store64 (store64 m n a v) n' a' w = store64 (store64 m n' a' w) n a v"
  unfolding store64_def by (rule store_store_apart) simp

lemma load_bytes_store64_apart [mem_simps]:
  "apart n a 8 n' a' k \<Longrightarrow> load_bytes (store64 m n a w) n' a' k = load_bytes m n' a' k"
  by (simp add: store64_def load_store_apart)

lemma load64_store_bytes_apart [mem_simps]:
  "apart n a (length bs) n' a' 8 \<Longrightarrow> load64 (store_bytes m n a bs) n' a' = load64 m n' a'"
  by (simp add: load64_def load_store_apart)

lemma load_bytes_Suc: "load_bytes m n a (Suc k) = load_bytes m n a k @ [m n (unat a + k)]"
  by (simp add: load_bytes_def)

subsection \<open>The state a node's code shares with the rest of the system\<close>

text \<open>
  \<open>DSTMGASNetCache\<close> keeps the newest version seen of an object (\<open>i_map\<close>) and the log of its
  line size (\<open>cl_pow\<close>).  A \<open>world\<close> is the memory of all nodes together with the Lamport clock
  \<open>LOCAL_CLOCK\<close> and the \<open>globalCache\<close> of the node whose code runs; \<open>tick\<close> counts its accesses
  to shared state.
\<close>

record dstm_cache =
  i_map :: "(u64 \<times> u64) list"
  cl_pow :: nat

record world =
  mem :: memory
  LOCAL_CLOCK :: u64
  globalCache :: dstm_cache
  tick :: nat

text \<open>
  The operations of GASNet and of its atomics, and the identity of the node.  They act on a
  memory at one instant; \<open>gasnett_cas\<close> takes the current content of the cell, the expected
  value and the new one, and returns success and the new content.  The last three are the
  GASNet macros that split a pointer into two handler arguments and put it together again.
\<close>

record gasnet =
  gasnet_mynode :: nat
  gasnet_nodes :: nat
  gasnet_get :: "memory \<Rightarrow> nat \<Rightarrow> u64 \<Rightarrow> nat \<Rightarrow> u8 list"
  gasnet_put :: "memory \<Rightarrow> nat \<Rightarrow> u64 \<Rightarrow> u8 list \<Rightarrow> memory"
  gasnet_memset :: "memory \<Rightarrow> nat \<Rightarrow> u64 \<Rightarrow> u8 \<Rightarrow> nat \<Rightarrow> memory"
  gasnett_cas :: "u64 \<Rightarrow> u64 \<Rightarrow> u64 \<Rightarrow> bool \<times> u64"
  GASNETI_HIWORD :: "u64 \<Rightarrow> u32"
  GASNETI_LOWORD :: "u64 \<Rightarrow> u32"
  UNPACK2 :: "u32 \<Rightarrow> u32 \<Rightarrow> u64"

text \<open>
  A platform adds the environment, which may change the world before every access the
  modelled code makes, and the two build switches \<^verbatim>\<open>CACHE\<close> and \<^verbatim>\<open>VARIANT3\<close> of the CMake files.
\<close>

record platform = gasnet +
  env :: "world \<Rightarrow> world"
  CACHE :: bool
  VARIANT3 :: bool

definition sync :: "platform \<Rightarrow> world \<Rightarrow> world" where
  "sync G w = (env G w)\<lparr>tick := Suc (tick w)\<rparr>"

text \<open>
  \<open>fetch\<close> reads \<open>k\<close> bytes at one instant, through a pointer on the own node and with
  \<open>gasnet_get\<close> elsewhere; \<open>fetch_block\<close> reads byte after byte, with the environment between
  any two: a transfer of more than a word is not atomic.
\<close>

definition fetch :: "platform \<Rightarrow> nat \<Rightarrow> u64 \<Rightarrow> nat \<Rightarrow> world \<Rightarrow> u8 list \<times> world" where
  "fetch G n a k w =
     (let w' = sync G w
      in (if n = gasnet_mynode G then load_bytes (mem w') n a k
          else gasnet_get G (mem w') n a k, w'))"

fun fetch_block :: "platform \<Rightarrow> nat \<Rightarrow> u64 \<Rightarrow> nat \<Rightarrow> world \<Rightarrow> u8 list \<times> world" where
  "fetch_block G n a 0 w = ([], w)"
| "fetch_block G n a (Suc k) w =
     (let (bs, w1) = fetch_block G n a k w;
          (b, w2) = fetch G n (a + of_nat k) 1 w1
      in (bs @ b, w2))"

subsection \<open>What the code relies on\<close>

locale gasnet_api =
  fixes G :: platform
  assumes gasnet_get: "gasnet_get G m n a k = load_bytes m n a k"
    and gasnet_put: "gasnet_put G m n a bs = store_bytes m n a bs"
    and gasnet_memset: "gasnet_memset G m n a v k = store_bytes m n a (replicate k v)"
    and gasnett_cas: "gasnett_cas G cur old new = (if cur = old then (True, new) else (False, cur))"
    and UNPACK2: "UNPACK2 G (GASNETI_HIWORD G x) (GASNETI_LOWORD G x) = x"
begin

lemma fetch_eq: "fetch G n a k w = (load_bytes (mem (sync G w)) n a k, sync G w)"
  by (simp add: fetch_def gasnet_get Let_def)

lemma length_fetch_block: "fetch_block G n a k w = (bs, w') \<Longrightarrow> length bs = k"
  by (induction k arbitrary: bs w') (auto simp: fetch_eq split: prod.splits)

end

text \<open>Nobody else is active: the environment leaves the world alone.\<close>

locale quiet_api = gasnet_api +
  assumes quiet: "env G w = w"
begin

lemma sync_quiet [quiet_simps]: "sync G w = w\<lparr>tick := Suc (tick w)\<rparr>"
  by (simp add: sync_def quiet)

lemma fetch_quiet [quiet_simps]:
  "fetch G n a k w = (load_bytes (mem w) n a k, w\<lparr>tick := Suc (tick w)\<rparr>)"
  by (simp add: fetch_eq sync_quiet)

lemma fetch_block_quiet [quiet_simps]:
  "unat a + k \<le> 2 ^ 64 \<Longrightarrow>
   fetch_block G n a k w = (load_bytes (mem w) n a k, w\<lparr>tick := tick w + k\<rparr>)"
proof (induction k)
  case 0
  then show ?case by (simp add: load_bytes_def)
next
  case (Suc k)
  then have "unat (a + of_nat k) = unat a + k"
    by (subst unat_plus_simple) (auto simp: unsigned_of_nat take_bit_nat_def)
  with Suc show ?case
    by (simp add: fetch_quiet load_bytes_Suc) (simp add: load_bytes_def)
qed

end

subsection \<open>The reference platform\<close>

definition reference_platform ::
  "nat \<Rightarrow> nat \<Rightarrow> (world \<Rightarrow> world) \<Rightarrow> bool \<Rightarrow> bool \<Rightarrow> platform" where
  "reference_platform me nodes e c v3 =
     \<lparr>gasnet_mynode = me, gasnet_nodes = nodes, gasnet_get = load_bytes,
      gasnet_put = store_bytes, gasnet_memset = (\<lambda>m n a v k. store_bytes m n a (replicate k v)),
      gasnett_cas = (\<lambda>cur old new. if cur = old then (True, new) else (False, cur)),
      GASNETI_HIWORD = (\<lambda>x. ucast (drop_bit 32 x)), GASNETI_LOWORD = (\<lambda>x. ucast x),
      UNPACK2 = (\<lambda>h l. push_bit 32 (ucast h) OR ucast l),
      env = e, CACHE = c, VARIANT3 = v3\<rparr>"

lemma unpack_words: "push_bit 32 (ucast (ucast (drop_bit 32 x) :: u32)) OR ucast (ucast x :: u32) = x"
  for x :: u64
  by (rule bit_word_eqI) (auto simp: bit_simps)

interpretation reference: gasnet_api "reference_platform me nodes e c v3"
  by unfold_locales (simp_all add: reference_platform_def unpack_words)

interpretation reference_quiet: quiet_api "reference_platform me nodes (\<lambda>w. w) c v3"
  by unfold_locales (simp add: reference_platform_def)

text \<open>Node 0 of two nodes, alone: the platform of the witnesses.\<close>

definition example_platform :: "bool \<Rightarrow> bool \<Rightarrow> platform" where
  "example_platform c v3 = reference_platform 0 2 (\<lambda>w. w) c v3"

lemma example_quiet: "quiet_api (example_platform c v3)"
  unfolding example_platform_def by (rule reference_quiet.quiet_api_axioms)

lemma example_api: "gasnet_api (example_platform c v3)"
  unfolding example_platform_def by (rule reference.gasnet_api_axioms)

lemma example_platform_simps [simp]:
  "gasnet_mynode (example_platform c v3) = 0" "gasnet_nodes (example_platform c v3) = 2"
  "CACHE (example_platform c v3) = c" "VARIANT3 (example_platform c v3) = v3"
  by (simp_all add: example_platform_def reference_platform_def)

end
