(* ===== verification/MemMgr.thy ===== *)
theory MemMgr
  imports Platform
begin

text \<open>
  The memory manager \<^verbatim>\<open>GASNetMemoryManager\<close>
  (\<^verbatim>\<open>src/src/dstm_lib_p1/gasnet_mem_mgr.cpp\<close>): the layout of every node's GASNet segment into a
  table of lock words and the object area behind it, and the map from an object's address to
  the address of its lock word.  The lock table covers \<open>OBJECTS_COUNT\<close> blocks of
  \<open>2 ^ CDU_SIZE\<close> bytes, the common data units, which are the unit of conflict detection.
\<close>

subsection \<open>Constants\<close>

definition BUDDY_LEVEL :: nat where
  "BUDDY_LEVEL = 24"

definition CDU_SIZE :: nat where
  "CDU_SIZE = 6"

definition MAU_SIZE :: nat where
  "MAU_SIZE = 3"

definition OBJECTS_COUNT :: nat where
  "OBJECTS_COUNT = drop_bit CDU_SIZE (push_bit BUDDY_LEVEL 1)"

lemma OBJECTS_COUNT_eq: "OBJECTS_COUNT = 2 ^ 18"
  by (simp add: OBJECTS_COUNT_def CDU_SIZE_def BUDDY_LEVEL_def drop_bit_eq_div push_bit_eq_mult)

subsection \<open>The manager's tables\<close>

record memmgr =
  locks_addr :: "u64 list"
  objects_addr :: "u64 list"

text \<open>The loop of \<^verbatim>\<open>init\<close> over the segments, and the loop that zeroes the own lock table.\<close>

fun init_tables :: "u64 list \<Rightarrow> memmgr \<Rightarrow> memmgr" where
  "init_tables [] M = M"
| "init_tables (seg # segs) M =
     (let addr = push_bit 8 (drop_bit 8 seg);
          addr' = addr + of_nat (OBJECTS_COUNT * 8);
          al = drop_bit CDU_SIZE addr';
          ub = push_bit CDU_SIZE (al + 1)
      in init_tables segs (M\<lparr>locks_addr := locks_addr M @ [addr],
                              objects_addr := objects_addr M @ [ub]\<rparr>))"

definition zero_locks :: "nat \<Rightarrow> u64 \<Rightarrow> nat \<Rightarrow> memory \<Rightarrow> memory" where
  "zero_locks n base k m = fold (\<lambda>i m. store64 m n (base + of_nat (8 * i)) 0) [0..<k] m"

definition mgr_init :: "platform \<Rightarrow> u64 list \<Rightarrow> memory \<Rightarrow> (memmgr \<times> memory) option" where
  "mgr_init G segs m =
     (let M = init_tables segs \<lparr>locks_addr = [], objects_addr = []\<rparr>
      in if gasnet_mynode G < length (locks_addr M)
         then Some (M, zero_locks (gasnet_mynode G) (locks_addr M ! gasnet_mynode G) OBJECTS_COUNT m)
         else None)"

text \<open>
  The two overloads of \<^verbatim>\<open>getObjectLockAddr\<close>.  \<open>None\<close> is an access to the tables with a node
  number that is out of range (undefined behaviour of the vector subscript).
\<close>

definition getObjectLockAddr :: "memmgr \<Rightarrow> u64 \<Rightarrow> u64 option" where
  "getObjectLockAddr M addr =
     (let node = unat (NODE_FROM_ADDRESS addr)
      in if node < length (objects_addr M) \<and> node < length (locks_addr M)
         then let obj_num = drop_bit CDU_SIZE (ADDR_FROM_ADDRESS addr - objects_addr M ! node)
              in Some ((locks_addr M ! node + obj_num * 8) OR TO_NODE_TS (of_nat node))
         else None)"

definition getObjectLockAddr_at :: "memmgr \<Rightarrow> u64 \<Rightarrow> nat \<Rightarrow> u64 option" where
  "getObjectLockAddr_at M addr node =
     (if node < length (objects_addr M) \<and> node < length (locks_addr M)
      then let obj_num = drop_bit CDU_SIZE (ADDR_FROM_ADDRESS addr - objects_addr M ! node)
           in Some (locks_addr M ! node + obj_num * 8)
      else None)"

text \<open>The common data unit of an address, as the transactions compute it.\<close>

definition block_lb :: "u64 \<Rightarrow> u64" where
  "block_lb addr = push_bit CDU_SIZE (drop_bit CDU_SIZE addr)"

lemma unat_block_lb: "unat (block_lb a) = unat a div 64 * 64"
proof -
  have "unat (drop_bit 6 a) = unat a div 64" by (simp add: unat_drop_bit_div)
  moreover have "unat a div 64 * 64 < 2 ^ LENGTH(64)"
    by (rule le_less_trans [OF div_times_less_eq_dividend unsigned_less])
  ultimately show ?thesis
    using unat_push_bit [of "drop_bit 6 a" 6] by (simp add: block_lb_def CDU_SIZE_def)
qed

lemma block_lb_idem [simp]: "block_lb (block_lb a) = block_lb a"
  by (rule word_unat_eq_iff [THEN iffD2]) (simp add: unat_block_lb)

lemma block_lb_bits: "block_lb a = a AND NOT (mask 6)"
  unfolding block_lb_def CDU_SIZE_def by (rule bit_word_eqI) (auto simp: bit_simps)

lemma NODE_block_lb [ts_simps]: "NODE_FROM_ADDRESS (block_lb a) = NODE_FROM_ADDRESS a"
  unfolding block_lb_bits ts_fields by (rule bit_word_eqI) (auto simp: bit_simps)

lemma locked_block_lb [ts_simps]: "locked (block_lb a) = locked a"
  unfolding block_lb_bits locked_bit by (simp add: bit_simps)

lemma ADDR_block_lb: "ADDR_FROM_ADDRESS (block_lb a) = block_lb (ADDR_FROM_ADDRESS a)"
  unfolding block_lb_bits ts_fields by (rule bit_word_eqI) (auto simp: bit_simps)

subsection \<open>Well-formed tables\<close>

text \<open>
  The layout \<^verbatim>\<open>init\<close> promises for every node: the lock table ends before the object area
  begins, the object area is aligned to the common data unit, and the \<open>2 ^ BUDDY_LEVEL\<close> bytes
  of objects that the lock table covers lie in the 48-bit address space.
\<close>

definition wf_mgr :: "memmgr \<Rightarrow> bool" where
  "wf_mgr M \<longleftrightarrow> length (locks_addr M) = length (objects_addr M) \<and> length (objects_addr M) \<le> 2 ^ 15 \<and>
     (\<forall>n < length (objects_addr M).
        unat (locks_addr M ! n) + 2 ^ 21 \<le> unat (objects_addr M ! n) \<and>
        unat (objects_addr M ! n) mod 64 = 0 \<and> unat (objects_addr M ! n) + 2 ^ 24 < 2 ^ 48)"

definition in_objects :: "memmgr \<Rightarrow> u64 \<Rightarrow> bool" where
  "in_objects M a \<longleftrightarrow> \<not> locked a \<and>
     (let n = unat (NODE_FROM_ADDRESS a); x = unat (ADDR_FROM_ADDRESS a)
      in n < length (objects_addr M) \<and> unat (objects_addr M ! n) \<le> x \<and>
         x < unat (objects_addr M ! n) + 2 ^ 24)"

definition object_number :: "memmgr \<Rightarrow> u64 \<Rightarrow> nat" where
  "object_number M a =
     (unat (ADDR_FROM_ADDRESS a) - unat (objects_addr M ! unat (NODE_FROM_ADDRESS a))) div 64"

lemma in_objectsD:
  assumes "in_objects M a"
  shows "\<not> locked a" "unat (NODE_FROM_ADDRESS a) < length (objects_addr M)"
    "unat (objects_addr M ! unat (NODE_FROM_ADDRESS a)) \<le> unat (ADDR_FROM_ADDRESS a)"
    "unat (ADDR_FROM_ADDRESS a) < unat (objects_addr M ! unat (NODE_FROM_ADDRESS a)) + 2 ^ 24"
  using assms by (auto simp: in_objects_def Let_def)

lemma wf_mgrD:
  assumes "wf_mgr M" "n < length (objects_addr M)"
  shows "n < length (locks_addr M)" "unat (locks_addr M ! n) + 2 ^ 21 \<le> unat (objects_addr M ! n)"
    "unat (objects_addr M ! n) mod 64 = 0" "unat (objects_addr M ! n) + 2 ^ 24 < 2 ^ 48" "n < 2 ^ 15"
  using assms by (auto simp: wf_mgr_def)

lemma object_number_less: "in_objects M a \<Longrightarrow> object_number M a < OBJECTS_COUNT"
  by (frule in_objectsD(3), frule in_objectsD(4)) (simp add: object_number_def OBJECTS_COUNT_eq)

subsection \<open>The address of a lock word\<close>

lemma lock_addr_nat:
  assumes M: "wf_mgr M" and n: "n < length (objects_addr M)"
    and x: "unat (objects_addr M ! n) \<le> unat x" "unat x < unat (objects_addr M ! n) + 2 ^ 24"
  shows "unat (locks_addr M ! n + drop_bit 6 (x - objects_addr M ! n) * 8)
    = unat (locks_addr M ! n) + 8 * ((unat x - unat (objects_addr M ! n)) div 64)"
proof -
  let ?O = "objects_addr M ! n" and ?L = "locks_addr M ! n"
  note wf = wf_mgrD [OF M n]
  have sub: "unat (x - ?O) = unat x - unat ?O"
    using x by (simp add: unat_minus_simple word_le_nat_alt)
  have k: "unat (drop_bit 6 (x - ?O)) = (unat x - unat ?O) div 64"
    by (simp add: unat_drop_bit_div sub)
  have less: "(unat x - unat ?O) div 64 < 2 ^ 18" using x by simp
  have eight: "unat (drop_bit 6 (x - ?O) * 8) = 8 * ((unat x - unat ?O) div 64)"
    using less k unat_mult_lem [of "drop_bit 6 (x - ?O)" 8] by simp
  then show ?thesis
    using less wf by (subst unat_plus_simple) auto
qed

lemma getObjectLockAddr_field:
  assumes M: "wf_mgr M" and a: "in_objects M a"
  shows "\<exists>l. getObjectLockAddr M a = Some l \<and> \<not> locked l \<and>
    NODE_FROM_ADDRESS l = NODE_FROM_ADDRESS a \<and>
    unat (ADDR_FROM_ADDRESS l)
      = unat (locks_addr M ! unat (NODE_FROM_ADDRESS a)) + 8 * object_number M a"
proof -
  let ?n = "unat (NODE_FROM_ADDRESS a)"
  let ?la = "locks_addr M ! ?n + drop_bit 6 (ADDR_FROM_ADDRESS a - objects_addr M ! ?n) * 8"
  note ao = in_objectsD [OF a] and wf = wf_mgrD [OF M in_objectsD(2) [OF a]]
  have la: "unat ?la = unat (locks_addr M ! ?n) + 8 * object_number M a"
    using lock_addr_nat [OF M ao(2) ao(3) ao(4)] by (simp add: object_number_def)
  then have small: "unat ?la < 2 ^ 48"
    using wf object_number_less [OF a] by (simp add: OBJECTS_COUNT_eq)
  then have tb: "take_bit 48 ?la = ?la" by (simp add: take_bit_word_self_iff)
  have n: "(of_nat ?n :: u64) = NODE_FROM_ADDRESS a" by simp
  have n15: "take_bit 15 (NODE_FROM_ADDRESS a) = NODE_FROM_ADDRESS a"
    by (simp add: NODE_FROM_ADDRESS_field)
  have l: "getObjectLockAddr M a = Some (?la OR TO_NODE_TS (NODE_FROM_ADDRESS a))"
    using wf(1) ao(2) by (simp add: getObjectLockAddr_def Let_def CDU_SIZE_def n del: of_nat_unat)
  have "\<not> locked (?la OR TO_NODE_TS (NODE_FROM_ADDRESS a))"
    using locked_pack [of "NODE_FROM_ADDRESS a" ?la] tb by (simp add: or.commute)
  moreover have "NODE_FROM_ADDRESS (?la OR TO_NODE_TS (NODE_FROM_ADDRESS a)) = NODE_FROM_ADDRESS a"
    using NODE_ADDR_pack [of ?la "NODE_FROM_ADDRESS a"] tb n15 by simp
  moreover have "ADDR_FROM_ADDRESS (?la OR TO_NODE_TS (NODE_FROM_ADDRESS a)) = ?la"
    using ADDR_pack [of ?la "NODE_FROM_ADDRESS a"] tb by simp
  ultimately show ?thesis using l la by simp
qed

lemma getObjectLockAddr_at_field:
  assumes M: "wf_mgr M" and a: "in_objects M a" and l: "getObjectLockAddr M a = Some l"
  shows "getObjectLockAddr_at M (ADDR_FROM_ADDRESS a) (unat (NODE_FROM_ADDRESS a))
    = Some (ADDR_FROM_ADDRESS l)"
proof -
  let ?n = "unat (NODE_FROM_ADDRESS a)"
  note ao = in_objectsD [OF a] and wf = wf_mgrD [OF M in_objectsD(2) [OF a]]
  obtain l' where l': "getObjectLockAddr M a = Some l'"
    "unat (ADDR_FROM_ADDRESS l') = unat (locks_addr M ! ?n) + 8 * object_number M a"
    using getObjectLockAddr_field [OF M a] by blast
  with l have "unat (ADDR_FROM_ADDRESS l)
     = unat (locks_addr M ! ?n + drop_bit 6 (ADDR_FROM_ADDRESS a - objects_addr M ! ?n) * 8)"
    using lock_addr_nat [OF M ao(2) ao(3) ao(4)] by (simp add: object_number_def)
  then have "ADDR_FROM_ADDRESS l
     = locks_addr M ! ?n + drop_bit 6 (ADDR_FROM_ADDRESS a - objects_addr M ! ?n) * 8"
    by (simp only: word_unat_eq_iff)
  then show ?thesis
    using wf(1) ao(2) by (simp add: getObjectLockAddr_at_def Let_def CDU_SIZE_def ADDR_ADDR)
qed

lemma aligned_div:
  fixes o' x :: nat
  assumes "o' mod 64 = 0" "o' \<le> x"
  shows "(x - o') div 64 = x div 64 - o' div 64" "o' \<le> x div 64 * 64" "o' div 64 \<le> x div 64"
proof -
  obtain q where q: "o' = 64 * q" using assms(1) by auto
  obtain d where d: "x = 64 * q + d" using assms(2) q by (auto simp: le_iff_add)
  show "(x - o') div 64 = x div 64 - o' div 64" "o' \<le> x div 64 * 64" "o' div 64 \<le> x div 64"
    by (simp_all add: q d)
qed

lemma object_number_block:
  assumes M: "wf_mgr M" and a: "in_objects M a"
  shows "object_number M a = unat (ADDR_FROM_ADDRESS a) div 64
    - unat (objects_addr M ! unat (NODE_FROM_ADDRESS a)) div 64"
  using aligned_div(1) [OF wf_mgrD(3) [OF M in_objectsD(2) [OF a]] in_objectsD(3) [OF a]]
  by (simp add: object_number_def)

lemma in_objects_block_lb:
  assumes M: "wf_mgr M" and a: "in_objects M a"
  shows "in_objects M (block_lb a)" "object_number M (block_lb a) = object_number M a"
proof -
  have x: "unat (ADDR_FROM_ADDRESS (block_lb a)) = unat (ADDR_FROM_ADDRESS a) div 64 * 64"
    by (simp add: ADDR_block_lb unat_block_lb)
  note ao = in_objectsD [OF a] and wf = wf_mgrD(3) [OF M in_objectsD(2) [OF a]]
  have "unat (objects_addr M ! unat (NODE_FROM_ADDRESS a)) \<le> unat (ADDR_FROM_ADDRESS a) div 64 * 64"
    by (rule aligned_div(2) [OF wf ao(3)])
  moreover have "unat (ADDR_FROM_ADDRESS a) div 64 * 64
      < unat (objects_addr M ! unat (NODE_FROM_ADDRESS a)) + 2 ^ 24"
    by (rule le_less_trans [OF div_times_less_eq_dividend ao(4)])
  ultimately show in_b: "in_objects M (block_lb a)"
    using ao(1,2) by (simp add: in_objects_def Let_def locked_block_lb NODE_block_lb x)
  show "object_number M (block_lb a) = object_number M a"
    using object_number_block [OF M a] object_number_block [OF M in_b] by (simp add: x NODE_block_lb)
qed

lemma same_block_iff:
  assumes M: "wf_mgr M" and a: "in_objects M a" and b: "in_objects M b"
    and n: "NODE_FROM_ADDRESS a = NODE_FROM_ADDRESS b"
  shows "object_number M a = object_number M b \<longleftrightarrow> block_lb a = block_lb b"
proof
  assume eq: "object_number M a = object_number M b"
  let ?o = "unat (objects_addr M ! unat (NODE_FROM_ADDRESS b))"
  have le: "?o div 64 \<le> unat (ADDR_FROM_ADDRESS a) div 64" "?o div 64 \<le> unat (ADDR_FROM_ADDRESS b) div 64"
    using div_le_mono [OF in_objectsD(3) [OF a]] div_le_mono [OF in_objectsD(3) [OF b]] n by simp_all
  have "unat (ADDR_FROM_ADDRESS a) div 64 - ?o div 64 = unat (ADDR_FROM_ADDRESS b) div 64 - ?o div 64"
    using eq object_number_block [OF M a] object_number_block [OF M b] n by simp
  then have "unat (ADDR_FROM_ADDRESS a) div 64 = unat (ADDR_FROM_ADDRESS b) div 64"
    using eq_diff_iff [OF le] by blast
  then have "unat (ADDR_FROM_ADDRESS (block_lb a)) = unat (ADDR_FROM_ADDRESS (block_lb b))"
    by (simp add: ADDR_block_lb unat_block_lb)
  then have "ADDR_FROM_ADDRESS (block_lb a) = ADDR_FROM_ADDRESS (block_lb b)"
    by (simp only: word_unat_eq_iff)
  then show "block_lb a = block_lb b"
    using in_objectsD(1) [OF a] in_objectsD(1) [OF b] n
    by - (rule addr_eqI, simp_all add: NODE_block_lb locked_block_lb)
next
  assume "block_lb a = block_lb b"
  then show "object_number M a = object_number M b"
    using in_objects_block_lb(2) [OF M a] in_objects_block_lb(2) [OF M b] by simp
qed

subsection \<open>The interface of the lock table\<close>

text \<open>
  What the transactions and the lock server rely on: every valid address has a lock word on
  its own node, found alike from the global address and from the local one; blocks share a
  lock word exactly when they are the same block; and no lock word meets a block of objects.
\<close>

locale lock_table =
  fixes lock_of :: "u64 \<Rightarrow> u64 option"
    and lock_at :: "u64 \<Rightarrow> nat \<Rightarrow> u64 option"
    and valid :: "u64 \<Rightarrow> bool"
  assumes lock_of_valid: "valid a \<Longrightarrow> \<exists>l. lock_of a = Some l"
    and lock_of_node: "valid a \<Longrightarrow> lock_of a = Some l \<Longrightarrow> NODE_FROM_ADDRESS l = NODE_FROM_ADDRESS a"
    and lock_at_lock_of: "valid a \<Longrightarrow> lock_of a = Some l \<Longrightarrow>
      lock_at (ADDR_FROM_ADDRESS a) (unat (NODE_FROM_ADDRESS a)) = Some (ADDR_FROM_ADDRESS l)"
    and lock_of_block: "valid a \<Longrightarrow> valid b \<Longrightarrow> block_lb a = block_lb b \<Longrightarrow> lock_of a = lock_of b"
    and locks_apart: "valid a \<Longrightarrow> valid b \<Longrightarrow> block_lb a \<noteq> block_lb b \<Longrightarrow>
      lock_of a = Some l \<Longrightarrow> lock_of b = Some l' \<Longrightarrow>
      apart (unat (NODE_FROM_ADDRESS a)) (ADDR_FROM_ADDRESS l) 8
            (unat (NODE_FROM_ADDRESS b)) (ADDR_FROM_ADDRESS l') 8"
    and lock_block_apart: "valid a \<Longrightarrow> valid b \<Longrightarrow> lock_of a = Some l \<Longrightarrow>
      apart (unat (NODE_FROM_ADDRESS a)) (ADDR_FROM_ADDRESS l) 8
            (unat (NODE_FROM_ADDRESS b)) (ADDR_FROM_ADDRESS (block_lb b)) 64"
    and valid_unlocked: "valid a \<Longrightarrow> \<not> locked a"
    and valid_block: "valid a \<Longrightarrow> valid (block_lb a)"
begin

lemma blocks_apart:
  assumes "valid a" "valid b" "block_lb a \<noteq> block_lb b"
  shows "apart (unat (NODE_FROM_ADDRESS a)) (ADDR_FROM_ADDRESS (block_lb a)) 64
               (unat (NODE_FROM_ADDRESS b)) (ADDR_FROM_ADDRESS (block_lb b)) 64"
proof (cases "NODE_FROM_ADDRESS a = NODE_FROM_ADDRESS b")
  case False
  then show ?thesis by (rule apart_nodes)
next
  case True
  let ?x = "ADDR_FROM_ADDRESS (block_lb a)" and ?y = "ADDR_FROM_ADDRESS (block_lb b)"
  have "?x \<noteq> ?y"
    using assms True addr_eqI [of "block_lb a" "block_lb b"] valid_unlocked
    by (auto simp: NODE_block_lb locked_block_lb)
  then have ne: "unat ?x \<noteq> unat ?y" using word_unat_eq_iff by blast
  have "64 dvd unat ?x" "64 dvd unat ?y" by (simp_all add: ADDR_block_lb unat_block_lb)
  with ne show ?thesis unfolding apart_def by (auto elim!: dvdE)
qed

end

lemma lock_addr_of_valid:
  assumes "wf_mgr M" "in_objects M a" "getObjectLockAddr M a = Some l"
  shows "\<not> locked l \<and> NODE_FROM_ADDRESS l = NODE_FROM_ADDRESS a \<and> unat (ADDR_FROM_ADDRESS l)
    = unat (locks_addr M ! unat (NODE_FROM_ADDRESS a)) + 8 * object_number M a"
  using getObjectLockAddr_field [OF assms(1,2)] assms(3) by auto

lemma lock_addr_cong:
  assumes M: "wf_mgr M" and a: "in_objects M a" and b: "in_objects M b"
    and eq: "block_lb a = block_lb b"
  shows "getObjectLockAddr M a = getObjectLockAddr M b"
proof -
  have n: "NODE_FROM_ADDRESS a = NODE_FROM_ADDRESS b" using eq by (metis NODE_block_lb)
  obtain l where l: "getObjectLockAddr M a = Some l" using getObjectLockAddr_field [OF M a] by blast
  obtain l' where l': "getObjectLockAddr M b = Some l'" using getObjectLockAddr_field [OF M b] by blast
  note fl = lock_addr_of_valid [OF M a l] and fl' = lock_addr_of_valid [OF M b l']
  have "object_number M a = object_number M b" using same_block_iff [OF M a b n] eq by simp
  with fl fl' n have "unat (ADDR_FROM_ADDRESS l) = unat (ADDR_FROM_ADDRESS l')" by simp
  then have "ADDR_FROM_ADDRESS l = ADDR_FROM_ADDRESS l'" by (simp only: word_unat_eq_iff)
  then have "l = l'" using fl fl' n by - (rule addr_eqI, simp_all)
  with l l' show ?thesis by simp
qed

interpretation mgr: lock_table "getObjectLockAddr M" "getObjectLockAddr_at M"
  "\<lambda>a. wf_mgr M \<and> in_objects M a"
proof (unfold_locales, goal_cases)
  case (1 a)
  then show ?case using getObjectLockAddr_field by blast
next
  case (2 a l)
  then show ?case using lock_addr_of_valid by blast
next
  case (3 a l)
  then show ?case by (intro getObjectLockAddr_at_field) auto
next
  case (4 a b)
  then show ?case using lock_addr_cong by blast
next
  case (5 a b l l')
  then have fl: "unat (ADDR_FROM_ADDRESS l)
      = unat (locks_addr M ! unat (NODE_FROM_ADDRESS a)) + 8 * object_number M a"
    and fl': "unat (ADDR_FROM_ADDRESS l')
      = unat (locks_addr M ! unat (NODE_FROM_ADDRESS b)) + 8 * object_number M b"
    using lock_addr_of_valid by blast+
  show ?case
  proof (cases "NODE_FROM_ADDRESS a = NODE_FROM_ADDRESS b")
    case True
    with 5 same_block_iff have "object_number M a \<noteq> object_number M b" by blast
    with fl fl' True show ?thesis by (auto simp: apart_def)
  qed (rule apart_nodes)
next
  case (6 a b l)
  then have fl: "unat (ADDR_FROM_ADDRESS l)
      = unat (locks_addr M ! unat (NODE_FROM_ADDRESS a)) + 8 * object_number M a"
    using lock_addr_of_valid by blast
  have less: "object_number M a < 2 ^ 18"
    using 6 object_number_less by (simp add: OBJECTS_COUNT_eq)
  have b: "unat (objects_addr M ! unat (NODE_FROM_ADDRESS b)) \<le> unat (ADDR_FROM_ADDRESS (block_lb b))"
    using 6 in_objectsD(3) [of M "block_lb b"] in_objects_block_lb(1) [of M b] by (simp add: NODE_block_lb)
  show ?case
  proof (cases "NODE_FROM_ADDRESS a = NODE_FROM_ADDRESS b")
    case True
    with 6 wf_mgrD(2) [of M "unat (NODE_FROM_ADDRESS a)"] in_objectsD(2)
    have "unat (locks_addr M ! unat (NODE_FROM_ADDRESS a)) + 2 ^ 21
        \<le> unat (objects_addr M ! unat (NODE_FROM_ADDRESS b))" by metis
    with fl less b have "unat (ADDR_FROM_ADDRESS l) + 8 \<le> unat (ADDR_FROM_ADDRESS (block_lb b))"
      by simp
    then show ?thesis by (simp add: apart_def)
  qed (rule apart_nodes)
next
  case (7 a)
  then show ?case using in_objectsD(1) by blast
next
  case (8 a)
  then show ?case using in_objects_block_lb(1) by blast
qed

subsection \<open>What \<^verbatim>\<open>init\<close> establishes\<close>

definition lock_base :: "u64 \<Rightarrow> u64" where
  "lock_base seg = push_bit 8 (drop_bit 8 seg)"

definition object_base :: "u64 \<Rightarrow> u64" where
  "object_base seg = push_bit 6 (drop_bit 6 (lock_base seg + 2 ^ 21) + 1)"

lemma init_tables_map:
  "locks_addr (init_tables segs M) = locks_addr M @ map lock_base segs"
  "objects_addr (init_tables segs M) = objects_addr M @ map object_base segs"
  by (induction segs M rule: init_tables.induct)
    (simp_all add: Let_def lock_base_def object_base_def CDU_SIZE_def OBJECTS_COUNT_eq)

lemma unat_lock_base: "unat (lock_base s) = unat s div 256 * 256"
proof -
  have "unat s div 256 * 256 < 2 ^ LENGTH(64)"
    by (rule le_less_trans [OF div_times_less_eq_dividend unsigned_less])
  then show ?thesis
    using unat_push_bit [of "drop_bit 8 s" 8] by (simp add: lock_base_def unat_drop_bit_div)
qed

lemma unat_object_base:
  assumes "unat s + 2 ^ 25 \<le> 2 ^ 48"
  shows "unat (object_base s) = unat (lock_base s) + 2 ^ 21 + 64"
proof -
  define q where "q = unat s div 256"
  have q: "unat (lock_base s) = 256 * q" by (simp add: unat_lock_base q_def)
  have "256 * q \<le> unat s" by (simp add: q_def mult.commute)
  then have le: "256 * q + 2 ^ 25 \<le> 2 ^ 48" using assms by simp
  have s: "unat (lock_base s + 2 ^ 21) = 256 * q + 2 ^ 21"
    using le q by (subst unat_plus_simple) auto
  have d: "unat (drop_bit 6 (lock_base s + 2 ^ 21)) = 4 * q + 2 ^ 15"
    unfolding unat_drop_bit_div s by simp
  have p: "unat (drop_bit 6 (lock_base s + 2 ^ 21) + 1) = 4 * q + 2 ^ 15 + 1"
    using le d by (subst unat_plus_simple) auto
  show ?thesis
    unfolding object_base_def using le p q by (subst unat_push_bit) auto
qed

lemma init_tables_layout:
  assumes "length segs \<le> 2 ^ 15" and "\<forall>s \<in> set segs. unat s + 2 ^ 25 \<le> 2 ^ 48"
  shows "wf_mgr (init_tables segs \<lparr>locks_addr = [], objects_addr = []\<rparr>)"
proof -
  have "unat (lock_base s) + 2 ^ 21 \<le> unat (object_base s) \<and> unat (object_base s) mod 64 = 0
      \<and> unat (object_base s) + 2 ^ 24 < 2 ^ 48" if "s \<in> set segs" for s
  proof -
    have s: "unat s + 2 ^ 25 \<le> 2 ^ 48" using that assms(2) by blast
    have "unat s div 256 * 256 \<le> unat s" by (rule div_times_less_eq_dividend)
    with s show ?thesis
      by (simp add: unat_object_base [OF s] unat_lock_base  mod_add_eq [symmetric])
  qed
  then show ?thesis
    using assms(1) by (simp add: wf_mgr_def init_tables_map)
qed

text \<open>
  The tables \<^verbatim>\<open>init\<close> computes from the segment addresses are laid out as the rest of the
  system expects: on every node the lock words of all \<open>OBJECTS_COUNT\<close> objects end before the
  object area starts, and the object area starts on a block boundary.
\<close>

theorem init_tables_wf:
  assumes "length segs \<le> 2 ^ 15" and "\<forall>s \<in> set segs. unat s + 2 ^ 25 \<le> 2 ^ 48"
  shows "wf_mgr (init_tables segs \<lparr>locks_addr = [], objects_addr = []\<rparr>)"
  using assms by (rule init_tables_layout)

theorem init_tables_wf_witness:
  "wf_mgr (init_tables [0x10000, 0x7f0000001234] \<lparr>locks_addr = [], objects_addr = []\<rparr>)"
  by (rule init_tables_wf) simp_all

lemma zero_locks_Suc:
  "zero_locks n base (Suc k) m = store64 (zero_locks n base k m) n (base + of_nat (8 * k)) 0"
  by (simp add: zero_locks_def)

text \<open>
  After \<^verbatim>\<open>init\<close> every lock word of the own node is zero: unlocked, version 0.
\<close>

theorem zero_locks_zero:
  assumes "i < k" and "unat base + 8 * k \<le> 2 ^ 64"
  shows "load64 (zero_locks n base k m) n (base + of_nat (8 * i)) = 0"
  using assms
proof (induction k)
  case (Suc k)
  have idx: "unat (base + of_nat (8 * j)) = unat base + 8 * j" if "j \<le> k" for j
  proof -
    have "8 * j < 2 ^ 64" using that Suc.prems by simp
    then have "unat (of_nat (8 * j) :: u64) = 8 * j" by (intro unat_of_nat_small) simp
    with that Suc.prems show ?thesis by (subst unat_plus_simple) (auto simp del: of_nat_mult)
  qed
  show ?case
  proof (cases "i = k")
    case True
    then show ?thesis by (simp add: zero_locks_Suc load_store64_same)
  next
    case False
    with Suc.prems have "i < k" by simp
    then have "apart n (base + of_nat (8 * k)) 8 n (base + of_nat (8 * i)) 8"
      unfolding apart_def using idx [of i] idx [of k] by auto
    with Suc \<open>i < k\<close> show ?thesis by (simp add: zero_locks_Suc load_store64_apart)
  qed
qed simp

theorem zero_locks_zero_witness: "load64 (zero_locks 0 0x1000 4 (\<lambda>n a. 7)) 0 (0x1000 + of_nat (8 * 2)) = 0"
  by (rule zero_locks_zero) simp_all

text \<open>
  Two object addresses have the same lock word exactly when they lie in the same common
  data unit: conflicts are detected per block of 64 bytes, no two blocks share a lock, on
  whatever nodes they are.
\<close>

theorem lock_word_per_block:
  assumes M: "wf_mgr M" and a: "in_objects M a" and b: "in_objects M b"
  shows "getObjectLockAddr M a = getObjectLockAddr M b \<longleftrightarrow> block_lb a = block_lb b"
proof
  assume eq: "getObjectLockAddr M a = getObjectLockAddr M b"
  obtain l where l: "getObjectLockAddr M a = Some l" using mgr.lock_of_valid M a by blast
  show "block_lb a = block_lb b"
  proof (rule ccontr)
    assume "block_lb a \<noteq> block_lb b"
    then have "apart (unat (NODE_FROM_ADDRESS a)) (ADDR_FROM_ADDRESS l) 8
        (unat (NODE_FROM_ADDRESS b)) (ADDR_FROM_ADDRESS l) 8"
      using mgr.locks_apart M a b l eq by metis
    moreover have "NODE_FROM_ADDRESS a = NODE_FROM_ADDRESS b"
      using mgr.lock_of_node M a b l eq by metis
    ultimately show False by (simp add: apart_def)
  qed
next
  assume "block_lb a = block_lb b"
  then show "getObjectLockAddr M a = getObjectLockAddr M b"
    using mgr.lock_of_block M a b by blast
qed

definition example_mgr :: memmgr where
  "example_mgr = init_tables [0x10000, 0x10000] \<lparr>locks_addr = [], objects_addr = []\<rparr>"

lemma example_mgr_wf: "wf_mgr example_mgr"
  unfolding example_mgr_def by (rule init_tables_layout) simp_all

lemma example_mgr_tables:
  "locks_addr example_mgr = [0x10000, 0x10000]" "objects_addr example_mgr = [0x210040, 0x210040]"
  by (simp_all add: example_mgr_def init_tables_map lock_base_def object_base_def del: init_tables.simps)

theorem lock_word_per_block_witness:
  "getObjectLockAddr example_mgr 0x210041 = getObjectLockAddr example_mgr 0x21007f \<longleftrightarrow>
   block_lb 0x210041 = block_lb 0x21007f"
  by (rule lock_word_per_block [OF example_mgr_wf])
    (simp_all add: in_objects_def example_mgr_tables LOCKBIT_TS_def NODE_FROM_ADDRESS_def
      NODE_MASK_def ADDR_FROM_ADDRESS_def ADDRESS_MASK_def)

text \<open>
  The lock word of an object address lies inside the lock table of the object's own node,
  8 bytes aligned to its slot, and does not meet any object block.
\<close>

theorem lock_word_in_table:
  assumes M: "wf_mgr M" and a: "in_objects M a" and b: "in_objects M b"
    and l: "getObjectLockAddr M a = Some l"
  shows "NODE_FROM_ADDRESS l = NODE_FROM_ADDRESS a
    \<and> unat (locks_addr M ! unat (NODE_FROM_ADDRESS a)) \<le> unat (ADDR_FROM_ADDRESS l)
    \<and> unat (ADDR_FROM_ADDRESS l) + 8
        \<le> unat (locks_addr M ! unat (NODE_FROM_ADDRESS a)) + 8 * OBJECTS_COUNT
    \<and> apart (unat (NODE_FROM_ADDRESS a)) (ADDR_FROM_ADDRESS l) 8
            (unat (NODE_FROM_ADDRESS b)) (ADDR_FROM_ADDRESS (block_lb b)) 64"
  using lock_addr_of_valid [OF M a l] object_number_less [OF a] mgr.lock_block_apart [of M a b l] assms
  by auto

theorem lock_word_in_table_witness:
  "NODE_FROM_ADDRESS 0x10008 = NODE_FROM_ADDRESS 0x210081
    \<and> unat (locks_addr example_mgr ! unat (NODE_FROM_ADDRESS 0x210081)) \<le> unat (ADDR_FROM_ADDRESS 0x10008)
    \<and> unat (ADDR_FROM_ADDRESS 0x10008) + 8
        \<le> unat (locks_addr example_mgr ! unat (NODE_FROM_ADDRESS 0x210081)) + 8 * OBJECTS_COUNT
    \<and> apart (unat (NODE_FROM_ADDRESS 0x210081)) (ADDR_FROM_ADDRESS 0x10008) 8
            (unat (NODE_FROM_ADDRESS 0x210040)) (ADDR_FROM_ADDRESS (block_lb 0x210040)) 64"
  by (rule lock_word_in_table [OF example_mgr_wf])
    (simp_all add: in_objects_def example_mgr_tables LOCKBIT_TS_def NODE_FROM_ADDRESS_def
      NODE_MASK_def ADDR_FROM_ADDRESS_def ADDRESS_MASK_def getObjectLockAddr_def TO_NODE_TS_def CDU_SIZE_def)

end
