(* ===== verification/Malloc.thy ===== *)
theory Malloc
  imports MemMgr
begin

text \<open>
  The distributed heap of \<^verbatim>\<open>src/src/dstm_malloc/dstm_malloc.cpp\<close> with the active-message
  handlers that serve remote requests (\<^verbatim>\<open>src/src/gasnet_handlers.cpp\<close>, \<^verbatim>\<open>src/src/glue.cpp\<close>).
  Every node hands out its object area in units of \<open>2 ^ MAU_SIZE\<close> bytes from a bump counter
  (the buddy allocator of the same directory is disabled there; theory \<open>Buddy\<close> models it).
\<close>

subsection \<open>The allocator\<close>

record heap =
  LOW_BOUND :: u64
  ALL_UNITS :: i32

definition dstm_malloc_init :: "u64 \<Rightarrow> heap \<Rightarrow> heap" where
  "dstm_malloc_init lb h = h\<lparr>LOW_BOUND := lb\<rparr>"

text \<open>
  \<open>UINT_MAX\<close> as the node means the calling node.  \<^verbatim>\<open>units\<close>, \<^verbatim>\<open>offset\<close> and \<open>ALL_UNITS\<close> are C
  ints: 32 bits, sign-extended where they meet the 64-bit operands.
\<close>

definition UINT_MAX :: u32 where
  "UINT_MAX = 0xffffffff"

definition malloc_units :: "u64 \<Rightarrow> i32" where
  "malloc_units nbytes =
     (let units = ucast (drop_bit MAU_SIZE nbytes) :: i32
      in if (scast (push_bit MAU_SIZE units) :: u64) < nbytes
         then ucast (drop_bit MAU_SIZE nbytes + 1) else units)"

definition dstm_malloc_local :: "platform \<Rightarrow> u64 \<Rightarrow> heap \<Rightarrow> u64 \<times> heap" where
  "dstm_malloc_local G nbytes h =
     (let units = malloc_units nbytes;
          offset = ALL_UNITS h;
          h' = h\<lparr>ALL_UNITS := ALL_UNITS h + units\<rparr>
      in if offset = - 1 then (0, h')
         else let mem_ptr = LOW_BOUND h + scast (offset * push_bit MAU_SIZE 1)
              in (mem_ptr OR TO_NODE_TS (of_nat (gasnet_mynode G)), h'))"

text \<open>
  A request to another node: the size travels as a 32-bit handler argument, the handler
  allocates on its own node, and the pointer comes back in two halves.
\<close>

definition dstmmalloc_shrthandler ::
  "platform \<Rightarrow> i32 \<Rightarrow> heap \<Rightarrow> (u32 \<times> u32) \<times> heap" where
  "dstmmalloc_shrthandler G nbytes h =
     (let (ptr, h') = dstm_malloc_local G (scast nbytes) h
      in ((GASNETI_HIWORD G ptr, GASNETI_LOWORD G ptr), h'))"

definition dstmmalloc_succ_shrthandler :: "platform \<Rightarrow> u32 \<times> u32 \<Rightarrow> u64" where
  "dstmmalloc_succ_shrthandler G r = UNPACK2 G (fst r) (snd r)"

definition dstm_mallocMallocRequest ::
  "platform \<Rightarrow> u32 \<Rightarrow> u64 \<Rightarrow> (nat \<Rightarrow> heap) \<Rightarrow> u64 \<times> (nat \<Rightarrow> heap)" where
  "dstm_mallocMallocRequest G node nbytes hs =
     (let n = unat node;
          (r, h') = dstmmalloc_shrthandler (G\<lparr>gasnet_mynode := n\<rparr>) (ucast nbytes) (hs n)
      in (dstmmalloc_succ_shrthandler G r, hs(n := h')))"

definition dstm_malloc ::
  "platform \<Rightarrow> u64 \<Rightarrow> u32 \<Rightarrow> (nat \<Rightarrow> heap) \<Rightarrow> u64 \<times> (nat \<Rightarrow> heap)" where
  "dstm_malloc G nbytes node hs =
     (if node = UINT_MAX
      then let (p, h') = dstm_malloc_local G nbytes (hs (gasnet_mynode G))
           in (p, hs(gasnet_mynode G := h'))
      else dstm_mallocMallocRequest G node nbytes hs)"

text \<open>
  \<^verbatim>\<open>dstm_free\<close> clears one unit of the freed memory on its node; for another node's memory it
  sends a request, whose handler calls the memory manager and so \<^verbatim>\<open>dstm_free\<close> there.  The reply
  (\<^verbatim>\<open>dstmfree_succ_medhandler\<close>) does nothing.
\<close>

function dstm_free :: "platform \<Rightarrow> u64 \<Rightarrow> memory \<Rightarrow> memory"
  and dstm_mallocFreeRequest :: "platform \<Rightarrow> nat \<Rightarrow> u64 \<Rightarrow> memory \<Rightarrow> memory"
  and dstmfree_medhandler :: "platform \<Rightarrow> u64 \<Rightarrow> memory \<Rightarrow> memory"
  and dstm_mallocFree :: "platform \<Rightarrow> u64 \<Rightarrow> memory \<Rightarrow> memory"
  and mgr_free :: "platform \<Rightarrow> u64 \<Rightarrow> memory \<Rightarrow> memory" where
  "dstm_free G ptr m =
     (let node = unat (NODE_FROM_ADDRESS ptr); units = 1 :: nat
      in if node = gasnet_mynode G
         then gasnet_memset G m node (ADDR_FROM_ADDRESS ptr) 0 (units * 2 ^ MAU_SIZE)
         else dstm_mallocFreeRequest G node ptr m)"
| "dstm_mallocFreeRequest G node ptr m = dstmfree_medhandler (G\<lparr>gasnet_mynode := node\<rparr>) ptr m"
| "dstmfree_medhandler G ptr m = dstm_mallocFree G ptr m"
| "dstm_mallocFree G ptr m = mgr_free G ptr m"
| "mgr_free G ptr m = dstm_free G ptr m"
  by pat_completeness auto

text \<open>The calls up to the clearing: more when the memory belongs to another node.\<close>

definition free_calls :: "nat \<Rightarrow> nat \<Rightarrow> u64 \<Rightarrow> nat" where
  "free_calls i node ptr = (if unat (NODE_FROM_ADDRESS ptr) = node then i else i + 5)"

termination dstm_free
  by (relation "measure (case_sum
       (case_sum (\<lambda>(G, ptr, m). free_calls 0 (gasnet_mynode G) ptr) (\<lambda>(G, node, ptr, m). free_calls 4 node ptr))
       (case_sum (\<lambda>(G, ptr, m). free_calls 3 (gasnet_mynode G) ptr)
         (case_sum (\<lambda>(G, ptr, m). free_calls 2 (gasnet_mynode G) ptr) (\<lambda>(G, ptr, m). free_calls 1 (gasnet_mynode G) ptr))))")
    (simp_all add: free_calls_def)

lemmas free_chain = dstm_mallocFreeRequest.simps dstmfree_medhandler.simps dstm_mallocFree.simps mgr_free.simps

declare dstm_free.simps [simp del] free_chain [simp del]

definition dstm_memcpy :: "platform \<Rightarrow> u64 \<Rightarrow> u64 \<Rightarrow> nat \<Rightarrow> memory \<Rightarrow> memory" where
  "dstm_memcpy G dst src n m =
     (let src_node = unat (NODE_FROM_ADDRESS src)
      in store_bytes m (gasnet_mynode G) dst (gasnet_get G m src_node src n))"

subsection \<open>Sizes\<close>

lemma sint32_small: "unat w < 2 ^ 31 \<Longrightarrow> sint w = int (unat w)" for w :: i32
proof -
  assume a: "unat w < 2 ^ 31"
  then have "int (unat w) < 2 ^ 31" by (metis of_nat_less_iff of_nat_numeral of_nat_power)
  then have b: "uint w < 2 ^ 31" by simp
  have c: "0 \<le> uint w" by simp
  have "- (2 ^ 31) \<le> uint w" by (rule order_trans [OF _ c]) simp
  then have "signed_take_bit 31 (uint w) = uint w"
    using b by (rule signed_take_bit_int_eq_self)
  then show ?thesis by (simp add: sint_uint)
qed

lemma scast32_small: "unat w < 2 ^ 31 \<Longrightarrow> (scast w :: u64) = of_nat (unat w)" for w :: i32
  by (metis of_int_of_nat_eq scast_eq sint32_small)

lemma unat_scast32: "unat w < 2 ^ 31 \<Longrightarrow> unat (scast w :: u64) = unat w" for w :: i32
  by (simp only: scast32_small) (rule unat_of_nat_small, simp)

lemma malloc_units_nat:
  assumes "unat z + 8 \<le> 2 ^ 31"
  shows "unat (malloc_units z) = (unat z + 7) div 8"
proof -
  let ?u = "ucast (drop_bit 3 z) :: i32"
  have d: "unat (drop_bit 3 z) = unat z div 8" by (simp add: unat_drop_bit_div)
  have u: "unat ?u = unat z div 8"
    using assms d by (simp add: unsigned_ucast_eq take_bit_nat_def)
  have p: "unat (push_bit 3 ?u) = unat z div 8 * 8"
    using assms u unat_push_bit [of ?u 3] by simp
  have s: "unat (scast (push_bit 3 ?u) :: u64) = unat z div 8 * 8"
    using assms p by (subst unat_scast32) auto
  have d1: "unat (drop_bit 3 z + 1) = unat z div 8 + 1"
    using assms d by (subst unat_plus_simple) auto
  have u1: "unat (ucast (drop_bit 3 z + 1) :: i32) = unat z div 8 + 1"
    using assms d1 by (simp add: unsigned_ucast_eq take_bit_nat_def)
  show ?thesis
  proof (cases "unat z div 8 * 8 < unat z")
    case True
    then have "unat (malloc_units z) = unat z div 8 + 1"
      using s u1 by (simp add: malloc_units_def Let_def MAU_SIZE_def word_less_nat_alt)
    with True show ?thesis by presburger
  next
    case False
    then have "unat (malloc_units z) = unat z div 8"
      using s u by (simp add: malloc_units_def Let_def MAU_SIZE_def word_less_nat_alt)
    with False show ?thesis by presburger
  qed
qed

subsection \<open>Blocks handed out\<close>

text \<open>
  A heap within its capacity: the object area of \<open>2 ^ BUDDY_LEVEL\<close> bytes lies in the 48-bit
  address space, and the units handed out so far lie in it.
\<close>

definition heap_ok :: "heap \<Rightarrow> bool" where
  "heap_ok h \<longleftrightarrow> unat (LOW_BOUND h) + 2 ^ 24 < 2 ^ 48 \<and> unat (ALL_UNITS h) \<le> 2 ^ 21"

definition frontier :: "heap \<Rightarrow> nat" where
  "frontier h = unat (LOW_BOUND h) + 8 * unat (ALL_UNITS h)"

definition fits :: "heap \<Rightarrow> nat \<Rightarrow> bool" where
  "fits h k \<longleftrightarrow> unat (ALL_UNITS h) + (k + 7) div 8 \<le> 2 ^ 21"

lemma malloc_local_block:
  assumes h: "heap_ok h" and f: "fits h (unat z)"
  shows "\<exists>p h'. dstm_malloc_local G z h = (p, h') \<and> unat (ADDR_FROM_ADDRESS p) = frontier h \<and>
    NODE_FROM_ADDRESS p = take_bit 15 (of_nat (gasnet_mynode G)) \<and> \<not> locked p \<and>
    heap_ok h' \<and> LOW_BOUND h' = LOW_BOUND h \<and>
    unat (ALL_UNITS h') = unat (ALL_UNITS h) + (unat z + 7) div 8"
proof -
  let ?u = "ALL_UNITS h" and ?h' = "h\<lparr>ALL_UNITS := ALL_UNITS h + malloc_units z\<rparr>"
  let ?a = "LOW_BOUND h + scast (?u * push_bit MAU_SIZE 1)"
  have z: "unat z + 8 \<le> 2 ^ 31" and u: "unat ?u + (unat z + 7) div 8 \<le> 2 ^ 21"
    using f by (auto simp: fits_def)
  have mu: "unat (malloc_units z) = (unat z + 7) div 8" by (rule malloc_units_nat [OF z])
  have h': "unat (ALL_UNITS ?h') = unat ?u + (unat z + 7) div 8"
    using mu u by (simp add: unat_plus_simple)
  have ne: "?u \<noteq> - 1"
    using h by (auto simp: heap_ok_def unsigned_minus_1_eq_mask mask_eq_exp_minus_1)
  have m8: "unat (?u * push_bit MAU_SIZE 1) = 8 * unat ?u"
    using h unat_mult_lem [of ?u 8] by (simp add: heap_ok_def MAU_SIZE_def)
  then have sc: "unat (scast (?u * push_bit MAU_SIZE 1) :: u64) = 8 * unat ?u"
    using h by (subst unat_scast32) (auto simp: heap_ok_def)
  have fr: "unat ?a = frontier h"
    using h sc by (subst unat_plus_simple) (auto simp: heap_ok_def frontier_def)
  show ?thesis
  proof (cases "frontier h < 2 ^ 48")
    case True
    then have tb: "take_bit 48 ?a = ?a" using fr by (simp only: take_bit_word_self_iff)
    have "ADDR_FROM_ADDRESS (?a OR TO_NODE_TS (of_nat (gasnet_mynode G))) = ?a"
      using ADDR_pack [of ?a "of_nat (gasnet_mynode G)"] by (simp only: tb)
    moreover have "NODE_FROM_ADDRESS (?a OR TO_NODE_TS (of_nat (gasnet_mynode G)))
        = take_bit 15 (of_nat (gasnet_mynode G))"
      using NODE_ADDR_pack [of ?a "of_nat (gasnet_mynode G)"] by (simp only: tb)
    moreover have "\<not> locked (?a OR TO_NODE_TS (of_nat (gasnet_mynode G)))"
      using locked_ADDR_pack [of ?a "of_nat (gasnet_mynode G)"] unfolding tb .
    ultimately show ?thesis
      using ne fr h h' u by (simp add: dstm_malloc_local_def Let_def heap_ok_def)
  next
    case False
    then show ?thesis using h u by (auto simp: heap_ok_def frontier_def)
  qed
qed

text \<open>
  A request is rounded up to whole units and never short: for sizes a C int can count,
  the units cover the size and exceed it by less than one unit.
\<close>

theorem malloc_units_cover:
  assumes "unat z + 8 \<le> 2 ^ 31"
  shows "unat z \<le> 8 * unat (malloc_units z) \<and> 8 * unat (malloc_units z) < unat z + 8"
  unfolding malloc_units_nat [OF assms] by presburger

theorem malloc_units_cover_witness:
  "unat (17 :: u64) \<le> 8 * unat (malloc_units 17) \<and> 8 * unat (malloc_units 17) < unat (17 :: u64) + 8"
  by (rule malloc_units_cover) simp

subsection \<open>The interface of an allocator\<close>

text \<open>
  What a client of an allocator relies on, in bytes or units: a block that is handed out was
  free and is in use afterwards, and what was in use stays in use.
\<close>

fun alloc_many :: "('s \<Rightarrow> nat \<Rightarrow> (nat \<times> 's) option) \<Rightarrow> 's \<Rightarrow> nat list \<Rightarrow> ((nat \<times> nat) list \<times> 's) option" where
  "alloc_many alloc s [] = Some ([], s)"
| "alloc_many alloc s (k # ks) =
     (case alloc s k of None \<Rightarrow> None
      | Some (p, s1) \<Rightarrow> (case alloc_many alloc s1 ks of None \<Rightarrow> None
                        | Some (bs, s2) \<Rightarrow> Some ((p, k) # bs, s2)))"

definition extent :: "nat \<times> nat \<Rightarrow> nat set" where
  "extent b = {fst b ..< fst b + snd b}"

locale allocator =
  fixes alloc :: "'s \<Rightarrow> nat \<Rightarrow> (nat \<times> 's) option"
    and ok :: "'s \<Rightarrow> bool"
    and used :: "'s \<Rightarrow> nat set"
  assumes alloc_fresh: "ok s \<Longrightarrow> alloc s k = Some (p, s') \<Longrightarrow> extent (p, k) \<inter> used s = {}"
    and alloc_used: "ok s \<Longrightarrow> alloc s k = Some (p, s') \<Longrightarrow> extent (p, k) \<union> used s \<subseteq> used s'"
    and alloc_ok: "ok s \<Longrightarrow> alloc s k = Some (p, s') \<Longrightarrow> ok s'"
begin

lemma alloc_many_fresh:
  assumes "ok s" "alloc_many alloc s ks = Some (bs, s')"
  shows "(\<forall>b \<in> set bs. extent b \<inter> used s = {}) \<and> used s \<subseteq> used s'"
  using assms
proof (induction ks arbitrary: s bs)
  case (Cons k ks)
  from Cons.prems obtain p s1 bs1 where a: "alloc s k = Some (p, s1)"
    and m: "alloc_many alloc s1 ks = Some (bs1, s')" and bs: "bs = (p, k) # bs1"
    by (auto split: option.splits)
  have "ok s1" using alloc_ok Cons.prems(1) a by blast
  from Cons.IH [OF this m] alloc_used [OF Cons.prems(1) a]
  have "\<forall>b \<in> set bs1. extent b \<inter> used s = {}" "used s \<subseteq> used s'" by blast+
  with alloc_fresh [OF Cons.prems(1) a] show ?case by (simp add: bs)
qed simp

text \<open>However many blocks are handed out, no two of them overlap.\<close>

lemma alloc_many_disjoint:
  assumes "ok s" "alloc_many alloc s ks = Some (bs, s')" "i < length bs" "j < length bs" "i \<noteq> j"
  shows "extent (bs ! i) \<inter> extent (bs ! j) = {}"
  using assms
proof (induction ks arbitrary: s bs i j)
  case (Cons k ks)
  from Cons.prems obtain p s1 bs1 where a: "alloc s k = Some (p, s1)"
    and m: "alloc_many alloc s1 ks = Some (bs1, s')" and bs: "bs = (p, k) # bs1"
    by (auto split: option.splits)
  have s1: "ok s1" using alloc_ok Cons.prems(1) a by blast
  have later: "extent b \<inter> extent (p, k) = {}" if "b \<in> set bs1" for b
    using alloc_many_fresh [OF s1 m] alloc_used [OF Cons.prems(1) a] that by blast
  show ?case
  proof (cases i)
    case 0
    with Cons.prems bs later [of "bs1 ! (j - 1)"] show ?thesis by (cases j) auto
  next
    case (Suc i')
    with Cons.prems bs later [of "bs1 ! i'"] Cons.IH [OF s1 m, of i' "j - 1"] show ?thesis
      by (cases j) auto
  qed
qed simp

end

text \<open>
  The bump allocator on one node, for requests within the capacity that the lock table covers:
  a block is given by its local address.
\<close>

definition bump_alloc :: "platform \<Rightarrow> heap \<Rightarrow> nat \<Rightarrow> (nat \<times> heap) option" where
  "bump_alloc G h k =
     (if fits h k
      then let (p, h') = dstm_malloc_local G (of_nat k) h in Some (unat (ADDR_FROM_ADDRESS p), h')
      else None)"

definition bump_used :: "heap \<Rightarrow> nat set" where
  "bump_used h = {unat (LOW_BOUND h) ..< frontier h}"

lemma bump_alloc_block:
  assumes "heap_ok h" "bump_alloc G h k = Some (p, h')"
  shows "p = frontier h" "heap_ok h'" "bump_used h' = bump_used h \<union> {p ..< p + 8 * ((k + 7) div 8)}"
proof -
  have f: "fits h k" using assms(2) by (auto simp: bump_alloc_def split: if_splits)
  then have k: "unat (of_nat k :: u64) = k" by (intro unat_of_nat_small) (simp add: fits_def)
  with f have "fits h (unat (of_nat k :: u64))" by simp
  with malloc_local_block [OF assms(1) this, of G] assms(2) f k
  have p: "p = frontier h" and ok: "heap_ok h'" and lb: "LOW_BOUND h' = LOW_BOUND h"
    and u: "unat (ALL_UNITS h') = unat (ALL_UNITS h) + (k + 7) div 8"
    by (auto simp: bump_alloc_def)
  show "p = frontier h" "heap_ok h'" by (rule p, rule ok)
  have "frontier h' = frontier h + 8 * ((k + 7) div 8)" by (simp add: frontier_def lb u)
  moreover have "unat (LOW_BOUND h) \<le> frontier h" by (simp add: frontier_def)
  ultimately show "bump_used h' = bump_used h \<union> {p ..< p + 8 * ((k + 7) div 8)}"
    unfolding bump_used_def lb p by auto
qed

interpretation bump: allocator "bump_alloc G" heap_ok bump_used
proof (unfold_locales, goal_cases)
  case (1 h k p h')
  show ?case using bump_alloc_block(1) [OF 1] by (auto simp: extent_def bump_used_def)
next
  case (2 h k p h')
  have "k \<le> 8 * ((k + 7) div 8)" by presburger
  then show ?case using bump_alloc_block(3) [OF 2] by (auto simp: extent_def)
next
  case (3 h k p h')
  show ?case by (rule bump_alloc_block(2) [OF 3])
qed

text \<open>
  Whatever sizes a node allocates one after the other, the blocks it hands out within
  its capacity never overlap.
\<close>

theorem bump_blocks_disjoint:
  assumes "heap_ok h" "alloc_many (bump_alloc G) h ks = Some (bs, h')"
    and "i < length bs" "j < length bs" "i \<noteq> j"
  shows "extent (bs ! i) \<inter> extent (bs ! j) = {}"
  using assms by (rule bump.alloc_many_disjoint)

definition example_heap :: heap where
  "example_heap = \<lparr>LOW_BOUND = 0x210040, ALL_UNITS = 0\<rparr>"

theorem bump_blocks_disjoint_witness:
  "extent ([(0x210040, 24), (0x210058, 9), (0x210068, 8)] ! 0)
     \<inter> extent ([(0x210040, 24), (0x210058, 9), (0x210068, 8)] ! 2) = {}"
  by (rule bump_blocks_disjoint [where h = example_heap and ks = "[24, 9, 8]" and
        G = "reference_platform 0 2 (\<lambda>w. w) False False" and h' = "\<lparr>LOW_BOUND = 0x210040, ALL_UNITS = 6\<rparr>"])
    (simp_all add: example_heap_def heap_ok_def bump_alloc_def fits_def dstm_malloc_local_def
      malloc_units_def MAU_SIZE_def Let_def ADDR_FROM_ADDRESS_def ADDRESS_MASK_def TO_NODE_TS_def
      reference_platform_def)

text \<open>
  C40. An allocation of at least one byte on any node, by the node itself or by request over the
  network, as long as the units of the node's heap and those of the request together do not
  exceed the \<open>2 ^ BUDDY_LEVEL\<close> bytes of its lock table (\<open>fits\<close>; the code does not check it).  It
  returns the address of the first free byte of that node tagged with the number of the node,
  and every byte of the block lies in the area the lock table covers.  Afterwards the node has
  as many more units in use as cover the size, rounded up, so that the first free byte lies
  behind the block and a later block cannot overlap it; the bound of the heap is kept, and the
  heaps of the other nodes are untouched.
\<close>

theorem dstm_malloc_correct:
  assumes "gasnet_api G" and M: "wf_mgr M"
    and n: "n = (if node = UINT_MAX then gasnet_mynode G else unat node)" "n < length (objects_addr M)"
    and h: "heap_ok (hs n)" "LOW_BOUND (hs n) = objects_addr M ! n" "fits (hs n) (unat z)"
    and z: "0 < unat z"
  shows "\<exists>p hs'. dstm_malloc G z node hs = (p, hs') \<and> unat (ADDR_FROM_ADDRESS p) = frontier (hs n)
    \<and> unat (NODE_FROM_ADDRESS p) = n \<and> in_objects M p
    \<and> unat (ADDR_FROM_ADDRESS p) + unat z \<le> unat (objects_addr M ! n) + 2 ^ 24
    \<and> heap_ok (hs' n) \<and> LOW_BOUND (hs' n) = LOW_BOUND (hs n)
    \<and> unat (ALL_UNITS (hs' n)) = unat (ALL_UNITS (hs n)) + (unat z + 7) div 8
    \<and> unat (ADDR_FROM_ADDRESS p) + unat z \<le> frontier (hs' n)
    \<and> (\<forall>i. i \<noteq> n \<longrightarrow> hs' i = hs i)"
proof -
  let ?G = "G\<lparr>gasnet_mynode := n\<rparr>"
  have unpack: "UNPACK2 G (GASNETI_HIWORD G x) (GASNETI_LOWORD G x) = x" for x
    by (rule gasnet_api.UNPACK2 [OF assms(1)])
  have z32: "unat z < 2 ^ 31" using h(3) by (simp add: fits_def)
  then have "unat (ucast z :: i32) = unat z" by (simp add: unsigned_ucast_eq take_bit_nat_def)
  with z32 have rt: "scast (ucast z :: i32) = z"
    by (simp only: scast32_small) simp
  have n15: "n < 2 ^ 15" using wf_mgrD(5) [OF M n(2)] .
  then have tag: "unat (take_bit 15 (of_nat n :: u64)) = n"
    by (simp add: unsigned_take_bit_eq take_bit_nat_def unat_of_nat_small)
  obtain p h' where l: "dstm_malloc_local ?G z (hs n) = (p, h')"
    and p: "unat (ADDR_FROM_ADDRESS p) = frontier (hs n)"
    "NODE_FROM_ADDRESS p = take_bit 15 (of_nat n)" "\<not> locked p"
    and h': "heap_ok h'" "LOW_BOUND h' = LOW_BOUND (hs n)"
    "unat (ALL_UNITS h') = unat (ALL_UNITS (hs n)) + (unat z + 7) div 8"
    using malloc_local_block [OF h(1,3), of ?G] by auto
  have cover: "unat z \<le> 8 * ((unat z + 7) div 8)" by presburger
  then have top: "frontier (hs n) + unat z \<le> unat (objects_addr M ! n) + 2 ^ 24"
    using h(2,3) by (simp add: fits_def frontier_def)
  have beyond: "frontier (hs n) + unat z \<le> frontier h'" using cover h'(2,3) by (simp add: frontier_def)
  have free: "frontier (hs n) < unat (LOW_BOUND (hs n)) + 2 ^ 24"
    using h(3) z by (simp add: fits_def frontier_def)
  have ino: "in_objects M p"
    using p n(2) tag h(2) free by (simp add: in_objects_def frontier_def)
  have "dstm_malloc G z node hs = (p, hs(n := h'))"
  proof (cases "node = UINT_MAX")
    case True
    with n(1) have "?G = G" by simp
    with True l n(1) show ?thesis by (simp add: dstm_malloc_def)
  next
    case False
    with l n(1) rt show ?thesis
      by (simp add: dstm_malloc_def dstm_mallocMallocRequest_def dstmmalloc_shrthandler_def
          dstmmalloc_succ_shrthandler_def Let_def unpack)
  qed
  then show ?thesis using p ino tag top beyond h' by auto
qed

lemma reference_api: "gasnet_api (reference_platform me nodes e c v3)"
  by (rule reference.gasnet_api_axioms)

theorem dstm_malloc_correct_witness:
  "\<exists>p hs'. dstm_malloc (reference_platform 0 2 (\<lambda>w. w) False False) 24 1 (\<lambda>_. example_heap) = (p, hs')
    \<and> unat (ADDR_FROM_ADDRESS p) = frontier example_heap
    \<and> unat (NODE_FROM_ADDRESS p) = 1 \<and> in_objects example_mgr p \<and> unat (ALL_UNITS (hs' 1)) = 3
    \<and> (\<forall>i. i \<noteq> 1 \<longrightarrow> hs' i = example_heap)"
proof -
  have "heap_ok example_heap" "LOW_BOUND example_heap = objects_addr example_mgr ! 1"
    "fits example_heap (unat (24 :: u64))" "ALL_UNITS example_heap = 0"
    by (simp_all add: example_mgr_tables heap_ok_def example_heap_def fits_def)
  moreover have "1 = (if (1 :: u32) = UINT_MAX then gasnet_mynode (reference_platform 0 2 (\<lambda>w. w) False False) else unat (1 :: u32))"
    "1 < length (objects_addr example_mgr)" "0 < unat (24 :: u64)"
    by (simp_all add: UINT_MAX_def example_mgr_tables)
  ultimately obtain p hs' where
    "dstm_malloc (reference_platform 0 2 (\<lambda>w. w) False False) 24 1 (\<lambda>_. example_heap) = (p, hs')"
    "unat (ADDR_FROM_ADDRESS p) = frontier example_heap" "unat (NODE_FROM_ADDRESS p) = 1" "in_objects example_mgr p"
    "unat (ALL_UNITS (hs' 1)) = unat (ALL_UNITS example_heap) + (unat (24 :: u64) + 7) div 8" "\<forall>i. i \<noteq> 1 \<longrightarrow> hs' i = example_heap"
    using dstm_malloc_correct [OF reference_api [of 0 2 "\<lambda>w. w" False False] example_mgr_wf, of 1 1 "\<lambda>_. example_heap" 24] by blast
  then show ?thesis by (simp add: example_heap_def)
qed

subsection \<open>Freeing and copying\<close>

text \<open>
  Freed from any node, an object's first unit is cleared on the node that owns it, and
  no other byte of the system changes.
\<close>

theorem dstm_free_effect:
  assumes "gasnet_api G"
  shows "dstm_free G ptr m
    = store_bytes m (unat (NODE_FROM_ADDRESS ptr)) (ADDR_FROM_ADDRESS ptr) (replicate 8 0)"
proof -
  let ?G = "G\<lparr>gasnet_mynode := unat (NODE_FROM_ADDRESS ptr)\<rparr>"
  have ms: "gasnet_memset G m n a v k = store_bytes m n a (replicate k v)" for m n a v k
    by (rule gasnet_api.gasnet_memset [OF assms])
  have "dstm_free ?G ptr m
      = store_bytes m (unat (NODE_FROM_ADDRESS ptr)) (ADDR_FROM_ADDRESS ptr) (replicate 8 0)"
    by (subst dstm_free.simps) (simp add: Let_def ms MAU_SIZE_def)
  then show ?thesis
    by (subst dstm_free.simps) (simp add: Let_def ms MAU_SIZE_def free_chain)
qed

theorem dstm_free_effect_witness:
  "dstm_free (reference_platform 1 2 (\<lambda>w. w) False False) 0x210040 (\<lambda>n a. 9)
    = store_bytes (\<lambda>n a. 9) (unat (NODE_FROM_ADDRESS 0x210040)) (ADDR_FROM_ADDRESS 0x210040) (replicate 8 0)"
  by (rule dstm_free_effect [OF reference_api])

lemma node_high: "NODE_FROM_ADDRESS src \<noteq> 0 \<Longrightarrow> 2 ^ 48 \<le> unat src"
proof (rule ccontr)
  assume n: "NODE_FROM_ADDRESS src \<noteq> 0" and "\<not> 2 ^ 48 \<le> unat src"
  then have "unat (NODE_FROM_ADDRESS src) = 0" by (simp add: unat_NODE)
  with n show False by (simp add: unat_eq_zero)
qed

text \<open>
  \<^verbatim>\<open>dstm_memcpy\<close> hands the tagged source address to \<^verbatim>\<open>gasnet_get\<close>, where every other
  caller strips the node bits: for a source on a node other than 0 the bytes it copies do not
  depend on anything stored in the 48-bit address space in which the objects live.
\<close>

theorem dstm_memcpy_misses_object:
  assumes G: "gasnet_api G" and n: "NODE_FROM_ADDRESS src \<noteq> 0"
    and m: "\<forall>a \<ge> 2 ^ 48. m' (unat (NODE_FROM_ADDRESS src)) a = m (unat (NODE_FROM_ADDRESS src)) a"
  shows "load_bytes (dstm_memcpy G dst src k m') (gasnet_mynode G) dst k
       = load_bytes (dstm_memcpy G dst src k m) (gasnet_mynode G) dst k"
proof -
  have get: "gasnet_get G m n a k = load_bytes m n a k" for m n a k
    by (rule gasnet_api.gasnet_get [OF G])
  have same: "load_bytes m' (unat (NODE_FROM_ADDRESS src)) src k
      = load_bytes m (unat (NODE_FROM_ADDRESS src)) src k"
    using m node_high [OF n] by (auto simp: load_bytes_def)
  have copied: "load_bytes (dstm_memcpy G dst src k x) (gasnet_mynode G) dst k
      = load_bytes x (unat (NODE_FROM_ADDRESS src)) src k" for x
    using load_store_same [of x "gasnet_mynode G" dst "load_bytes x (unat (NODE_FROM_ADDRESS src)) src k"]
    by (simp add: dstm_memcpy_def Let_def get)
  show ?thesis by (simp add: copied same)
qed

theorem dstm_memcpy_misses_object_witness:
  "load_bytes (dstm_memcpy (reference_platform 0 2 (\<lambda>w. w) False False) 0x100 (0x210040 OR TO_NODE_TS 1) 8
      (\<lambda>n a. if a < 2 ^ 48 then 7 else 0)) (gasnet_mynode (reference_platform 0 2 (\<lambda>w. w) False False)) 0x100 8
   = load_bytes (dstm_memcpy (reference_platform 0 2 (\<lambda>w. w) False False) 0x100 (0x210040 OR TO_NODE_TS 1) 8
      (\<lambda>n a. 0)) (gasnet_mynode (reference_platform 0 2 (\<lambda>w. w) False False)) 0x100 8"
  by (rule dstm_memcpy_misses_object [OF reference_api])
    (simp_all add: TO_NODE_TS_def NODE_FROM_ADDRESS_def NODE_MASK_def)

end
