(* ===== verification/Buddy.thy ===== *)
theory Buddy
  imports Malloc
begin

text \<open>
  The buddy allocator \<^verbatim>\<open>src/src/dstm_malloc/buddy.cpp\<close>: a complete binary tree of node states
  stored level by level in an array, searched and updated by index arithmetic.  The loops are
  modelled as the code runs them, over array and index; \<open>None\<close> stands for a run without a
  result (an access outside the array, a failed assertion, or no return at all).
\<close>

subsection \<open>Data\<close>

datatype node_state = NODE_UNUSED | NODE_USED | NODE_SPLIT | NODE_FULL

record buddy =
  level :: nat
  tree :: "node_state list"

text \<open>\<^verbatim>\<open>1 << level\<close> is a C int, so it is defined for levels up to 30 only.\<close>

definition arena_length :: "nat \<Rightarrow> int option" where
  "arena_length l = (if l \<le> 30 then Some (2 ^ l) else None)"

text \<open>A new arena, for these levels.\<close>

definition buddy_new :: "nat \<Rightarrow> buddy" where
  "buddy_new l = (let sz = 2 ^ l in \<lparr>level = l, tree = replicate (sz * 2 - 1) NODE_UNUSED\<rparr>)"

text \<open>Reading and writing the array at a C int.\<close>

definition tget :: "node_state list \<Rightarrow> int \<Rightarrow> node_state option" where
  "tget t i = (if 0 \<le> i \<and> nat i < length t then Some (t ! nat i) else None)"

definition tput :: "node_state list \<Rightarrow> int \<Rightarrow> node_state \<Rightarrow> node_state list option" where
  "tput t i x = (if 0 \<le> i \<and> nat i < length t then Some (t[nat i := x]) else None)"

subsection \<open>Sizes\<close>

definition is_pow_of_2 :: "u32 \<Rightarrow> bool" where
  "is_pow_of_2 x = (x AND (x - 1) = 0)"

definition next_pow_of_2 :: "u32 \<Rightarrow> u32" where
  "next_pow_of_2 x =
     (if is_pow_of_2 x then x
      else let x = x OR drop_bit 1 x;
               x = x OR drop_bit 2 x;
               x = x OR drop_bit 4 x;
               x = x OR drop_bit 8 x;
               x = x OR drop_bit 16 x
           in x + 1)"

definition index_offset :: "int \<Rightarrow> int \<Rightarrow> int \<Rightarrow> int" where
  "index_offset index lev max_level = ((index + 1) - 2 ^ nat lev) * 2 ^ nat (max_level - lev)"

subsection \<open>Allocation\<close>

definition buddy_index :: "int \<Rightarrow> int" where
  "buddy_index index = index - 1 + (index mod 2) * 2"

definition parent_index :: "int \<Rightarrow> int" where
  "parent_index index = (index + 1) div 2 - 1"

partial_function (option) mark_parent :: "node_state list \<Rightarrow> int \<Rightarrow> node_state list option" where
  "mark_parent t index =
     (if buddy_index index > 0
      then case tget t (buddy_index index) of None \<Rightarrow> None
           | Some b \<Rightarrow>
               if b = NODE_USED \<or> b = NODE_FULL
               then case tput t (parent_index index) NODE_FULL of None \<Rightarrow> None
                    | Some t' \<Rightarrow> mark_parent t' (parent_index index)
               else Some t
      else Some t)"

text \<open>
  The inner loop of \<^verbatim>\<open>buddy_alloc\<close> that climbs from a right child to the first ancestor that is
  a left child and moves to its sibling; \<open>None\<close> is the return of -1 at the root.
\<close>

function climb :: "int \<Rightarrow> int \<Rightarrow> int \<Rightarrow> (int \<times> int \<times> int) option" where
  "climb index lev len =
     (let lev = lev - 1; len = len * 2; index' = parent_index index
      in if index' < 0 then None
         else if index' mod 2 = 1 then Some (index' + 1, lev, len)
         else climb index' lev len)"
  by pat_completeness auto
termination
  by (relation "measure (\<lambda>(index, lev, len). nat index)") (auto simp: parent_index_def)

declare climb.simps [simp del]

partial_function (option) buddy_alloc_loop ::
  "nat \<Rightarrow> int \<Rightarrow> node_state list \<Rightarrow> int \<Rightarrow> int \<Rightarrow> int \<Rightarrow> (int \<times> node_state list) option" where
  "buddy_alloc_loop max_level sz t index lev len =
     (if index < 0 then Some (- 1, t)
      else case tget t index of None \<Rightarrow> None
      | Some st \<Rightarrow>
          if sz = len \<and> st = NODE_UNUSED
          then (case tput t index NODE_USED of None \<Rightarrow> None
                | Some t1 \<Rightarrow> (case mark_parent t1 index of None \<Rightarrow> None
                             | Some t2 \<Rightarrow> Some (index_offset index lev (int max_level), t2)))
          else if sz \<noteq> len \<and> st = NODE_UNUSED
          then (case tput t index NODE_SPLIT of None \<Rightarrow> None
                | Some t1 \<Rightarrow> (case tput t1 (index * 2 + 1) NODE_UNUSED of None \<Rightarrow> None
                | Some t2 \<Rightarrow> (case tput t2 (index * 2 + 2) NODE_UNUSED of None \<Rightarrow> None
                | Some t3 \<Rightarrow> buddy_alloc_loop max_level sz t3 (index * 2 + 1) (lev + 1) (len div 2))))
          else if sz \<noteq> len \<and> st = NODE_SPLIT
          then buddy_alloc_loop max_level sz t (index * 2 + 1) (lev + 1) (len div 2)
          else if index mod 2 = 1
          then buddy_alloc_loop max_level sz t (index + 1) lev len
          else case climb index lev len of None \<Rightarrow> Some (- 1, t)
               | Some (index', lev', len') \<Rightarrow> buddy_alloc_loop max_level sz t index' lev' len')"

definition buddy_alloc :: "buddy \<Rightarrow> i32 \<Rightarrow> (int \<times> buddy) option" where
  "buddy_alloc self s =
     (let sz = (if s = 0 then 1 else sint (next_pow_of_2 s))
      in case arena_length (level self) of None \<Rightarrow> None
         | Some len \<Rightarrow>
             if sz > len then Some (- 1, self)
             else map_option (\<lambda>(r, t). (r, self\<lparr>tree := t\<rparr>))
                    (buddy_alloc_loop (level self) sz (tree self) 0 0 len))"

subsection \<open>Release and size\<close>

text \<open>The inner loop of \<^verbatim>\<open>_combine\<close>, which reopens the full ancestors.\<close>

partial_function (option) reopen :: "node_state list \<Rightarrow> int \<Rightarrow> node_state list option" where
  "reopen t index =
     (let index' = parent_index index
      in if index' \<ge> 0
         then case tget t index' of None \<Rightarrow> None
              | Some st \<Rightarrow> if st = NODE_FULL
                          then case tput t index' NODE_SPLIT of None \<Rightarrow> None
                               | Some t' \<Rightarrow> reopen t' index'
                          else Some t
         else Some t)"

partial_function (option) combine :: "node_state list \<Rightarrow> int \<Rightarrow> node_state list option" where
  "combine t index =
     (if buddy_index index < 0
      then (case tput t index NODE_UNUSED of None \<Rightarrow> None | Some t' \<Rightarrow> reopen t' index)
      else case tget t (buddy_index index) of None \<Rightarrow> None
           | Some b \<Rightarrow> if b \<noteq> NODE_UNUSED
                      then (case tput t index NODE_UNUSED of None \<Rightarrow> None
                            | Some t' \<Rightarrow> reopen t' index)
                      else combine t (parent_index index))"

partial_function (option) buddy_free_loop ::
  "node_state list \<Rightarrow> int \<Rightarrow> int \<Rightarrow> int \<Rightarrow> int \<Rightarrow> node_state list option" where
  "buddy_free_loop t offset left len index =
     (case tget t index of None \<Rightarrow> None
      | Some st \<Rightarrow>
          if st = NODE_USED then (if offset = left then combine t index else None)
          else if st = NODE_UNUSED then None
          else let len' = len div 2
               in if offset < left + len'
                  then buddy_free_loop t offset left len' (index * 2 + 1)
                  else buddy_free_loop t offset (left + len') len' (index * 2 + 2))"

definition buddy_free :: "buddy \<Rightarrow> int \<Rightarrow> buddy option" where
  "buddy_free self offset =
     (case arena_length (level self) of None \<Rightarrow> None
      | Some len \<Rightarrow>
          if offset < len
          then map_option (\<lambda>t. self\<lparr>tree := t\<rparr>) (buddy_free_loop (tree self) offset 0 len 0)
          else None)"

partial_function (option) buddy_size_loop ::
  "node_state list \<Rightarrow> int \<Rightarrow> int \<Rightarrow> int \<Rightarrow> int \<Rightarrow> int option" where
  "buddy_size_loop t offset left len index =
     (case tget t index of None \<Rightarrow> None
      | Some st \<Rightarrow>
          if st = NODE_USED then (if offset = left then Some len else None)
          else if st = NODE_UNUSED then None
          else let len' = len div 2
               in if offset < left + len'
                  then buddy_size_loop t offset left len' (index * 2 + 1)
                  else buddy_size_loop t offset (left + len') len' (index * 2 + 2))"

definition buddy_size :: "buddy \<Rightarrow> int \<Rightarrow> int option" where
  "buddy_size self offset =
     (case arena_length (level self) of None \<Rightarrow> None
      | Some len \<Rightarrow> if offset < len then buddy_size_loop (tree self) offset 0 len 0 else None)"

subsection \<open>Printing\<close>

text \<open>
  \<^verbatim>\<open>buddy_dump\<close> prints the tree from left to right: a free block in round brackets, a block in use
  in square brackets, each as offset and size, and the children of a split node in round and of a
  full node in curly brackets.  An item stands for what one \<^verbatim>\<open>printf\<close> writes.
\<close>

datatype dump_item = Free_item int int | Used_item int int | Open_full | Close_full | Open_split | Close_split

partial_function (option) dump :: "nat \<Rightarrow> node_state list \<Rightarrow> int \<Rightarrow> int \<Rightarrow> dump_item list option" where
  "dump max_level t index lev =
     (case tget t index of None \<Rightarrow> None
      | Some st \<Rightarrow>
          if st = NODE_UNUSED
          then Some [Free_item (index_offset index lev (int max_level)) (2 ^ nat (int max_level - lev))]
          else if st = NODE_USED
          then Some [Used_item (index_offset index lev (int max_level)) (2 ^ nat (int max_level - lev))]
          else Option.bind (dump max_level t (index * 2 + 1) (lev + 1)) (\<lambda>l.
               Option.bind (dump max_level t (index * 2 + 2) (lev + 1)) (\<lambda>r.
                 Some (if st = NODE_FULL then [Open_full] @ l @ r @ [Close_full]
                       else [Open_split] @ l @ r @ [Close_split]))))"

definition buddy_dump :: "buddy \<Rightarrow> dump_item list option" where
  "buddy_dump self = dump (level self) (tree self) 0 0"

end
