(* ===== verification/Buddy_Tree.thy ===== *)
theory Buddy_Tree
  imports Buddy
begin

text \<open>
  What the buddy allocator promises, on trees: the abstract state is a binary tree whose used
  leaves are the blocks in use; allocation takes the first free block of the right size from
  the left, splitting on the way, and release merges free buddies.  The array of theory
  \<open>Buddy\<close> represents such a tree (\<open>rep\<close>).
\<close>

subsection \<open>Abstract trees\<close>

datatype btree = Unused | Used | Split btree btree | Full btree btree

fun full :: "btree \<Rightarrow> bool" where
  "full Used = True"
| "full (Full l r) = True"
| "full _ = False"

text \<open>A node above two subtrees, after an allocation and after a release in one of them.\<close>

definition join_full :: "btree \<Rightarrow> btree \<Rightarrow> btree" where
  "join_full l r = (if full l \<and> full r then Full l r else Split l r)"

definition join_free :: "btree \<Rightarrow> btree \<Rightarrow> btree" where
  "join_free l r = (if l = Unused \<and> r = Unused then Unused else Split l r)"

fun wfb :: "nat \<Rightarrow> btree \<Rightarrow> bool" where
  "wfb h Unused = True"
| "wfb h Used = True"
| "wfb 0 _ = False"
| "wfb (Suc h) (Split l r) = (wfb h l \<and> wfb h r \<and> \<not> (full l \<and> full r) \<and> \<not> (l = Unused \<and> r = Unused))"
| "wfb (Suc h) (Full l r) = (wfb h l \<and> wfb h r \<and> full l \<and> full r)"

text \<open>Allocation of a block of \<open>2 ^ k\<close> units in a tree of \<open>2 ^ h\<close> units: its offset and the new tree.\<close>

fun alloc_bt :: "nat \<Rightarrow> nat \<Rightarrow> btree \<Rightarrow> (nat \<times> btree) option" where
  "alloc_bt 0 k b = (if k = 0 \<and> b = Unused then Some (0, Used) else None)"
| "alloc_bt (Suc h) k b =
     (if k = Suc h then (if b = Unused then Some (0, Used) else None)
      else case b of
        Used \<Rightarrow> None
      | Full l r \<Rightarrow> None
      | Unused \<Rightarrow> map_option (\<lambda>(p, l'). (p, join_full l' Unused)) (alloc_bt h k Unused)
      | Split l r \<Rightarrow>
          (case alloc_bt h k l of
             Some (p, l') \<Rightarrow> Some (p, join_full l' r)
           | None \<Rightarrow> map_option (\<lambda>(p, r'). (2 ^ h + p, join_full l r')) (alloc_bt h k r)))"

fun free_bt :: "nat \<Rightarrow> nat \<Rightarrow> btree \<Rightarrow> btree option" where
  "free_bt h p Unused = None"
| "free_bt h p Used = (if p = 0 then Some Unused else None)"
| "free_bt 0 p _ = None"
| "free_bt (Suc h) p (Split l r) =
     (if p < 2 ^ h then map_option (\<lambda>l'. join_free l' r) (free_bt h p l)
      else map_option (\<lambda>r'. join_free l r') (free_bt h (p - 2 ^ h) r))"
| "free_bt (Suc h) p (Full l r) =
     (if p < 2 ^ h then map_option (\<lambda>l'. join_free l' r) (free_bt h p l)
      else map_option (\<lambda>r'. join_free l r') (free_bt h (p - 2 ^ h) r))"

text \<open>The blocks in use, as offset and size, and the units they cover.\<close>

fun blocks :: "nat \<Rightarrow> nat \<Rightarrow> btree \<Rightarrow> (nat \<times> nat) set" where
  "blocks p h Unused = {}"
| "blocks p h Used = {(p, 2 ^ h)}"
| "blocks p 0 _ = {}"
| "blocks p (Suc h) (Split l r) = blocks p h l \<union> blocks (p + 2 ^ h) h r"
| "blocks p (Suc h) (Full l r) = blocks p h l \<union> blocks (p + 2 ^ h) h r"

definition units :: "(nat \<times> nat) set \<Rightarrow> nat set" where
  "units B = (\<Union>b \<in> B. extent b)"

lemma units_simps [simp]:
  "units {} = {}" "units (insert b B) = extent b \<union> units B" "units (A \<union> B) = units A \<union> units B"
  by (auto simp: units_def)

lemma wfb_join_full: "wfb h l \<Longrightarrow> wfb h r \<Longrightarrow> \<not> (l = Unused \<and> r = Unused) \<Longrightarrow> wfb (Suc h) (join_full l r)"
  by (auto simp: join_full_def)

lemma wfb_join_free: "wfb h l \<Longrightarrow> wfb h r \<Longrightarrow> \<not> (full l \<and> full r) \<Longrightarrow> wfb (Suc h) (join_free l r)"
  by (auto simp: join_free_def)

lemma blocks_join [simp]:
  "blocks p (Suc h) (join_full l r) = blocks p h l \<union> blocks (p + 2 ^ h) h r"
  "blocks p (Suc h) (join_free l r) = blocks p h l \<union> blocks (p + 2 ^ h) h r"
  by (auto simp: join_full_def join_free_def)

lemma blocks_range: "(q, s) \<in> blocks p h b \<Longrightarrow> p \<le> q \<and> q + s \<le> p + 2 ^ h \<and> 0 < s"
  by (induction p h b arbitrary: q s rule: blocks.induct) fastforce+

lemma units_range: "units (blocks p h b) \<subseteq> {p ..< p + 2 ^ h}"
  using blocks_range by (fastforce simp: units_def extent_def)

lemma full_units: "wfb h b \<Longrightarrow> full b \<Longrightarrow> units (blocks p h b) = {p ..< p + 2 ^ h}"
proof (induction h b arbitrary: p rule: wfb.induct)
  case (5 h l r)
  then have "units (blocks p h l) = {p ..< p + 2 ^ h}"
    "units (blocks (p + 2 ^ h) h r) = {p + 2 ^ h ..< p + 2 ^ h + 2 ^ h}" by simp_all
  then show ?case by (auto simp: mult_2)
qed (auto simp: extent_def)

lemma full_not_unused: "full b \<Longrightarrow> b \<noteq> Unused"
  by auto

lemma wfb_nonempty: "wfb h b \<Longrightarrow> b \<noteq> Unused \<Longrightarrow> blocks p h b \<noteq> {}"
  by (induction h b arbitrary: p rule: wfb.induct) (auto dest: full_not_unused)

subsection \<open>Allocation\<close>

lemma alloc_bt_not_unused: "alloc_bt h k b = Some (p, b') \<Longrightarrow> b' \<noteq> Unused"
  by (cases h) (auto simp: join_full_def split: if_splits btree.splits option.splits)

lemma alloc_bt_same: "k \<le> h \<Longrightarrow> alloc_bt h h b = (if b = Unused then Some (0, Used) else None)"
  by (cases h) auto

lemma alloc_bt_unused: "k \<le> h \<Longrightarrow> alloc_bt h k Unused \<noteq> None"
  by (induction h) (auto simp: le_Suc_eq)

lemma alloc_bt_wf: "wfb h b \<Longrightarrow> alloc_bt h k b = Some (p, b') \<Longrightarrow> wfb h b'"
proof (induction h arbitrary: b p b')
  case (Suc h)
  show ?case
  proof (cases b)
    case Unused
    with Suc.prems(2) consider "b' = Used" | l' where "alloc_bt h k Unused = Some (p, l')" "b' = join_full l' Unused"
      by (auto split: if_splits)
    then show ?thesis
      by cases (simp, metis Suc.IH alloc_bt_not_unused wfb.simps(1) wfb_join_full)
  next
    case (Split l r)
    with Suc.prems(2) consider
      l' where "alloc_bt h k l = Some (p, l')" "b' = join_full l' r"
      | q r' where "alloc_bt h k r = Some (q, r')" "b' = join_full l r'"
      by (auto split: if_splits option.splits)
    then show ?thesis
    proof cases
      case 1
      with Suc.prems(1) Split have "wfb h l'" "wfb h r" "l' \<noteq> Unused"
        using Suc.IH [OF _ 1(1)] alloc_bt_not_unused [OF 1(1)] by simp_all
      then show ?thesis unfolding 1(2) by (intro wfb_join_full) simp_all
    next
      case 2
      with Suc.prems(1) Split have "wfb h r'" "wfb h l" "r' \<noteq> Unused"
        using Suc.IH [OF _ 2(1)] alloc_bt_not_unused [OF 2(1)] by simp_all
      then show ?thesis unfolding 2(2) by (intro wfb_join_full) simp_all
    qed
  qed (use Suc.prems in \<open>auto split: if_splits\<close>)
qed (auto split: if_splits)

lemma alloc_bt_blocks:
  assumes "wfb h b" "k \<le> h" "alloc_bt h k b = Some (p, b')"
  shows "blocks c h b' = insert (c + p, 2 ^ k) (blocks c h b) \<and> p + 2 ^ k \<le> 2 ^ h \<and> 2 ^ k dvd p \<and>
    extent (c + p, 2 ^ k) \<inter> units (blocks c h b) = {}"
  using assms
proof (induction h arbitrary: b p b' c)
  case (Suc h)
  show ?case
  proof (cases "k = Suc h")
    case True
    with Suc.prems show ?thesis by (auto split: if_splits)
  next
    case False
    with Suc.prems(2) have k: "k \<le> h" by simp
    have dvd: "(2 :: nat) ^ k dvd 2 ^ h" using k by (rule le_imp_power_dvd)
    show ?thesis
    proof (cases b)
      case Unused
      with Suc.prems False obtain l' where l: "alloc_bt h k Unused = Some (p, l')" "b' = join_full l' Unused"
        by auto
      with Suc.IH [of Unused p l' c] k Unused show ?thesis by simp
    next
      case (Split l r)
      with Suc.prems(3) False consider
        l' where "alloc_bt h k l = Some (p, l')" "b' = join_full l' r"
        | q r' where "alloc_bt h k r = Some (q, r')" "b' = join_full l r'" "p = 2 ^ h + q"
        by (auto split: if_splits option.splits)
      then show ?thesis
      proof cases
        case 1
        with Suc.IH [of l p l' c] Suc.prems(1) Split k have
          IH: "blocks c h l' = insert (c + p, 2 ^ k) (blocks c h l)" "p + 2 ^ k \<le> 2 ^ h" "2 ^ k dvd p"
          "extent (c + p, 2 ^ k) \<inter> units (blocks c h l) = {}" by auto
        have "extent (c + p, 2 ^ k) \<inter> units (blocks (c + 2 ^ h) h r) = {}"
          using IH(2) units_range [of "c + 2 ^ h" h r] by (auto simp: extent_def)
        with IH 1 Split show ?thesis by auto
      next
        case 2
        with Suc.IH [of r q r' "c + 2 ^ h"] Suc.prems(1) Split k have
          IH: "blocks (c + 2 ^ h) h r' = insert (c + 2 ^ h + q, 2 ^ k) (blocks (c + 2 ^ h) h r)"
          "q + 2 ^ k \<le> 2 ^ h" "2 ^ k dvd q"
          "extent (c + 2 ^ h + q, 2 ^ k) \<inter> units (blocks (c + 2 ^ h) h r) = {}" by auto
        have "extent (c + p, 2 ^ k) \<inter> units (blocks c h l) = {}"
          using 2(3) units_range [of c h l] by (auto simp: extent_def)
        with IH 2 Split dvd show ?thesis by (auto simp: add.assoc)
      qed
    qed (use Suc.prems False in auto)
  qed
qed (auto split: if_splits)

text \<open>A refusal means that every aligned block of the size meets a block in use.\<close>

lemma alloc_bt_complete:
  assumes "wfb h b" "k \<le> h" "alloc_bt h k b = None" "2 ^ k dvd p" "p + 2 ^ k \<le> 2 ^ h"
  shows "extent (c + p, 2 ^ k) \<inter> units (blocks c h b) \<noteq> {}"
  using assms
proof (induction h arbitrary: b p c)
  case 0
  then have "b = Used" by (cases b) auto
  with 0 show ?case by (auto simp: extent_def)
next
  case (Suc h)
  show ?case
  proof (cases "k = Suc h")
    case True
    with Suc.prems have b: "b \<noteq> Unused" and p: "p = 0" by auto
    obtain q s where "(q, s) \<in> blocks c (Suc h) b" using wfb_nonempty [OF Suc.prems(1) b, of c]
      by (metis all_not_in_conv surj_pair)
    with blocks_range [OF this] have "q \<in> units (blocks c (Suc h) b)"
      unfolding units_def by (intro UN_I [of "(q, s)"]) (simp_all add: extent_def)
    then show ?thesis
      using units_range [of c "Suc h" b] by (auto simp: p True extent_def)
  next
    case False
    with Suc.prems(2) have k: "k \<le> h" by simp
    obtain j where j: "p = 2 ^ k * j" using Suc.prems(4) by blast
    obtain e where e: "(2 :: nat) ^ h = 2 ^ k * e" using k le_imp_power_dvd dvdE by metis
    show ?thesis
    proof (cases "p + 2 ^ k \<le> 2 ^ h")
      case True
      show ?thesis
      proof (cases b)
        case (Split l r)
        with Suc.prems False have "alloc_bt h k l = None" by (auto split: option.splits)
        with Suc.IH [of l p c] Suc.prems(1,4) Split k True show ?thesis by auto
      qed (use Suc.prems False k True full_units [of "Suc h" b c] alloc_bt_unused [of k h] in
          \<open>auto simp: extent_def\<close>)
    next
      case not_left: False
      have "2 ^ h \<le> p"
      proof (rule ccontr)
        assume "\<not> 2 ^ h \<le> p"
        then have "2 ^ k * j < 2 ^ k * e" by (simp add: j e)
        then have "j + 1 \<le> e" by simp
        then have "2 ^ k * (j + 1) \<le> 2 ^ k * e" by (rule mult_le_mono2)
        with not_left show False by (simp add: j e)
      qed
      then obtain q where q: "p = 2 ^ h + q" using le_Suc_ex by blast
      have dq: "2 ^ k dvd q" using Suc.prems(4) q k by (simp add: dvd_add_right_iff le_imp_power_dvd)
      have lq: "q + 2 ^ k \<le> 2 ^ h" using Suc.prems(5) q by simp
      show ?thesis
      proof (cases b)
        case (Split l r)
        with Suc.prems False have "alloc_bt h k r = None" by (auto split: option.splits)
        with Suc.IH [of r q "c + 2 ^ h"] Suc.prems(1) Split k dq lq q show ?thesis
          by (auto simp: add.assoc)
      qed (use Suc.prems False k full_units [of "Suc h" b c] alloc_bt_unused [of k h] in
          \<open>auto simp: extent_def\<close>)
    qed
  qed
qed

subsection \<open>Release\<close>

lemma join_free_not_full: "\<not> full (join_free l r)"
  by (simp add: join_free_def)

lemma free_bt_not_full: "free_bt h p b = Some b' \<Longrightarrow> \<not> full b'"
  by (cases "(h, p, b)" rule: free_bt.cases) (auto simp: join_free_not_full split: if_splits)

lemma free_bt_wf: "wfb h b \<Longrightarrow> free_bt h p b = Some b' \<Longrightarrow> wfb h b'"
proof (induction h p b arbitrary: b' rule: free_bt.induct)
  case (4 h p l r)
  then show ?case by (auto split: if_splits intro!: wfb_join_free dest: free_bt_not_full)
next
  case (5 h p l r)
  then show ?case by (auto split: if_splits intro!: wfb_join_free dest: free_bt_not_full)
qed (auto split: if_splits)

text \<open>Releasing a block in use removes exactly that block.\<close>

lemma blocks_split: "(c + p, s) \<in> blocks c h l \<union> blocks (c + 2 ^ h) h r \<Longrightarrow>
  (if p < 2 ^ h then (c + p, s) \<in> blocks c h l
   else (c + 2 ^ h + (p - 2 ^ h), s) \<in> blocks (c + 2 ^ h) h r)"
  using blocks_range [of "c + p" s c h l] blocks_range [of "c + p" s "c + 2 ^ h" h r] by auto

lemma blocks_other_half:
  "p < 2 ^ h \<Longrightarrow> (c + p, s) \<notin> blocks (c + 2 ^ h) h r"
  "2 ^ h \<le> p \<Longrightarrow> (c + p, s) \<notin> blocks c h l"
  using blocks_range [of "c + p" s c h l] blocks_range [of "c + p" s "c + 2 ^ h" h r] by auto

lemma free_bt_node:
  assumes IHl: "\<And>s c. p < 2 ^ h \<Longrightarrow> (c + p, s) \<in> blocks c h l \<Longrightarrow>
      \<exists>l'. free_bt h p l = Some l' \<and> blocks c h l' = blocks c h l - {(c + p, s)}"
    and IHr: "\<And>s c. \<not> p < 2 ^ h \<Longrightarrow> (c + (p - 2 ^ h), s) \<in> blocks c h r \<Longrightarrow>
      \<exists>r'. free_bt h (p - 2 ^ h) r = Some r' \<and> blocks c h r' = blocks c h r - {(c + (p - 2 ^ h), s)}"
    and mem: "(c + p, s) \<in> blocks c h l \<union> blocks (c + 2 ^ h) h r"
  shows "\<exists>b'. (if p < 2 ^ h then map_option (\<lambda>l'. join_free l' r) (free_bt h p l)
       else map_option (\<lambda>r'. join_free l r') (free_bt h (p - 2 ^ h) r)) = Some b' \<and>
    blocks c (Suc h) b' = (blocks c h l \<union> blocks (c + 2 ^ h) h r) - {(c + p, s)}"
proof (cases "p < 2 ^ h")
  case True
  with blocks_split [OF mem] IHl blocks_other_half(1) [OF True] show ?thesis by fastforce
next
  case False
  then have eq: "c + 2 ^ h + (p - 2 ^ h) = c + p" by simp
  from False blocks_split [OF mem] have m: "(c + 2 ^ h + (p - 2 ^ h), s) \<in> blocks (c + 2 ^ h) h r" by simp
  from IHr [OF False m] obtain r' where "free_bt h (p - 2 ^ h) r = Some r'"
    "blocks (c + 2 ^ h) h r' = blocks (c + 2 ^ h) h r - {(c + p, s)}" unfolding eq by blast
  with False blocks_other_half(2) [of h p c s l] show ?thesis by auto
qed

lemma free_bt_blocks:
  assumes "wfb h b" "(c + p, s) \<in> blocks c h b"
  shows "\<exists>b'. free_bt h p b = Some b' \<and> blocks c h b' = blocks c h b - {(c + p, s)}"
  using assms
proof (induction h p b arbitrary: c s rule: free_bt.induct)
  case (4 h p l r)
  have wf: "wfb h l" "wfb h r" and mem: "(c + p, s) \<in> blocks c h l \<union> blocks (c + 2 ^ h) h r"
    using "4.prems" by simp_all
  from free_bt_node [OF "4.IH"(1) [OF _ wf(1)] "4.IH"(2) [OF _ wf(2)] mem] show ?case by simp
next
  case (5 h p l r)
  have wf: "wfb h l" "wfb h r" and mem: "(c + p, s) \<in> blocks c h l \<union> blocks (c + 2 ^ h) h r"
    using "5.prems" by simp_all
  from free_bt_node [OF "5.IH"(1) [OF _ wf(1)] "5.IH"(2) [OF _ wf(2)] mem] show ?case by simp
qed auto

text \<open>A well-formed tree is determined by its blocks: merging free buddies keeps trees canonical.\<close>

lemma blocks_halves:
  assumes "blocks p h l1 \<union> blocks (p + 2 ^ h) h r1 = blocks p h l2 \<union> blocks (p + 2 ^ h) h r2"
  shows "blocks p h l1 = blocks p h l2" "blocks (p + 2 ^ h) h r1 = blocks (p + 2 ^ h) h r2"
proof -
  have l: "b \<in> blocks p h l \<Longrightarrow> b \<notin> blocks (p + 2 ^ h) h r" for b l r
    using blocks_range [of "fst b" "snd b" p h l] blocks_range [of "fst b" "snd b" "p + 2 ^ h" h r] by auto
  show "blocks p h l1 = blocks p h l2" "blocks (p + 2 ^ h) h r1 = blocks (p + 2 ^ h) h r2"
    using assms l by blast+
qed

lemma blocks_not_whole:
  "(p, 2 ^ Suc h) \<notin> blocks p h l \<union> blocks (p + 2 ^ h) h r"
  using blocks_range [of p "2 ^ Suc h" p h l] blocks_range [of p "2 ^ Suc h" "p + 2 ^ h" h r] by auto

lemma wfb_canonical: "wfb h b1 \<Longrightarrow> wfb h b2 \<Longrightarrow> blocks p h b1 = blocks p h b2 \<Longrightarrow> b1 = b2"
proof (induction h arbitrary: b1 b2 p)
  case 0
  then show ?case by (cases b1; cases b2) auto
next
  case (Suc h)
  show ?case
  proof (cases "b1 = Unused \<or> b2 = Unused")
    case True
    with Suc.prems wfb_nonempty [of "Suc h"] show ?thesis by (metis blocks.simps(1))
  next
    case nu: False
    show ?thesis
    proof (cases "b1 = Used \<or> b2 = Used")
      case True
      with nu Suc.prems(3) blocks_not_whole [of p h] show ?thesis
        by (cases b1; cases b2) auto
    next
      case False
      with nu obtain l1 r1 l2 r2 where b: "b1 \<in> {Split l1 r1, Full l1 r1}" "b2 \<in> {Split l2 r2, Full l2 r2}"
        by (cases b1; cases b2) auto
      with Suc.prems(3) have "blocks p h l1 \<union> blocks (p + 2 ^ h) h r1 = blocks p h l2 \<union> blocks (p + 2 ^ h) h r2"
        by auto
      from blocks_halves [OF this] have "l1 = l2" "r1 = r2"
        using Suc.IH [of l1 l2 p] Suc.IH [of r1 r2 "p + 2 ^ h"] Suc.prems(1,2) b by auto
      with Suc.prems(1,2) b show ?thesis by auto
    qed
  qed
qed

lemma free_alloc_bt:
  assumes "wfb h b" "k \<le> h" "alloc_bt h k b = Some (p, b')"
  shows "free_bt h p b' = Some b"
proof -
  have wf': "wfb h b'" by (rule alloc_bt_wf [OF assms(1,3)])
  note A = alloc_bt_blocks [OF assms, of 0]
  then have "(0 + p, 2 ^ k) \<in> blocks 0 h b'" by simp
  from free_bt_blocks [OF wf' this] obtain b'' where f: "free_bt h p b' = Some b''"
    "blocks 0 h b'' = blocks 0 h b' - {(p, 2 ^ k)}" by auto
  have "(p, 2 ^ k) \<notin> blocks 0 h b"
  proof
    assume "(p, 2 ^ k) \<in> blocks 0 h b"
    then have "extent (p, 2 ^ k) \<subseteq> units (blocks 0 h b)" unfolding units_def by blast
    moreover have "p \<in> extent (p, 2 ^ k)" by (simp add: extent_def)
    ultimately show False using A by auto
  qed
  then have "blocks 0 h b'' = blocks 0 h b" using f(2) A by auto
  then show ?thesis
    using f(1) wfb_canonical [OF free_bt_wf [OF wf' f(1)] assms(1)] by simp
qed

end
