(* ===== verification/Buddy_Correct.thy ===== *)
theory Buddy_Correct
  imports Buddy_Tree
begin

text \<open>
  The array code of theory \<open>Buddy\<close> implements the trees of theory \<open>Buddy_Tree\<close>: a node of the
  tree sits at a position counted from 1 (the array index plus one), its children at twice the
  position and one more.  A search is described by the subtree in focus and the frames around it.
\<close>

subsection \<open>Positions\<close>

text \<open>Position \<open>q\<close> lies in the subtree below position \<open>p\<close>.\<close>

definition sub :: "nat \<Rightarrow> nat \<Rightarrow> bool" where
  "sub p q \<longleftrightarrow> (\<exists>d. q div 2 ^ d = p)"

lemma sub_refl [simp]: "sub p p"
  unfolding sub_def by (rule exI [of _ 0]) simp

lemma sub_child: "sub q x \<Longrightarrow> q div 2 = p \<Longrightarrow> sub p x"
  unfolding sub_def by (metis div_mult2_eq power_Suc2)

lemma sub_ge: "sub p q \<Longrightarrow> p \<le> q"
  unfolding sub_def by auto

lemma not_sub_less: "q < p \<Longrightarrow> \<not> sub p q"
  using sub_ge leD by blast

lemma div_power_mono: "e \<le> d \<Longrightarrow> (q :: nat) div 2 ^ d = q div 2 ^ e div 2 ^ (d - e)"
  by (simp flip: div_mult2_eq power_add)

lemma sub_apart_less: "q div 2 ^ d = p \<Longrightarrow> q div 2 ^ e = Suc p \<Longrightarrow> 0 < p \<Longrightarrow> even p \<Longrightarrow> False"
proof -
  assume q: "q div 2 ^ d = p" "q div 2 ^ e = Suc p" and p: "0 < p" "even p"
  consider "e < d" | "e = d" | "d < e" by linarith
  then show False
  proof cases
    case 1
    then have "p = Suc p div 2 ^ (d - e)" using q div_power_mono [of e d q] by simp
    also have "\<dots> \<le> Suc p div 2 ^ 1" using 1 by (intro div_le_mono2 power_increasing) auto
    finally show False using p by (auto elim!: evenE)
  next
    case 3
    then have "Suc p = p div 2 ^ (e - d)" using q div_power_mono [of d e q] by simp
    then show False by (metis Suc_n_not_le_n div_le_dividend)
  qed (use q in simp)
qed

lemma sub_siblings: "even p \<Longrightarrow> 0 < p \<Longrightarrow> sub p q \<Longrightarrow> sub (Suc p) q \<Longrightarrow> False"
  unfolding sub_def using sub_apart_less by blast

subsection \<open>Trees in the array\<close>

definition node_at :: "node_state list \<Rightarrow> nat \<Rightarrow> node_state" where
  "node_at t n = t ! (n - 1)"

fun rep :: "node_state list \<Rightarrow> nat \<Rightarrow> btree \<Rightarrow> bool" where
  "rep t n Unused = (node_at t n = NODE_UNUSED)"
| "rep t n Used = (node_at t n = NODE_USED)"
| "rep t n (Split l r) = (node_at t n = NODE_SPLIT \<and> rep t (2 * n) l \<and> rep t (Suc (2 * n)) r)"
| "rep t n (Full l r) = (node_at t n = NODE_FULL \<and> rep t (2 * n) l \<and> rep t (Suc (2 * n)) r)"

text \<open>A frame: the focus is a left or a right child, below a split or a full node, beside a sibling.\<close>

datatype frame = OnLeft (below_full: bool) (sibling: btree) | OnRight (below_full: bool) (sibling: btree)

definition node_of :: "bool \<Rightarrow> node_state" where
  "node_of f = (if f then NODE_FULL else NODE_SPLIT)"

fun repc :: "node_state list \<Rightarrow> nat \<Rightarrow> frame list \<Rightarrow> bool" where
  "repc t n [] = (n = 1)"
| "repc t n (OnLeft f r # fs) = (1 < n \<and> even n \<and> node_at t (n div 2) = node_of f \<and> rep t (Suc n) r \<and> repc t (n div 2) fs)"
| "repc t n (OnRight f l # fs) = (1 < n \<and> odd n \<and> node_at t (n div 2) = node_of f \<and> rep t (n - 1) l \<and> repc t (n div 2) fs)"

fun plug_full :: "btree \<Rightarrow> frame list \<Rightarrow> btree" where
  "plug_full b [] = b"
| "plug_full b (OnLeft f r # fs) = plug_full (join_full b r) fs"
| "plug_full b (OnRight f l # fs) = plug_full (join_full l b) fs"

fun plug_free :: "btree \<Rightarrow> frame list \<Rightarrow> btree" where
  "plug_free b [] = b"
| "plug_free b (OnLeft f r # fs) = plug_free (join_free b r) fs"
| "plug_free b (OnRight f l # fs) = plug_free (join_free l b) fs"

lemma rep_cong: "(\<And>q. sub n q \<Longrightarrow> node_at t' q = node_at t q) \<Longrightarrow> rep t n b \<Longrightarrow> rep t' n b"
proof (induction t n b rule: rep.induct)
  case (3 t n l r)
  have "sub n q" if "sub (2 * n) q \<or> sub (Suc (2 * n)) q" for q
    using that sub_child [of "2 * n" q n] sub_child [of "Suc (2 * n)" q n] by auto
  with 3 show ?case by simp
next
  case (4 t n l r)
  have "sub n q" if "sub (2 * n) q \<or> sub (Suc (2 * n)) q" for q
    using that sub_child [of "2 * n" q n] sub_child [of "Suc (2 * n)" q n] by auto
  with 4 show ?case by simp
qed auto

lemma repc_cong: "(\<And>q. \<not> sub n q \<Longrightarrow> 0 < q \<Longrightarrow> node_at t' q = node_at t q) \<Longrightarrow> repc t n fs \<Longrightarrow> repc t' n fs"
proof (induction fs arbitrary: n)
  case (Cons f fs)
  have up: "\<not> sub n q" if "\<not> sub (n div 2) q" for q
    using that sub_child by blast
  have par: "1 < n \<Longrightarrow> \<not> sub n (n div 2)" by (rule not_sub_less) simp
  have sib: "1 < n \<Longrightarrow> even n \<Longrightarrow> sub (Suc n) q \<Longrightarrow> \<not> sub n q \<and> 0 < q"
    "1 < n \<Longrightarrow> odd n \<Longrightarrow> sub (n - 1) q \<Longrightarrow> \<not> sub n q \<and> 0 < q" for q
    using sub_siblings [of n q] sub_siblings [of "n - 1" q] sub_ge [of "Suc n" q] sub_ge [of "n - 1" q] by auto
  have "1 < n \<Longrightarrow> repc t (n div 2) fs \<Longrightarrow> repc t' (n div 2) fs"
    using Cons.IH Cons.prems(1) up by blast
  with Cons.prems par sib show ?case
    by (cases f) (auto intro!: rep_cong [where t = t and t' = t'])
qed auto

lemma full_node: "rep t n b \<Longrightarrow> full b \<longleftrightarrow> node_at t n = NODE_USED \<or> node_at t n = NODE_FULL"
  by (cases b) auto

lemma unused_node: "rep t n b \<Longrightarrow> b = Unused \<longleftrightarrow> node_at t n = NODE_UNUSED"
  by (cases b) auto

subsection \<open>The array accesses\<close>

lemma tget_at [simp]: "0 < n \<Longrightarrow> n \<le> length t \<Longrightarrow> tget t (int n - 1) = Some (node_at t n)"
  by (simp add: tget_def node_at_def nat_diff_distrib)

lemma tput_at [simp]: "0 < n \<Longrightarrow> n \<le> length t \<Longrightarrow> tput t (int n - 1) x = Some (t[n - 1 := x])"
  by (simp add: tput_def nat_diff_distrib)

lemma node_at_update: "0 < n \<Longrightarrow> n \<le> length t \<Longrightarrow> 0 < q \<Longrightarrow>
  node_at (t[n - 1 := x]) q = (if q = n then x else node_at t q)"
  by (auto simp: node_at_def nth_list_update)

lemma parent_index_pos: "0 < n \<Longrightarrow> parent_index (int n - 1) = int (n div 2) - 1"
  by (simp add: parent_index_def zdiv_int)

lemma buddy_index_even: "even n \<Longrightarrow> 0 < n \<Longrightarrow> buddy_index (int n - 1) = int (Suc n) - 1"
  by (auto simp: buddy_index_def elim!: evenE) presburger

lemma buddy_index_odd: "odd n \<Longrightarrow> buddy_index (int n - 1) = int (n - 1) - 1"
  by (auto simp: buddy_index_def elim!: oddE)

subsection \<open>Allocation\<close>

lemma even_Suc_le: "even n \<Longrightarrow> n \<le> length t \<Longrightarrow> odd (length t) \<Longrightarrow> Suc n \<le> length t"
  by (metis le_antisym not_less_eq_eq)

lemma rep_update_above:
  "rep t q b \<Longrightarrow> n < q \<Longrightarrow> 0 < n \<Longrightarrow> n \<le> length t \<Longrightarrow> rep (t[n - 1 := x]) q b"
  by (rule rep_cong) (auto simp: node_at_update simp del: One_nat_def dest: sub_ge)

lemma repc_update: "repc t n fs \<Longrightarrow> 0 < n \<Longrightarrow> n \<le> length t \<Longrightarrow> repc (t[n - 1 := x]) n fs"
  by (rule repc_cong) (auto simp: node_at_update simp del: One_nat_def)

lemma repc_up: "repc t n (f # fs) \<Longrightarrow> 1 < n \<and> repc t (n div 2) fs"
  by (cases f) auto

lemma odd_halves: "odd n \<Longrightarrow> 2 * (n div 2) = n - 1 \<and> Suc (2 * (n div 2)) = n" for n :: nat
  by (auto elim!: oddE)

lemma rep_parent:
  "repc t n (OnLeft g r # fs) \<Longrightarrow> rep t n b \<Longrightarrow> rep t (n div 2) (if g then Full b r else Split b r)"
  "repc t n (OnRight g l # fs) \<Longrightarrow> rep t n b \<Longrightarrow> rep t (n div 2) (if g then Full l b else Split l b)"
  using odd_halves [of n] by (auto simp: node_of_def)

lemma plug_full_stop:
  "rep t n c \<Longrightarrow> \<not> full c \<Longrightarrow> repc t n fs \<Longrightarrow> \<forall>f \<in> set fs. \<not> below_full f \<Longrightarrow> rep t 1 (plug_full c fs)"
proof (induction fs arbitrary: n c)
  case (Cons f fs)
  then have "rep t 1 (plug_full (Split c (sibling f)) fs)" if "f = OnLeft False (sibling f)"
    using that rep_parent(1) [of t n False "sibling f" fs c] repc_up [of t n f fs] Cons.IH by auto
  moreover have "rep t 1 (plug_full (Split (sibling f) c) fs)" if "f = OnRight False (sibling f)"
    using that Cons.prems rep_parent(2) [of t n False "sibling f" fs c] repc_up [of t n f fs] Cons.IH by auto
  ultimately show ?case using Cons.prems(2,4)
    by (cases f) (auto simp: join_full_def)
qed simp

lemma mark_parent_rep:
  assumes "rep t n b" "repc t n fs" "full b" "0 < n" "n \<le> length t" "odd (length t)"
    and "\<forall>f \<in> set fs. \<not> below_full f"
  shows "\<exists>t'. mark_parent t (int n - 1) = Some t' \<and> length t' = length t \<and> rep t' 1 (plug_full b fs)"
  using assms
proof (induction fs arbitrary: t n b)
  case Nil
  then show ?case by (subst mark_parent.simps) (simp add: buddy_index_def)
next
  case (Cons f fs)
  let ?p = "n div 2"
  from Cons.prems(2) have n: "1 < n" and up: "repc t ?p fs" using repc_up by blast+
  then have p: "0 < ?p" "?p \<le> length t" "?p < n" using Cons.prems(5) by auto
  note keep = rep_update_above [OF _ _ p(1,2), of _ _ NODE_FULL]
  have at: "node_at (t[?p - 1 := NODE_FULL]) ?p = NODE_FULL"
    using node_at_update [OF p(1,2) p(1)] by simp
  show ?case
  proof (cases f)
    case (OnLeft g r)
    with Cons.prems have e: "even n" "rep t (Suc n) r" "node_at t ?p = NODE_SPLIT"
      by (auto simp: node_of_def)
    have sib: "Suc n \<le> length t" using e(1) Cons.prems(5,6) by (rule even_Suc_le)
    show ?thesis
    proof (cases "full r")
      case True
      have "rep (t[?p - 1 := NODE_FULL]) ?p (Full b r)"
        using keep [OF Cons.prems(1)] keep [OF e(2)] p(3) at e(1) by simp
      from Cons.IH [OF this repc_update [OF up p(1,2)]] Cons.prems(6,7) p
      show ?thesis using True Cons.prems(3) OnLeft full_node [OF e(2)] n sib tget_at [of "Suc n" t]
        by (subst mark_parent.simps) (simp add: buddy_index_even e parent_index_pos join_full_def)
    next
      case False
      then have "rep t 1 (plug_full (join_full b r) fs)"
        using e Cons.prems(1,7) up by (intro plug_full_stop [of t ?p]) (auto simp: join_full_def)
      then show ?thesis using False OnLeft full_node [OF e(2)] n sib tget_at [of "Suc n" t]
        by (subst mark_parent.simps) (simp add: buddy_index_even e)
    qed
  next
    case (OnRight g l)
    with Cons.prems have e: "odd n" "rep t (n - 1) l" "node_at t ?p = NODE_SPLIT"
      by (auto simp: node_of_def)
    have n3: "2 < n" "2 * ?p = n - 1" "Suc (2 * ?p) = n" using n e(1) by (auto elim!: oddE)
    show ?thesis
    proof (cases "full l")
      case True
      have "rep (t[?p - 1 := NODE_FULL]) ?p (Full l b)"
        using keep [OF Cons.prems(1)] keep [OF e(2)] p(3) at n3 by simp
      from Cons.IH [OF this repc_update [OF up p(1,2)]] Cons.prems(6,7) p
      show ?thesis using True Cons.prems(3,5) OnRight full_node [OF e(2)] n3 tget_at [of "n - 1" t]
        by (subst mark_parent.simps) (simp add: buddy_index_odd e parent_index_pos join_full_def)
    next
      case False
      then have "rep t 1 (plug_full (join_full l b) fs)"
        using e n3 Cons.prems(1,7) up by (intro plug_full_stop [of t ?p]) (auto simp: join_full_def)
      then show ?thesis using False OnRight full_node [OF e(2)] n3 Cons.prems(5) tget_at [of "n - 1" t]
        by (subst mark_parent.simps) (simp add: buddy_index_odd e)
    qed
  qed
qed

text \<open>Where the search continues after a node that cannot serve the request.\<close>

definition next_node ::
  "nat \<Rightarrow> int \<Rightarrow> node_state list \<Rightarrow> int \<Rightarrow> int \<Rightarrow> int \<Rightarrow> (int \<times> node_state list) option" where
  "next_node L sz t index lev len =
     (if index mod 2 = 1 then buddy_alloc_loop L sz t (index + 1) lev len
      else case climb index lev len of None \<Rightarrow> Some (- 1, t)
           | Some (index', lev', len') \<Rightarrow> buddy_alloc_loop L sz t index' lev' len')"

lemma loop_skip:
  assumes "0 < n" "n \<le> length t"
    and "if sz = len then node_at t n \<noteq> NODE_UNUSED else node_at t n \<in> {NODE_USED, NODE_FULL}"
  shows "buddy_alloc_loop L sz t (int n - 1) lev len = next_node L sz t (int n - 1) lev len"
  using assms by (subst buddy_alloc_loop.simps) (auto simp: next_node_def split: if_splits)

lemma loop_take:
  assumes "0 < n" "n \<le> length t" "node_at t n = NODE_UNUSED"
    and "mark_parent (t[n - 1 := NODE_USED]) (int n - 1) = Some t'"
  shows "buddy_alloc_loop L sz t (int n - 1) lev sz = Some (index_offset (int n - 1) lev (int L), t')"
  using assms by (subst buddy_alloc_loop.simps) (simp del: One_nat_def)

lemma tput_children:
  "0 < n \<Longrightarrow> 2 * n \<le> length t \<Longrightarrow> tput t ((int n - 1) * 2 + 1) x = Some (t[2 * n - 1 := x])"
  "0 < n \<Longrightarrow> Suc (2 * n) \<le> length t \<Longrightarrow> tput t ((int n - 1) * 2 + 2) x = Some (t[Suc (2 * n) - 1 := x])"
  using tput_at [of "2 * n" t x] tput_at [of "Suc (2 * n)" t x] by (simp_all add: algebra_simps)

lemma loop_down:
  assumes "0 < n" "n \<le> length t" "node_at t n = NODE_SPLIT" "sz \<noteq> len"
  shows "buddy_alloc_loop L sz t (int n - 1) lev len =
    buddy_alloc_loop L sz t (int (2 * n) - 1) (lev + 1) (len div 2)"
  using assms by (subst buddy_alloc_loop.simps) (simp add: mult.commute)

lemma loop_split:
  assumes "0 < n" "Suc (2 * n) \<le> length t" "node_at t n = NODE_UNUSED" "sz \<noteq> len"
  shows "buddy_alloc_loop L sz t (int n - 1) lev len =
    buddy_alloc_loop L sz (t[n - 1 := NODE_SPLIT, 2 * n - 1 := NODE_UNUSED, Suc (2 * n) - 1 := NODE_UNUSED])
      (int (2 * n) - 1) (lev + 1) (len div 2)"
proof -
  have i: "(int n - 1) * 2 + 1 = int (2 * n) - 1" by simp
  have l: "0 < n" "n \<le> length t" "2 * n \<le> length t" using assms(1,2) by simp_all
  have puts: "tget t (int n - 1) = Some NODE_UNUSED"
    "tput t (int n - 1) NODE_SPLIT = Some (t[n - 1 := NODE_SPLIT])"
    "tput (t[n - 1 := NODE_SPLIT]) ((int n - 1) * 2 + 1) NODE_UNUSED =
      Some (t[n - 1 := NODE_SPLIT, 2 * n - 1 := NODE_UNUSED])"
    "tput (t[n - 1 := NODE_SPLIT, 2 * n - 1 := NODE_UNUSED]) ((int n - 1) * 2 + 2) NODE_UNUSED =
      Some (t[n - 1 := NODE_SPLIT, 2 * n - 1 := NODE_UNUSED, Suc (2 * n) - 1 := NODE_UNUSED])"
    using l assms(2,3) tput_children by simp_all
  have "\<not> int n - 1 < 0" using l(1) by simp
  then show ?thesis
    by (subst buddy_alloc_loop.simps)
      (simp only: i puts [unfolded i] option.case assms(4) if_True if_False simp_thms i)
qed

lemma next_left: "0 < n \<Longrightarrow> next_node L sz t (int (2 * n) - 1) lev len = buddy_alloc_loop L sz t (int (Suc (2 * n)) - 1) lev len"
proof -
  have "(2 * int n - 1) mod 2 = 1" by presburger
  then show ?thesis by (simp add: next_node_def)
qed

lemma next_right:
  assumes "0 < n"
  shows "next_node L sz t (int (Suc (2 * n)) - 1) (lev + 1) (2 ^ h) = next_node L sz t (int n - 1) lev (2 ^ Suc h)"
proof -
  have "parent_index (int n * 2) = int n - 1"
    using parent_index_pos [of "Suc (2 * n)"] by (simp add: mult.commute)
  with assms have "climb (int n * 2) (1 + lev) (2 ^ h) =
      (if (int n - 1) mod 2 = 1 then Some (int n, lev, 2 ^ Suc h) else climb (int n - 1) lev (2 ^ Suc h))"
    by (subst climb.simps) (simp add: mult.commute)
  then show ?thesis by (simp add: next_node_def mult.commute add.commute)
qed

lemma next_root: "next_node L sz t 0 lev len = Some (- 1, t)"
  by (simp add: next_node_def climb.simps parent_index_def)

lemma index_offset_nat:
  "l + h = L \<Longrightarrow> 2 ^ l \<le> n \<Longrightarrow> index_offset (int n - 1) (int l) (int L) = int ((n - 2 ^ l) * 2 ^ h)"
  by (auto simp: index_offset_def of_nat_diff)

text \<open>The search: it serves the request as the tree does, or moves on with the array unchanged.\<close>

lemma take_node:
  assumes "rep t n Unused" "repc t n fs" "l + h = L" "2 ^ l \<le> n" "n \<le> length t" "odd (length t)"
    and "\<forall>f \<in> set fs. \<not> below_full f"
  shows "\<exists>t'. buddy_alloc_loop L (2 ^ h) t (int n - 1) (int l) (2 ^ h) = Some (int ((n - 2 ^ l) * 2 ^ h), t') \<and>
    length t' = length t \<and> rep t' 1 (plug_full Used fs)"
proof -
  have n: "0 < n" using assms(4) by (metis gr0I le_zero_eq power_not_zero zero_neq_numeral)
  let ?t = "t[n - 1 := NODE_USED]"
  have "rep ?t n Used" using n assms(5) by (simp add: node_at_update del: One_nat_def)
  from mark_parent_rep [OF this repc_update [OF assms(2) n assms(5)]] assms(5-7) n
  obtain t' where "mark_parent ?t (int n - 1) = Some t'" "length t' = length t" "rep t' 1 (plug_full Used fs)"
    by auto
  with loop_take [OF n assms(5) _ this(1)] assms(1) show ?thesis
    by (simp add: index_offset_nat [OF assms(3,4)])
qed

lemma split_rep:
  assumes "rep t n Unused" "repc t n fs" "0 < n" "Suc (2 * n) \<le> length t"
  defines "t' \<equiv> t[n - 1 := NODE_SPLIT, 2 * n - 1 := NODE_UNUSED, Suc (2 * n) - 1 := NODE_UNUSED]"
  shows "rep t' (2 * n) Unused" "repc t' (2 * n) (OnLeft False Unused # fs)" "length t' = length t"
proof -
  have at: "node_at t' q = (if q = Suc (2 * n) \<or> q = 2 * n then NODE_UNUSED else if q = n then NODE_SPLIT else node_at t q)"
    if "0 < q" for q
  proof -
    define t1 where "t1 = t[n - 1 := NODE_SPLIT]"
    define t2 where "t2 = t1[2 * n - 1 := NODE_UNUSED]"
    have t': "t' = t2[Suc (2 * n) - 1 := NODE_UNUSED]" by (simp add: t'_def t1_def t2_def)
    have "node_at t1 q = (if q = n then NODE_SPLIT else node_at t q)"
      unfolding t1_def by (rule node_at_update) (use assms(3,4) that in auto)
    moreover have "node_at t2 q = (if q = 2 * n then NODE_UNUSED else node_at t1 q)"
      unfolding t2_def by (rule node_at_update) (use assms(3,4) that in \<open>auto simp: t1_def\<close>)
    moreover have "node_at t' q = (if q = Suc (2 * n) then NODE_UNUSED else node_at t2 q)"
      unfolding t' by (rule node_at_update) (use assms(3,4) that in \<open>auto simp: t1_def t2_def\<close>)
    ultimately show ?thesis using assms(3) by (auto split: if_splits)
  qed
  have s: "sub n n" "sub n (2 * n)" "sub n (Suc (2 * n))"
    using sub_child [of "2 * n" "2 * n" n] sub_child [of "Suc (2 * n)" "Suc (2 * n)" n] by simp_all
  have "repc t' n fs" by (rule repc_cong [OF _ assms(2)]) (use at s in auto)
  then show "rep t' (2 * n) Unused" "repc t' (2 * n) (OnLeft False Unused # fs)" "length t' = length t"
    using assms(3) by (simp_all add: at node_of_def) (simp add: t'_def)
qed

lemma pos_bound: "l + h = L \<Longrightarrow> n < 2 ^ Suc l \<Longrightarrow> n \<le> 2 ^ Suc L - (1 :: nat)"
proof -
  assume a: "l + h = L" "n < 2 ^ Suc l"
  have "(2 :: nat) ^ Suc l \<le> 2 ^ Suc L" using a(1) by (intro power_increasing) auto
  with a(2) show ?thesis by linarith
qed

lemma pos_children: "l + Suc h = L \<Longrightarrow> n < 2 ^ Suc l \<Longrightarrow> Suc (2 * n) \<le> 2 ^ Suc L - (1 :: nat)"
  using pos_bound [of "Suc l" h L "Suc (2 * n)"] by simp

lemma offset_left: "(2 * n - 2 ^ Suc l) * 2 ^ h + p = (n - 2 ^ l) * 2 ^ Suc h + (p :: nat)"
  by (simp add: diff_mult_distrib)

lemma offset_right: "2 ^ l \<le> n \<Longrightarrow> (Suc (2 * n) - 2 ^ Suc l) * 2 ^ h + p = (n - 2 ^ l) * 2 ^ Suc h + (2 ^ h + (p :: nat))"
proof -
  assume "2 ^ l \<le> n"
  then have "Suc (2 * n) - 2 ^ Suc l = Suc (2 * n - 2 ^ Suc l)" by (simp add: Suc_diff_le)
  then show ?thesis using offset_left [of n l h p] by simp
qed

lemma pow_half: "(2 ^ Suc h :: int) div 2 = 2 ^ h" "k \<le> h \<Longrightarrow> (2 :: int) ^ k \<noteq> 2 ^ Suc h"
  using power_strict_increasing [of k "Suc h" "2 :: int"] by auto

lemma search_rep:
  assumes "rep t n b" "repc t n fs" "k \<le> h" "l + h = L" "2 ^ l \<le> n" "n < 2 ^ Suc l"
    and "length t = 2 ^ Suc L - 1" "\<forall>f \<in> set fs. \<not> below_full f" "wfb h b"
  shows "case alloc_bt h k b of
      None \<Rightarrow> buddy_alloc_loop L (2 ^ k) t (int n - 1) (int l) (2 ^ h) = next_node L (2 ^ k) t (int n - 1) (int l) (2 ^ h)
    | Some (p, b') \<Rightarrow> \<exists>t'. buddy_alloc_loop L (2 ^ k) t (int n - 1) (int l) (2 ^ h) = Some (int ((n - 2 ^ l) * 2 ^ h + p), t') \<and>
        length t' = length t \<and> rep t' 1 (plug_full b' fs)"
  using assms
proof (induction h arbitrary: t n b fs l)
  case 0
  have n: "0 < n" using "0.prems"(5) by (metis gr0I le_zero_eq power_not_zero zero_neq_numeral)
  have nl: "n \<le> length t" using pos_bound [OF "0.prems"(4,6)] "0.prems"(7) by simp
  show ?case
  proof (cases "b = Unused")
    case True
    with take_node [of t n fs l 0 L] 0 nl show ?thesis by simp
  next
    case False
    with unused_node [OF "0.prems"(1)] "0.prems"(3) show ?thesis by (simp add: loop_skip [OF n nl])
  qed
next
  case (Suc h)
  have n: "0 < n" using Suc.prems(5) by (metis gr0I le_zero_eq power_not_zero zero_neq_numeral)
  have nl: "Suc (2 * n) \<le> length t" "n \<le> length t"
    using pos_children [OF Suc.prems(4,6)] Suc.prems(7) by simp_all
  have odd: "odd (length t)" using Suc.prems(7) by simp
  have lev: "int l + 1 = int (Suc l)" "Suc l + h = L" using Suc.prems(4) by simp_all
  have lo: "2 ^ Suc l \<le> 2 * n" "2 * n < 2 ^ Suc (Suc l)" "2 ^ Suc l \<le> Suc (2 * n)" "Suc (2 * n) < 2 ^ Suc (Suc l)"
    using Suc.prems(5,6) by simp_all
  show ?case
  proof (cases "k = Suc h")
    case True
    with take_node [OF _ Suc.prems(2,4,5) nl(2) odd Suc.prems(8)] Suc.prems(1) unused_node [OF Suc.prems(1)]
    show ?thesis by (cases "b = Unused") (simp_all add: loop_skip [OF n nl(2)])
  next
    case False
    then have k: "k \<le> h" using Suc.prems(3) by simp
    note ne = pow_half(2) [OF k]
    show ?thesis
    proof (cases b)
      case Unused
      note sp = split_rep [OF Suc.prems(1) [unfolded Unused] Suc.prems(2) n nl(1)]
      from Suc.IH [OF sp(1,2) k lev(2) lo(1,2)] sp(3) Suc.prems(7,8) alloc_bt_unused [OF k]
        loop_split [OF n nl(1) _ ne] Suc.prems(1) Unused False
      show ?thesis
        by (auto simp: pow_half lev offset_left simp del: power_Suc of_nat_Suc of_nat_mult)
    next
      case (Split l' r')
      with Suc.prems have rl: "rep t (2 * n) l'" "rep t (Suc (2 * n)) r'" "node_at t n = NODE_SPLIT"
        "wfb h l'" "wfb h r'" by simp_all
      from rl Suc.prems(2) n have
        cl: "repc t (2 * n) (OnLeft False r' # fs)" "repc t (Suc (2 * n)) (OnRight False l' # fs)"
        by (simp_all add: node_of_def)
      note L = Suc.IH [OF rl(1) cl(1) k lev(2) lo(1,2) Suc.prems(7) _ rl(4)]
      note R = Suc.IH [OF rl(2) cl(2) k lev(2) lo(3,4) Suc.prems(7) _ rl(5)]
      note down = loop_down [OF n nl(2) rl(3) ne]
      show ?thesis
      proof (cases "alloc_bt h k l'")
        case None
        then show ?thesis
          using L R Suc.prems(5,8) False Split
          by (auto simp: down pow_half lev next_left [OF n] next_right [OF n] offset_right
              simp flip: lev(1) split: option.splits simp del: power_Suc of_nat_Suc of_nat_mult)
      next
        case (Some x)
        then show ?thesis
          using L Suc.prems(8) False Split
          by (auto simp: down pow_half lev offset_left
              split: option.splits simp del: power_Suc of_nat_Suc of_nat_mult)
      qed
    qed (use Suc.prems(1) False k loop_skip [OF n nl(2)] ne in \<open>auto simp del: power_Suc\<close>)
  qed
qed

subsection \<open>Release\<close>

text \<open>Only the innermost frames can be full: above a split node there are split nodes.\<close>

fun frames_ok :: "frame list \<Rightarrow> bool" where
  "frames_ok [] = True"
| "frames_ok (f # fs) = ((\<not> below_full f \<longrightarrow> (\<forall>g \<in> set fs. \<not> below_full g)) \<and> frames_ok fs)"

lemma plug_free_stop:
  "rep t n c \<Longrightarrow> repc t n fs \<Longrightarrow> \<forall>f \<in> set fs. \<not> below_full f \<Longrightarrow>
   c \<noteq> Unused \<or> fs = [] \<or> sibling (hd fs) \<noteq> Unused \<Longrightarrow> rep t 1 (plug_free c fs)"
proof (induction fs arbitrary: n c)
  case (Cons f fs)
  then have "rep t 1 (plug_free (Split c (sibling f)) fs)" if "f = OnLeft False (sibling f)"
    using that rep_parent(1) [of t n False "sibling f" fs c] repc_up [of t n f fs] Cons.IH by auto
  moreover have "rep t 1 (plug_free (Split (sibling f) c) fs)" if "f = OnRight False (sibling f)"
    using that Cons.prems rep_parent(2) [of t n False "sibling f" fs c] repc_up [of t n f fs] Cons.IH by auto
  ultimately show ?case using Cons.prems(3,4)
    by (cases f) (auto simp: join_free_def)
qed simp

lemma reopen_rep:
  assumes "rep t n c" "repc t n fs" "frames_ok fs" "0 < n" "n \<le> length t"
    and "c \<noteq> Unused \<or> fs = [] \<or> sibling (hd fs) \<noteq> Unused"
  shows "\<exists>t'. reopen t (int n - 1) = Some t' \<and> length t' = length t \<and> rep t' 1 (plug_free c fs)"
  using assms
proof (induction fs arbitrary: t n c)
  case Nil
  then show ?case by (subst reopen.simps) (simp add: parent_index_def)
next
  case (Cons f fs)
  let ?p = "n div 2"
  from Cons.prems(2) have n: "1 < n" and up: "repc t ?p fs" using repc_up by blast+
  then have p: "0 < ?p" "?p \<le> length t" "?p < n" using Cons.prems(5) by auto
  have ge: "0 \<le> int ?p - 1" using p(1) by simp
  note keep = rep_update_above [OF _ _ p(1,2), of _ _ NODE_SPLIT]
  note at = node_at_update [OF p(1,2) p(1), of NODE_SPLIT, simplified]
  show ?case
  proof (cases "below_full f")
    case False
    then have "node_at t ?p = NODE_SPLIT" using Cons.prems(2) by (cases f) (auto simp: node_of_def)
    moreover have "rep t 1 (plug_free c (f # fs))"
      by (rule plug_free_stop [OF Cons.prems(1,2) _ Cons.prems(6)]) (use Cons.prems(3) False in simp)
    ultimately show ?thesis using p n ge
      by (subst reopen.simps) (simp add: parent_index_pos)
  next
    case True
    then have f: "node_at t ?p = NODE_FULL" using Cons.prems(2) by (cases f) (auto simp: node_of_def)
    let ?t = "t[?p - 1 := NODE_SPLIT]"
    define c' where "c' = (case f of OnLeft g r \<Rightarrow> join_free c r | OnRight g l \<Rightarrow> join_free l c)"
    have c': "c' \<noteq> Unused" "plug_free c (f # fs) = plug_free c' fs"
      using Cons.prems(6) by (auto simp: c'_def join_free_def split: frame.splits)
    have less: "odd n \<Longrightarrow> ?p < n - Suc 0" using n by (auto elim!: oddE)
    have "rep ?t ?p c'"
      using less keep [OF Cons.prems(1)] Cons.prems(2,6) p(3) n odd_halves [of n] keep [of "Suc n" "sibling f"]
        keep [of "n - 1" "sibling f"]
      by (cases f) (auto simp: c'_def join_free_def at)
    from Cons.IH [OF this repc_update [OF up p(1,2)]] Cons.prems(3) p c' f n ge
    show ?thesis by (subst reopen.simps) (simp add: parent_index_pos)
  qed
qed

lemma combine_rep:
  assumes "repc t n fs" "frames_ok fs" "0 < n" "n \<le> length t" "odd (length t)"
  shows "\<exists>t'. combine t (int n - 1) = Some t' \<and> length t' = length t \<and> rep t' 1 (plug_free Unused fs)"
  using assms
proof (induction fs arbitrary: n)
  case Nil
  then show ?case
    by (subst combine.simps, subst reopen.simps)
      (use Nil in \<open>auto simp: buddy_index_def parent_index_def tput_def node_at_def\<close>)
next
  case (Cons f fs)
  let ?p = "n div 2"
  from Cons.prems(1) have n: "1 < n" and up: "repc t ?p fs" using repc_up by blast+
  have p: "0 < ?p" "?p \<le> length t" using Cons.prems(4) n by auto
  define m where "m = (if even n then Suc n else n - 1)"
  have m: "0 < m" "m \<le> length t" "buddy_index (int n - 1) = int m - 1" "rep t m (sibling f)"
    using Cons.prems n even_Suc_le [of n t] buddy_index_even [of n] buddy_index_odd [of n]
    by (cases f; auto simp: m_def)+
  have ge: "\<not> int m - 1 < 0" using m(1) by simp
  show ?case
  proof (cases "sibling f = Unused")
    case True
    then have "plug_free Unused (f # fs) = plug_free Unused fs"
      by (cases f) (simp_all add: join_free_def)
    with Cons.IH [OF up] Cons.prems p True unused_node [OF m(4)] m ge n
    show ?thesis by (subst combine.simps) (simp add: parent_index_pos)
  next
    case False
    let ?t = "t[n - 1 := NODE_UNUSED]"
    have "rep ?t n Unused" using Cons.prems by (simp add: node_at_update del: One_nat_def)
    from reopen_rep [OF this repc_update [OF Cons.prems(1,3,4)] Cons.prems(2,3)] Cons.prems False
      unused_node [OF m(4)] m ge
    show ?thesis by (subst combine.simps) auto
  qed
qed

lemma loop_used:
  assumes "0 < n" "n \<le> length t" "node_at t n = NODE_USED"
  shows "buddy_free_loop t left left len (int n - 1) = combine t (int n - 1)"
    "buddy_size_loop t left left len (int n - 1) = Some len"
  using assms by (subst buddy_free_loop.simps, simp) (use assms in \<open>subst buddy_size_loop.simps, simp\<close>)

lemma loop_inner:
  assumes "0 < n" "n \<le> length t" "node_at t n \<in> {NODE_SPLIT, NODE_FULL}"
  shows "buddy_free_loop t (left + int p) left (2 ^ Suc h) (int n - 1) =
      (if p < 2 ^ h then buddy_free_loop t (left + int p) left (2 ^ h) (int (2 * n) - 1)
       else buddy_free_loop t (left + 2 ^ h + int (p - 2 ^ h)) (left + 2 ^ h) (2 ^ h) (int (Suc (2 * n)) - 1))"
    "buddy_size_loop t (left + int p) left (2 ^ Suc h) (int n - 1) =
      (if p < 2 ^ h then buddy_size_loop t (left + int p) left (2 ^ h) (int (2 * n) - 1)
       else buddy_size_loop t (left + 2 ^ h + int (p - 2 ^ h)) (left + 2 ^ h) (2 ^ h) (int (Suc (2 * n)) - 1))"
proof -
  have less: "int p < 2 ^ h \<longleftrightarrow> p < 2 ^ h" using of_nat_less_iff [of p "2 ^ h", where 'a = int] by simp
  show "buddy_free_loop t (left + int p) left (2 ^ Suc h) (int n - 1) =
      (if p < 2 ^ h then buddy_free_loop t (left + int p) left (2 ^ h) (int (2 * n) - 1)
       else buddy_free_loop t (left + 2 ^ h + int (p - 2 ^ h)) (left + 2 ^ h) (2 ^ h) (int (Suc (2 * n)) - 1))"
    using assms by (subst buddy_free_loop.simps) (auto simp: less of_nat_diff mult.commute Let_def)
  show "buddy_size_loop t (left + int p) left (2 ^ Suc h) (int n - 1) =
      (if p < 2 ^ h then buddy_size_loop t (left + int p) left (2 ^ h) (int (2 * n) - 1)
       else buddy_size_loop t (left + 2 ^ h + int (p - 2 ^ h)) (left + 2 ^ h) (2 ^ h) (int (Suc (2 * n)) - 1))"
    using assms by (subst buddy_size_loop.simps) (auto simp: less of_nat_diff mult.commute Let_def)
qed

text \<open>A split or full node, with the frames its children are seen in.\<close>

lemma inner_cases:
  assumes "b \<noteq> Unused" "b \<noteq> Used" "rep t n b" "repc t n fs" "0 < n" "frames_ok fs"
    and "fs = [] \<or> (below_full (hd fs) \<longrightarrow> full b)" "wfb (Suc h) b"
  obtains g l r where "b = (if g then Full l r else Split l r)" "rep t (2 * n) l" "rep t (Suc (2 * n)) r"
    "wfb h l" "wfb h r" "g \<longrightarrow> full l \<and> full r" "node_at t n \<in> {NODE_SPLIT, NODE_FULL}"
    "repc t (2 * n) (OnLeft g r # fs)" "repc t (Suc (2 * n)) (OnRight g l # fs)"
    "frames_ok (OnLeft g r # fs)" "frames_ok (OnRight g l # fs)"
proof -
  obtain g l r where b: "b = (if g then Full l r else Split l r)"
    using assms(1,2) by (cases b) (metis (full_types))+
  have fr: "\<not> g \<Longrightarrow> \<forall>f \<in> set fs. \<not> below_full f"
    using assms(6,7) b by (cases fs) auto
  show ?thesis
    by (rule that [OF b]) (use assms fr b in \<open>auto simp: node_of_def split: if_splits\<close>)
qed

lemma free_rep:
  assumes "rep t n b" "repc t n fs" "frames_ok fs" "fs = [] \<or> (below_full (hd fs) \<longrightarrow> full b)"
    and "wfb h b" "l + h = L" "0 < n" "n < 2 ^ Suc l" "length t = 2 ^ Suc L - 1" "free_bt h p b = Some b'"
  shows "\<exists>t'. buddy_free_loop t (left + int p) left (2 ^ h) (int n - 1) = Some t' \<and>
    length t' = length t \<and> rep t' 1 (plug_free b' fs)"
  using assms
proof (induction h arbitrary: n b fs l p b' left)
  case 0
  have nl: "n \<le> length t" using pos_bound [OF "0.prems"(6,8)] "0.prems"(9) by simp
  have "odd (length t)" using "0.prems"(9) by simp
  with 0 combine_rep [OF "0.prems"(2,3,7) nl] loop_used(1) [OF "0.prems"(7) nl] show ?case
    by (cases b) (auto split: if_splits)
next
  case (Suc h)
  have nl: "n \<le> length t" using pos_bound [OF Suc.prems(6,8)] Suc.prems(9) by simp
  have odd: "odd (length t)" using Suc.prems(9) by simp
  have lev: "Suc l + h = L" "2 * n < 2 ^ Suc (Suc l)" "Suc (2 * n) < 2 ^ Suc (Suc l)" "0 < 2 * n" "0 < Suc (2 * n)"
    using Suc.prems(6-8) by simp_all
  show ?case
  proof (cases "b = Unused \<or> b = Used")
    case True
    with Suc.prems combine_rep [OF Suc.prems(2,3,7) nl odd] loop_used(1) [OF Suc.prems(7) nl] show ?thesis
      by (auto split: if_splits)
  next
    case False
    then obtain g x y where b: "b = (if g then Full x y else Split x y)"
      and rx: "rep t (2 * n) x" "rep t (Suc (2 * n)) y" "wfb h x" "wfb h y" "g \<longrightarrow> full x \<and> full y"
        "node_at t n \<in> {NODE_SPLIT, NODE_FULL}" "repc t (2 * n) (OnLeft g y # fs)" "repc t (Suc (2 * n)) (OnRight g x # fs)"
        "frames_ok (OnLeft g y # fs)" "frames_ok (OnRight g x # fs)"
      using inner_cases [OF _ _ Suc.prems(1,2,7,3,4,5)] by blast
    note loop = loop_inner(1) [OF Suc.prems(7) nl rx(6), of left p h]
    show ?thesis
    proof (cases "p < 2 ^ h")
      case True
      with Suc.prems(10) b obtain x' where x': "free_bt h p x = Some x'" "b' = join_free x' y"
        by (auto split: if_splits)
      with Suc.IH [OF rx(1,7,9) _ rx(3) lev(1,4,2) Suc.prems(9) x'(1)] rx(5) True show ?thesis
        unfolding loop by simp
    next
      case p: False
      with Suc.prems(10) b obtain y' where y': "free_bt h (p - 2 ^ h) y = Some y'" "b' = join_free x y'"
        by (auto split: if_splits)
      with Suc.IH [OF rx(2,8,10) _ rx(4) lev(1,5,3) Suc.prems(9) y'(1), of "left + 2 ^ h"] rx(5) p show ?thesis
        unfolding loop by simp
    qed
  qed
qed

lemma size_rep:
  assumes "rep t n b" "wfb h b" "l + h = L" "0 < n" "n < 2 ^ Suc l" "length t = 2 ^ Suc L - 1"
    and "(c + p, s) \<in> blocks c h b"
  shows "buddy_size_loop t (left + int p) left (2 ^ h) (int n - 1) = Some (int s)"
  using assms
proof (induction h arbitrary: n b l p left c)
  case 0
  have nl: "n \<le> length t" using pos_bound [OF "0.prems"(3,5)] "0.prems"(6) by simp
  with 0 loop_used(2) [OF "0.prems"(4) nl] show ?case
    by (cases b) auto
next
  case (Suc h)
  have nl: "n \<le> length t" using pos_bound [OF Suc.prems(3,5)] Suc.prems(6) by simp
  have lev: "Suc l + h = L" "2 * n < 2 ^ Suc (Suc l)" "Suc (2 * n) < 2 ^ Suc (Suc l)" "0 < 2 * n" "0 < Suc (2 * n)"
    using Suc.prems(3-5) by simp_all
  show ?case
  proof (cases "b = Unused \<or> b = Used")
    case True
    with Suc.prems loop_used(2) [OF Suc.prems(4) nl] show ?thesis by auto
  next
    case False
    then obtain x y where b: "b \<in> {Full x y, Split x y}" by (cases b) auto
    with Suc.prems have rx: "rep t (2 * n) x" "rep t (Suc (2 * n)) y" "wfb h x" "wfb h y"
      "node_at t n \<in> {NODE_SPLIT, NODE_FULL}" and mem: "(c + p, s) \<in> blocks c h x \<union> blocks (c + 2 ^ h) h y"
      by auto
    note loop = loop_inner(2) [OF Suc.prems(4) nl rx(5), of left p h]
    show ?thesis
      using blocks_split [OF mem] Suc.IH [OF rx(1,3) lev(1,4,2) Suc.prems(6)]
        Suc.IH [OF rx(2,4) lev(1,5,3) Suc.prems(6), of "c + 2 ^ h" "p - 2 ^ h" "left + 2 ^ h"]
      unfolding loop by (simp split: if_splits)
  qed
qed

end
