(* ===== verification/Buddy_Alloc.thy ===== *)
theory Buddy_Alloc
  imports Buddy_Correct
begin

text \<open>
  The contract of \<^verbatim>\<open>buddy.h\<close>: the sizes requests are rounded to, and allocation, release and
  size query on the record \<open>buddy\<close>, over the set of blocks in use.  The last part is the
  instance of the interface \<open>allocator\<close>.
\<close>

subsection \<open>Rounding a request to a power of two\<close>

lemma bit_unat: "bit (w :: u32) n \<longleftrightarrow> bit (unat w) n"
  by (auto simp: bit_unsigned_iff dest: bit_imp_le_length)

lemma top_bit:
  assumes "2 ^ m \<le> unat w" "unat w < 2 ^ Suc m"
  shows "bit (w :: u32) n \<Longrightarrow> n \<le> m" "bit w m"
proof -
  have "unat w div 2 ^ m = 1"
    using assms by (intro div_nat_eqI) auto
  then show "bit w m" by (simp add: bit_unat bit_iff_odd)
  assume b: "bit w n"
  show "n \<le> m"
  proof (rule ccontr)
    assume "\<not> n \<le> m"
    then have "(2 :: nat) ^ Suc m \<le> 2 ^ n" by (intro power_increasing) auto
    then have "unat w div 2 ^ n = 0" using assms(2) by simp
    with b show False by (simp add: bit_unat bit_iff_odd)
  qed
qed

lemma word_log: "w \<noteq> 0 \<Longrightarrow> \<exists>m < 32. 2 ^ m \<le> unat w \<and> unat w < 2 ^ Suc m" for w :: u32
proof -
  assume "w \<noteq> 0"
  then have "0 < unat w" by (simp add: unat_gt_0)
  then obtain m where m: "2 ^ m \<le> unat w" "unat w < 2 ^ Suc m"
    using ex_power_ivl1 [of 2 "unat w"] by auto
  moreover have "m < 32"
  proof (rule ccontr)
    assume "\<not> m < 32"
    then have "(2 :: nat) ^ 32 \<le> 2 ^ m" by (intro power_increasing) auto
    moreover have "unat w < 2 ^ 32" using unsigned_less [of w] by simp
    ultimately show False using m(1) by linarith
  qed
  ultimately show ?thesis by blast
qed

lemma smear_step:
  assumes "\<And>n. bit (y :: u32) n \<longleftrightarrow> (\<exists>k < j. bit x (n + k))"
  shows "bit (y OR drop_bit j y) n \<longleftrightarrow> (\<exists>k < 2 * j. bit x (n + k))"
proof -
  have "(\<exists>k < 2 * j. bit x (n + k)) \<longleftrightarrow> (\<exists>k < j. bit x (n + k)) \<or> (\<exists>k < j. bit x (n + j + k))"
  proof
    assume "\<exists>k < 2 * j. bit x (n + k)"
    then obtain k where k: "k < 2 * j" "bit x (n + k)" by blast
    show "(\<exists>k < j. bit x (n + k)) \<or> (\<exists>k < j. bit x (n + j + k))"
    proof (cases "k < j")
      case False
      with k have "k - j < j" "bit x (n + j + (k - j))" by simp_all
      then show ?thesis by blast
    qed (use k in blast)
  next
    assume "(\<exists>k < j. bit x (n + k)) \<or> (\<exists>k < j. bit x (n + j + k))"
    then show "\<exists>k < 2 * j. bit x (n + k)"
      by (metis add.assoc less_add_same_cancel1 mult_2 nat_add_left_cancel_less trans_less_add1)
  qed
  then show ?thesis
    by (simp add: bit_or_iff bit_drop_bit_eq assms add.commute)
qed

lemma smear:
  assumes "2 ^ m \<le> unat x" "unat x < 2 ^ Suc m" "m < 32"
  shows "(let x = x OR drop_bit 1 x; x = x OR drop_bit 2 x; x = x OR drop_bit 4 x;
    x = x OR drop_bit 8 x; x = x OR drop_bit 16 x in x) = (mask (Suc m) :: u32)"
proof -
  define x1 where "x1 = x OR drop_bit 1 x"
  define x2 where "x2 = x1 OR drop_bit 2 x1"
  define x3 where "x3 = x2 OR drop_bit 4 x2"
  define x4 where "x4 = x3 OR drop_bit 8 x3"
  define x5 where "x5 = x4 OR drop_bit 16 x4"
  have "bit x n \<longleftrightarrow> (\<exists>k < 1. bit x (n + k))" for n by simp
  note s1 = smear_step [OF this, folded x1_def, simplified]
  note s2 = smear_step [OF s1 [simplified], folded x2_def, simplified]
  note s3 = smear_step [OF s2, folded x3_def, simplified]
  note s4 = smear_step [OF s3, folded x4_def, simplified]
  note s5 = smear_step [OF s4, folded x5_def, simplified]
  have "bit x5 n \<longleftrightarrow> n \<le> m" for n
  proof
    assume "bit x5 n"
    then obtain k where "bit x (n + k)" using s5 by blast
    with top_bit(1) [OF assms(1,2)] show "n \<le> m" by (meson add_leD1)
  next
    assume "n \<le> m"
    then have "m - n < 32" "bit x (n + (m - n))" using assms(3) top_bit(2) [OF assms(1,2)] by simp_all
    then show "bit x5 n" using s5 by blast
  qed
  note B = this
  have "x5 = mask (Suc m)"
  proof (rule bit_word_eqI)
    fix n assume "n < LENGTH(32)"
    then show "bit x5 n \<longleftrightarrow> bit (mask (Suc m) :: u32) n" unfolding B bit_mask_iff by auto
  qed
  then show ?thesis unfolding x5_def x4_def x3_def x2_def x1_def Let_def .
qed

lemma is_pow_of_2_iff:
  assumes "2 ^ m \<le> unat x" "unat x < 2 ^ Suc m" "m < 32"
  shows "is_pow_of_2 x \<longleftrightarrow> x = 2 ^ m"
proof
  assume p: "is_pow_of_2 x"
  show "x = 2 ^ m"
  proof (rule ccontr)
    assume "x \<noteq> 2 ^ m"
    then have "unat x \<noteq> unat (2 ^ m :: u32)" by (metis word_unat_eq_iff)
    then have ne: "unat x \<noteq> 2 ^ m" using assms(3) by (simp add: unat_exp)
    have "x \<noteq> 0" using assms(1) by auto
    then have "unat (x - 1) = unat x - 1" by (simp add: unat_minus_one)
    then have "bit (x - 1) m" using assms ne by (intro top_bit(2)) auto
    with top_bit(2) [OF assms(1,2)] have "bit (x AND (x - 1)) m" by (simp add: bit_and_iff)
    with p show False by (simp add: is_pow_of_2_def)
  qed
next
  assume "x = 2 ^ m"
  then show "is_pow_of_2 x"
    unfolding is_pow_of_2_def
    by (intro bit_word_eqI) (auto simp: bit_and_iff bit_exp_iff bit_mask_iff simp flip: mask_eq_decr_exp)
qed

lemma next_pow_of_2_cases:
  assumes "x \<noteq> 0"
  obtains m where "m < 32" "unat x = 2 ^ m" "next_pow_of_2 x = 2 ^ m"
  | m where "m < 32" "2 ^ m < unat x" "unat x < 2 ^ Suc m" "next_pow_of_2 x = 2 ^ Suc m"
proof -
  obtain m where m: "m < 32" "2 ^ m \<le> unat x" "unat x < 2 ^ Suc m"
    using word_log [OF assms] by blast
  note P = is_pow_of_2_iff [OF m(2,3,1)]
  show ?thesis
  proof (cases "x = 2 ^ m")
    case True
    then show ?thesis using that(1) [of m] m(1) P by (simp add: next_pow_of_2_def unat_exp)
  next
    case False
    then have "unat x \<noteq> unat (2 ^ m :: u32)" by (metis word_unat_eq_iff)
    then have "unat x \<noteq> 2 ^ m" using m(1) by (simp add: unat_exp)
    moreover have "next_pow_of_2 x = mask (Suc m) + 1"
      using False P smear [OF m(2,3,1)] by (simp add: next_pow_of_2_def Let_def)
    ultimately show ?thesis using that(2) [of m] m by (simp add: mask_eq_decr_exp)
  qed
qed

text \<open>\<open>2 ^ k\<close> is the least power of two that covers \<open>s\<close> units.\<close>

definition rounds_to :: "u32 \<Rightarrow> nat \<Rightarrow> bool" where
  "rounds_to s k \<longleftrightarrow> unat s \<le> 2 ^ k \<and> (\<forall>j < k. 2 ^ j < unat s)"

lemma less_power_all: "2 ^ m < x \<Longrightarrow> j < Suc m \<Longrightarrow> 2 ^ j < (x :: nat)"
  by (metis less_Suc_eq_le nat_less_le one_less_numeral_iff order_le_less_trans power_increasing_iff semiring_norm(76))

lemma next_pow_of_2_rounds:
  assumes "s \<noteq> 0"
  shows "if unat s \<le> 2 ^ 31 then \<exists>k \<le> 31. rounds_to s k \<and> unat (next_pow_of_2 s) = 2 ^ k
    else next_pow_of_2 s = 0"
proof (cases rule: next_pow_of_2_cases [OF assms])
  case (1 m)
  have "m \<le> 31" "(2 :: nat) ^ m \<le> 2 ^ 31" using 1(1) by (simp, intro power_increasing, simp_all)
  moreover have "rounds_to s m" using 1 by (simp add: rounds_to_def power_strict_increasing)
  ultimately show ?thesis using 1 unat_exp [of m, where 'a = 32] by auto
next
  case (2 m)
  show ?thesis
  proof (cases "m = 31")
    case True
    with 2 show ?thesis by (simp del: power_Suc)
  next
    case False
    with 2(1) have m: "Suc m \<le> 31" by simp
    then have "(2 :: nat) ^ Suc m \<le> 2 ^ 31" by (intro power_increasing) auto
    moreover have "rounds_to s (Suc m)"
      using 2 less_power_all [OF 2(2)] by (simp add: rounds_to_def)
    moreover have "unat (next_pow_of_2 s) = 2 ^ Suc m"
      using 2(4) m unat_exp [of "Suc m", where 'a = 32] by (simp del: power_Suc)
    ultimately have "unat s \<le> 2 ^ 31" "\<exists>k \<le> 31. rounds_to s k \<and> unat (next_pow_of_2 s) = 2 ^ k"
      using 2(3) m by (linarith, blast)
    then show ?thesis by simp
  qed
qed

text \<open>
  \<^verbatim>\<open>next_pow_of_2\<close> returns the least power of two that is not below its argument, for every
  nonzero argument up to 2^31; from there on the result wraps to 0.
\<close>

theorem next_pow_of_2_least:
  assumes "s \<noteq> 0"
  shows "if unat s \<le> 2 ^ 31 then \<exists>k \<le> 31. rounds_to s k \<and> unat (next_pow_of_2 s) = 2 ^ k
    else next_pow_of_2 s = 0"
  using assms by (rule next_pow_of_2_rounds)

theorem next_pow_of_2_least_witness: "\<exists>k \<le> 31. rounds_to 37 k \<and> unat (next_pow_of_2 37) = 2 ^ k"
  using next_pow_of_2_least [of 37] by simp

subsection \<open>The contract\<close>

text \<open>The tree an array stands for, and the blocks it records as in use.\<close>

fun btree_of :: "node_state list \<Rightarrow> nat \<Rightarrow> nat \<Rightarrow> btree" where
  "btree_of t 0 n = (case node_at t n of NODE_UNUSED \<Rightarrow> Unused | NODE_USED \<Rightarrow> Used | _ \<Rightarrow> Split Unused Unused)"
| "btree_of t (Suc h) n =
     (case node_at t n of NODE_UNUSED \<Rightarrow> Unused | NODE_USED \<Rightarrow> Used
      | NODE_SPLIT \<Rightarrow> Split (btree_of t h (2 * n)) (btree_of t h (Suc (2 * n)))
      | NODE_FULL \<Rightarrow> Full (btree_of t h (2 * n)) (btree_of t h (Suc (2 * n))))"

definition buddy_tree :: "buddy \<Rightarrow> btree" where
  "buddy_tree self = btree_of (tree self) (level self) 1"

definition in_use :: "buddy \<Rightarrow> (nat \<times> nat) set" where
  "in_use self = blocks 0 (level self) (buddy_tree self)"

definition buddy_ok :: "buddy \<Rightarrow> bool" where
  "buddy_ok self \<longleftrightarrow> level self \<le> 30 \<and> length (tree self) = 2 ^ Suc (level self) - 1 \<and>
     wfb (level self) (buddy_tree self)"

lemma btree_of_rep: "wfb h (btree_of t h n) \<Longrightarrow> rep t n (btree_of t h n)"
  by (induction t h n rule: btree_of.induct) (auto split: node_state.splits)

lemma rep_btree_of: "rep t n b \<Longrightarrow> wfb h b \<Longrightarrow> btree_of t h n = b"
proof (induction h arbitrary: n b)
  case 0
  then show ?case by (cases b) auto
next
  case (Suc h)
  then show ?case by (cases b) auto
qed

lemma buddy_rep:
  assumes "buddy_ok self"
  shows "rep (tree self) 1 (buddy_tree self)" "wfb (level self) (buddy_tree self)"
  using assms btree_of_rep by (auto simp: buddy_ok_def buddy_tree_def)

lemma buddy_ok_update:
  assumes "buddy_ok self" "rep t 1 b" "wfb (level self) b" "length t = length (tree self)"
  shows "buddy_ok (self\<lparr>tree := t\<rparr>)" "buddy_tree (self\<lparr>tree := t\<rparr>) = b"
    "in_use (self\<lparr>tree := t\<rparr>) = blocks 0 (level self) b"
proof -
  show b: "buddy_tree (self\<lparr>tree := t\<rparr>) = b"
    using rep_btree_of [OF assms(2,3)] by (simp add: buddy_tree_def)
  then show "buddy_ok (self\<lparr>tree := t\<rparr>)" "in_use (self\<lparr>tree := t\<rparr>) = blocks 0 (level self) b"
    using assms(1,3,4) by (simp_all add: buddy_ok_def in_use_def)
qed

lemma buddy_new_tree: "rep (tree (buddy_new l)) 1 Unused"
proof -
  have "(0 :: nat) < 2 ^ l" by simp
  then have "0 < 2 ^ l * 2 - Suc 0" by linarith
  then show ?thesis by (simp add: buddy_new_def node_at_def)
qed

lemma buddy_new_wf:
  assumes "l \<le> 30"
  shows "buddy_ok (buddy_new l) \<and> in_use (buddy_new l) = {}"
proof -
  have "btree_of (tree (buddy_new l)) l 1 = Unused"
    by (rule rep_btree_of [OF buddy_new_tree]) simp
  then show ?thesis using assms
    by (simp add: buddy_ok_def in_use_def buddy_tree_def) (simp add: buddy_new_def)
qed

text \<open>
  A new allocator is well formed and records no block in use.
\<close>

theorem buddy_new_ok:
  assumes "l \<le> 30"
  shows "buddy_ok (buddy_new l) \<and> in_use (buddy_new l) = {}"
  using assms by (rule buddy_new_wf)

theorem buddy_new_ok_witness: "buddy_ok (buddy_new 10) \<and> in_use (buddy_new 10) = {}"
  by (rule buddy_new_ok) simp

text \<open>The request as the search sees it.\<close>

lemma request_size:
  assumes "unat s \<le> 2 ^ 30"
  obtains k where "rounds_to s k" "k \<le> 30" "(if s = 0 then 1 else sint (next_pow_of_2 s)) = 2 ^ k"
proof (cases "s = 0")
  case True
  then show ?thesis using that [of 0] by (simp add: rounds_to_def)
next
  case False
  have "unat s \<le> 2 ^ 31" using assms by simp
  with next_pow_of_2_rounds [OF False] obtain k where k: "rounds_to s k" "unat (next_pow_of_2 s) = 2 ^ k"
    by auto
  have "k \<le> 30"
  proof (rule ccontr)
    assume "\<not> k \<le> 30"
    then have "30 < k" by simp
    with k(1) have "2 ^ 30 < unat s" unfolding rounds_to_def by blast
    with assms show False by simp
  qed
  moreover from this have "(2 :: nat) ^ k \<le> 2 ^ 30" by (intro power_increasing) auto
  then have "sint (next_pow_of_2 s) = int (2 ^ k)"
    using sint_small [of "next_pow_of_2 s"] k(2) by simp
  ultimately show ?thesis using that [OF k(1)] False by simp
qed

lemma buddy_alloc_run:
  assumes "buddy_ok self" "unat s \<le> 2 ^ 30"
  obtains k where "rounds_to s k" "k \<le> 30"
    "level self < k \<Longrightarrow> buddy_alloc self s = Some (- 1, self)"
    "k \<le> level self \<Longrightarrow> alloc_bt (level self) k (buddy_tree self) = None \<Longrightarrow> buddy_alloc self s = Some (- 1, self)"
    "\<And>p b'. k \<le> level self \<Longrightarrow> alloc_bt (level self) k (buddy_tree self) = Some (p, b') \<Longrightarrow>
      \<exists>t'. buddy_alloc self s = Some (int p, self\<lparr>tree := t'\<rparr>) \<and> length t' = length (tree self) \<and> rep t' 1 b'"
proof -
  obtain k where k: "rounds_to s k" "k \<le> 30" "(if s = 0 then 1 else sint (next_pow_of_2 s)) = 2 ^ k"
    using request_size [OF assms(2)] by blast
  have run: "buddy_alloc self s =
      (if level self < k then Some (- 1, self)
       else map_option (\<lambda>(r, t). (r, self\<lparr>tree := t\<rparr>)) (buddy_alloc_loop (level self) (2 ^ k) (tree self) 0 0 (2 ^ level self)))"
    using assms(1) by (simp add: buddy_alloc_def arena_length_def buddy_ok_def k(3) Let_def)
  have len: "length (tree self) = 2 ^ Suc (level self) - 1" using assms(1) by (simp add: buddy_ok_def)
  note S = search_rep [OF buddy_rep(1) [OF assms(1)], of "[]" k "level self" 0 "level self"] buddy_rep(2) [OF assms(1)]
  show ?thesis
  proof (rule that [OF k(1,2)])
    fix p b'
    assume "k \<le> level self" "alloc_bt (level self) k (buddy_tree self) = Some (p, b')"
    with S len show "\<exists>t'. buddy_alloc self s = Some (int p, self\<lparr>tree := t'\<rparr>) \<and> length t' = length (tree self) \<and> rep t' 1 b'"
      by (auto simp: run)
  next
    assume "k \<le> level self" "alloc_bt (level self) k (buddy_tree self) = None"
    with S len show "buddy_alloc self s = Some (- 1, self)"
      by (simp add: run next_root)
  qed (simp add: run)
qed

lemma buddy_alloc_step:
  assumes "buddy_ok self" "unat s \<le> 2 ^ 30"
  shows "\<exists>k r self'. rounds_to s k \<and> buddy_alloc self s = Some (r, self') \<and> buddy_ok self' \<and>
    level self' = level self \<and>
    (if r < 0
     then r = - 1 \<and> self' = self \<and>
       (\<forall>p. 2 ^ k dvd p \<and> p + 2 ^ k \<le> 2 ^ level self \<longrightarrow> extent (p, 2 ^ k) \<inter> units (in_use self) \<noteq> {})
     else in_use self' = insert (nat r, 2 ^ k) (in_use self) \<and> nat r + 2 ^ k \<le> 2 ^ level self \<and>
       2 ^ k dvd nat r \<and> extent (nat r, 2 ^ k) \<inter> units (in_use self) = {})"
proof -
  obtain k where k: "rounds_to s k" "k \<le> 30"
    and big: "level self < k \<Longrightarrow> buddy_alloc self s = Some (- 1, self)"
    and refuse: "k \<le> level self \<Longrightarrow> alloc_bt (level self) k (buddy_tree self) = None \<Longrightarrow> buddy_alloc self s = Some (- 1, self)"
    and serve: "\<And>p b'. k \<le> level self \<Longrightarrow> alloc_bt (level self) k (buddy_tree self) = Some (p, b') \<Longrightarrow>
      \<exists>t'. buddy_alloc self s = Some (int p, self\<lparr>tree := t'\<rparr>) \<and> length t' = length (tree self) \<and> rep t' 1 b'"
    using buddy_alloc_run [OF assms] by metis
  note wf = buddy_rep(2) [OF assms(1)]
  show ?thesis
  proof (cases "k \<le> level self")
    case False
    then have "(2 :: nat) ^ level self < 2 ^ k" by (intro power_strict_increasing) auto
    then have "\<not> p + 2 ^ k \<le> 2 ^ level self" for p :: nat by linarith
    with big False assms(1) k(1) show ?thesis by (intro exI [of _ k] exI) auto
  next
    case le: True
    show ?thesis
    proof (cases "alloc_bt (level self) k (buddy_tree self)")
      case None
      have "extent (p, 2 ^ k) \<inter> units (in_use self) \<noteq> {}" if "2 ^ k dvd p \<and> p + 2 ^ k \<le> 2 ^ level self" for p
        using alloc_bt_complete [OF wf le None, of p 0] that by (simp add: in_use_def)
      with refuse [OF le None] assms(1) k(1) show ?thesis
        by (intro exI [of _ k] exI [of _ "- 1"] exI [of _ self]) simp
    next
      case (Some x)
      obtain p b' where x: "x = (p, b')" by force
      with serve [OF le, of p b'] Some obtain t' where t': "buddy_alloc self s = Some (int p, self\<lparr>tree := t'\<rparr>)"
        "length t' = length (tree self)" "rep t' 1 b'" by auto
      have b': "wfb (level self) b'" by (rule alloc_bt_wf [OF wf Some [unfolded x]])
      note U = buddy_ok_update [OF assms(1) t'(3) b' t'(2)]
      have use: "in_use (self\<lparr>tree := t'\<rparr>) = insert (p, 2 ^ k) (in_use self)" "p + 2 ^ k \<le> 2 ^ level self"
        "2 ^ k dvd p" "extent (p, 2 ^ k) \<inter> units (in_use self) = {}"
        using alloc_bt_blocks [OF wf le Some [unfolded x], of 0] U(3) by (simp_all add: in_use_def)
      show ?thesis
        by (intro exI [of _ k] exI [of _ "int p"] exI [of _ "self\<lparr>tree := t'\<rparr>"])
          (simp add: use t'(1) U(1) k(1))
    qed
  qed
qed

text \<open>
  C23. A successful allocation returns the offset of an aligned block of the least power of two
  that covers the request, inside the arena and apart from every block in use, and records
  exactly this block; when it returns -1, nothing changed and every aligned block of that size
  meets a block in use.
\<close>

theorem buddy_alloc_correct:
  assumes "buddy_ok self" "unat s \<le> 2 ^ 30"
  shows "\<exists>k r self'. rounds_to s k \<and> buddy_alloc self s = Some (r, self') \<and> buddy_ok self' \<and>
    level self' = level self \<and>
    (if r < 0
     then r = - 1 \<and> self' = self \<and>
       (\<forall>p. 2 ^ k dvd p \<and> p + 2 ^ k \<le> 2 ^ level self \<longrightarrow> extent (p, 2 ^ k) \<inter> units (in_use self) \<noteq> {})
     else in_use self' = insert (nat r, 2 ^ k) (in_use self) \<and> nat r + 2 ^ k \<le> 2 ^ level self \<and>
       2 ^ k dvd nat r \<and> extent (nat r, 2 ^ k) \<inter> units (in_use self) = {})"
  using assms by (rule buddy_alloc_step)

theorem buddy_alloc_correct_witness:
  "\<exists>k r self'. rounds_to 37 k \<and> buddy_alloc (buddy_new 10) 37 = Some (r, self') \<and> buddy_ok self' \<and>
    level self' = level (buddy_new 10) \<and>
    (if r < 0
     then r = - 1 \<and> self' = buddy_new 10 \<and>
       (\<forall>p. 2 ^ k dvd p \<and> p + 2 ^ k \<le> 2 ^ level (buddy_new 10) \<longrightarrow>
         extent (p, 2 ^ k) \<inter> units (in_use (buddy_new 10)) \<noteq> {})
     else in_use self' = insert (nat r, 2 ^ k) (in_use (buddy_new 10)) \<and>
       nat r + 2 ^ k \<le> 2 ^ level (buddy_new 10) \<and> 2 ^ k dvd nat r \<and>
       extent (nat r, 2 ^ k) \<inter> units (in_use (buddy_new 10)) = {})"
  by (rule buddy_alloc_correct) (use buddy_new_wf [of 10] in simp_all)

lemma buddy_free_run:
  assumes "buddy_ok self" "(p, s) \<in> in_use self"
  shows "\<exists>b'. free_bt (level self) p (buddy_tree self) = Some b' \<and>
    (\<exists>t'. buddy_free self (int p) = Some (self\<lparr>tree := t'\<rparr>) \<and> length t' = length (tree self) \<and> rep t' 1 b') \<and>
    blocks 0 (level self) b' = in_use self - {(p, s)}"
proof -
  note wf = buddy_rep [OF assms(1)]
  from free_bt_blocks [OF wf(2), of 0 p s] assms(2) obtain b' where b':
    "free_bt (level self) p (buddy_tree self) = Some b'" "blocks 0 (level self) b' = in_use self - {(p, s)}"
    by (auto simp: in_use_def)
  have "p + s \<le> 2 ^ level self \<and> 0 < s"
    using blocks_range [of p s 0] assms(2) by (fastforce simp: in_use_def)
  then have "int p < 2 ^ level self" using of_nat_less_iff [where 'a = int, of p "2 ^ level self"] by simp
  with free_rep [OF wf(1), of "[]" "level self" 0 "level self" p b' 0] wf(2) b' assms(1)
  have "\<exists>t'. buddy_free self (int p) = Some (self\<lparr>tree := t'\<rparr>) \<and> length t' = length (tree self) \<and> rep t' 1 b'"
    by (auto simp: buddy_free_def arena_length_def buddy_ok_def)
  with b' show ?thesis by blast
qed

text \<open>
  C24. Releasing the offset of a block in use succeeds and removes exactly this block; no
  other block is touched, and free buddies are merged again (the invariant).
\<close>

theorem buddy_free_correct:
  assumes "buddy_ok self" "(p, s) \<in> in_use self"
  shows "\<exists>self'. buddy_free self (int p) = Some self' \<and> buddy_ok self' \<and> in_use self' = in_use self - {(p, s)}"
proof -
  obtain b' t' where f: "free_bt (level self) p (buddy_tree self) = Some b'" "buddy_free self (int p) = Some (self\<lparr>tree := t'\<rparr>)"
    "length t' = length (tree self)" "rep t' 1 b'" "blocks 0 (level self) b' = in_use self - {(p, s)}"
    using buddy_free_run [OF assms] by blast
  have "wfb (level self) b'" by (rule free_bt_wf [OF buddy_rep(2) [OF assms(1)] f(1)])
  from buddy_ok_update [OF assms(1) f(4) this f(3)] f show ?thesis by simp
qed

text \<open>An arena of two units whose first unit is in use.\<close>

definition example_buddy :: buddy where
  "example_buddy = \<lparr>level = 1, tree = [NODE_SPLIT, NODE_USED, NODE_UNUSED]\<rparr>"

lemma example_buddy: "buddy_ok example_buddy" "(0, 1) \<in> in_use example_buddy"
  by (simp_all add: example_buddy_def buddy_ok_def in_use_def buddy_tree_def node_at_def)

theorem buddy_free_correct_witness:
  "\<exists>self'. buddy_free example_buddy (int 0) = Some self' \<and> buddy_ok self' \<and>
    in_use self' = in_use example_buddy - {(0, 1)}"
  by (rule buddy_free_correct [OF example_buddy])

text \<open>
  C25. Releasing the block just allocated restores the tree exactly as it was before, so a
  pair of calls leaves no trace: splits are undone and fullness marks are withdrawn (entries of
  the array below a leaf are never read, so the states are compared by their trees).
\<close>

theorem buddy_alloc_free:
  assumes "buddy_ok self" "unat s \<le> 2 ^ 30" "buddy_alloc self s = Some (r, self1)" "0 \<le> r"
  shows "\<exists>self2. buddy_free self1 r = Some self2 \<and> buddy_tree self2 = buddy_tree self"
proof -
  obtain k where refuse: "level self < k \<Longrightarrow> buddy_alloc self s = Some (- 1, self)"
    "k \<le> level self \<Longrightarrow> alloc_bt (level self) k (buddy_tree self) = None \<Longrightarrow> buddy_alloc self s = Some (- 1, self)"
    and serve: "\<And>p b'. k \<le> level self \<Longrightarrow> alloc_bt (level self) k (buddy_tree self) = Some (p, b') \<Longrightarrow>
      \<exists>t'. buddy_alloc self s = Some (int p, self\<lparr>tree := t'\<rparr>) \<and> length t' = length (tree self) \<and> rep t' 1 b'"
    using buddy_alloc_run [OF assms(1,2)] by metis
  note wf = buddy_rep(2) [OF assms(1)]
  have le: "k \<le> level self" using refuse(1) assms(3,4) by (cases "level self < k") auto
  then obtain p b' where a: "alloc_bt (level self) k (buddy_tree self) = Some (p, b')"
    using refuse(2) assms(3,4) by (cases "alloc_bt (level self) k (buddy_tree self)") auto
  with serve [OF le] assms(3) obtain t' where t': "r = int p" "self1 = self\<lparr>tree := t'\<rparr>"
    "length t' = length (tree self)" "rep t' 1 b'" by fastforce
  have b': "wfb (level self) b'" by (rule alloc_bt_wf [OF wf a])
  note U = buddy_ok_update [OF assms(1) t'(4) b' t'(3), folded t'(2)]
  have "(p, 2 ^ k) \<in> in_use self1" using U(3) alloc_bt_blocks [OF wf le a, of 0] by simp
  from buddy_free_run [OF U(1) this] obtain b2 t2 where b2: "free_bt (level self) p b' = Some b2"
    "buddy_free self1 r = Some (self1\<lparr>tree := t2\<rparr>)" "length t2 = length (tree self1)" "rep t2 1 b2"
    using U(2) t'(1,2) by auto
  from b2(1) free_alloc_bt [OF wf le a] have "b2 = buddy_tree self" by simp
  with b2 buddy_ok_update(2) [OF U(1) b2(4) _ b2(3)] wf t'(2) show ?thesis by simp
qed

lemma example_alloc: "buddy_alloc (buddy_new 1) 1 = Some (0, example_buddy)"
proof -
  have "(1 :: u32) AND 0 = 0" by simp
  then have "sint (next_pow_of_2 1) = 1" by (simp add: next_pow_of_2_def is_pow_of_2_def)
  then show ?thesis
    by (simp add: buddy_alloc_def arena_length_def buddy_new_def example_buddy_def numeral_3_eq_3)
      (simp add: buddy_alloc_loop.simps mark_parent.simps tget_def tput_def buddy_index_def index_offset_def)
qed

theorem buddy_alloc_free_witness:
  "\<exists>self2. buddy_free example_buddy 0 = Some self2 \<and> buddy_tree self2 = buddy_tree (buddy_new 1)"
  by (rule buddy_alloc_free [OF _ _ example_alloc]) (use buddy_new_wf [of 1] in simp_all)

text \<open>
  The size query returns the size of the block in use at the offset.
\<close>

theorem buddy_size_correct:
  assumes "buddy_ok self" "(p, s) \<in> in_use self"
  shows "buddy_size self (int p) = Some (int s)"
proof -
  have "p + s \<le> 2 ^ level self \<and> 0 < s"
    using blocks_range [of p s 0] assms(2) by (fastforce simp: in_use_def)
  then have "int p < 2 ^ level self" using of_nat_less_iff [where 'a = int, of p "2 ^ level self"] by simp
  with size_rep [OF buddy_rep [OF assms(1)], of 0 "level self" 0 p s 0] assms show ?thesis
    by (auto simp: buddy_size_def arena_length_def in_use_def buddy_ok_def)
qed

theorem buddy_size_correct_witness: "buddy_size example_buddy (int 0) = Some (int 1)"
  by (rule buddy_size_correct [OF example_buddy])

subsection \<open>The printed tree\<close>

text \<open>The blocks in use among the printed items.\<close>

fun used_items :: "dump_item list \<Rightarrow> (int \<times> int) list" where
  "used_items [] = []"
| "used_items (Used_item p s # is) = (p, s) # used_items is"
| "used_items (_ # is) = used_items is"

lemma used_items_append [simp]: "used_items (xs @ ys) = used_items xs @ used_items ys"
  by (induction xs rule: used_items.induct) simp_all

abbreviation int_blocks :: "(nat \<times> nat) set \<Rightarrow> (int \<times> int) set" where
  "int_blocks B \<equiv> (\<lambda>(p, s). (int p, int s)) ` B"

lemma dump_children:
  assumes "0 < n" "n \<le> length t" "node_at t n = NODE_SPLIT \<or> node_at t n = NODE_FULL"
    and "dump L t (int (2 * n) - 1) (int (Suc l)) = Some is1" "dump L t (int (Suc (2 * n)) - 1) (int (Suc l)) = Some is2"
  shows "\<exists>is. dump L t (int n - 1) (int l) = Some is \<and> used_items is = used_items is1 @ used_items is2"
proof -
  have "dump L t (int n * 2 - 1) (int l + 1) = Some is1" "dump L t (int n * 2) (int l + 1) = Some is2"
    using assms(4,5) by (simp_all add: ac_simps)
  with assms(1-3) show ?thesis by (subst dump.simps) auto
qed

lemma dump_leaf:
  assumes "l + h = L" "2 ^ l \<le> n" "0 < n" "n \<le> length t"
  shows "node_at t n = NODE_UNUSED \<Longrightarrow> dump L t (int n - 1) (int l) = Some [Free_item (int ((n - 2 ^ l) * 2 ^ h)) (2 ^ h)]"
    and "node_at t n = NODE_USED \<Longrightarrow> dump L t (int n - 1) (int l) = Some [Used_item (int ((n - 2 ^ l) * 2 ^ h)) (2 ^ h)]"
proof -
  have h: "nat (int L - int l) = h" using assms(1) by simp
  show "node_at t n = NODE_UNUSED \<Longrightarrow> dump L t (int n - 1) (int l) = Some [Free_item (int ((n - 2 ^ l) * 2 ^ h)) (2 ^ h)]"
    "node_at t n = NODE_USED \<Longrightarrow> dump L t (int n - 1) (int l) = Some [Used_item (int ((n - 2 ^ l) * 2 ^ h)) (2 ^ h)]"
    using assms by (subst dump.simps, simp add: h index_offset_nat [OF assms(1,2)])+
qed

lemma pos_range: "l + h = L \<Longrightarrow> 2 ^ l \<le> n \<Longrightarrow> n < 2 ^ Suc l \<Longrightarrow> length t = 2 ^ Suc L - 1 \<Longrightarrow> 0 < n \<and> n \<le> length t"
  using pos_bound [of l h L n] zero_less_power [of "2 :: nat" l] by linarith

lemma dump_rep:
  assumes "rep t n b" "wfb h b" "l + h = L" "2 ^ l \<le> n" "n < 2 ^ Suc l" "length t = 2 ^ Suc L - 1"
  shows "\<exists>is. dump L t (int n - 1) (int l) = Some is \<and>
    set (used_items is) = int_blocks (blocks ((n - 2 ^ l) * 2 ^ h) h b)"
  using assms
proof (induction h b arbitrary: n l rule: wfb.induct)
  case (1 h)
  with dump_leaf(1) [OF 1(3,4)] pos_range [OF 1(3-6)] show ?case by simp
next
  case (2 h)
  with dump_leaf(2) [OF 2(3,4)] pos_range [OF 2(3-6)] show ?case by simp
next
  case (4 h lt rt)
  have c: "Suc l + h = L" "2 ^ Suc l \<le> 2 * n" "2 * n < 2 ^ Suc (Suc l)" "2 ^ Suc l \<le> Suc (2 * n)" "Suc (2 * n) < 2 ^ Suc (Suc l)"
    using 4 by simp_all
  obtain is1 is2 where d: "dump L t (int (2 * n) - 1) (int (Suc l)) = Some is1" "dump L t (int (Suc (2 * n)) - 1) (int (Suc l)) = Some is2"
    and u: "set (used_items is1) = int_blocks (blocks ((2 * n - 2 ^ Suc l) * 2 ^ h) h lt)"
    "set (used_items is2) = int_blocks (blocks ((Suc (2 * n) - 2 ^ Suc l) * 2 ^ h) h rt)"
    using 4(1) [of "2 * n" "Suc l"] 4(2) [of "Suc (2 * n)" "Suc l"] 4(3,4,8) c by auto
  from dump_children [OF _ _ _ d] pos_range [OF 4(5-8)] 4(3) obtain "is" where
    "dump L t (int n - 1) (int l) = Some is" "used_items is = used_items is1 @ used_items is2" by auto
  moreover from u have "set (used_items is1) = int_blocks (blocks ((n - 2 ^ l) * 2 ^ Suc h) h lt)"
    "set (used_items is2) = int_blocks (blocks ((n - 2 ^ l) * 2 ^ Suc h + 2 ^ h) h rt)"
    using offset_left [of n l h 0] offset_right [OF 4(6), of h 0] by (simp_all only: add_0_right)
  ultimately show ?case by (simp add: image_Un)
next
  case (5 h lt rt)
  have c: "Suc l + h = L" "2 ^ Suc l \<le> 2 * n" "2 * n < 2 ^ Suc (Suc l)" "2 ^ Suc l \<le> Suc (2 * n)" "Suc (2 * n) < 2 ^ Suc (Suc l)"
    using 5 by simp_all
  obtain is1 is2 where d: "dump L t (int (2 * n) - 1) (int (Suc l)) = Some is1" "dump L t (int (Suc (2 * n)) - 1) (int (Suc l)) = Some is2"
    and u: "set (used_items is1) = int_blocks (blocks ((2 * n - 2 ^ Suc l) * 2 ^ h) h lt)"
    "set (used_items is2) = int_blocks (blocks ((Suc (2 * n) - 2 ^ Suc l) * 2 ^ h) h rt)"
    using 5(1) [of "2 * n" "Suc l"] 5(2) [of "Suc (2 * n)" "Suc l"] 5(3,4,8) c by auto
  from dump_children [OF _ _ _ d] pos_range [OF 5(5-8)] 5(3) obtain "is" where
    "dump L t (int n - 1) (int l) = Some is" "used_items is = used_items is1 @ used_items is2" by auto
  moreover from u have "set (used_items is1) = int_blocks (blocks ((n - 2 ^ l) * 2 ^ Suc h) h lt)"
    "set (used_items is2) = int_blocks (blocks ((n - 2 ^ l) * 2 ^ Suc h + 2 ^ h) h rt)"
    using offset_left [of n l h 0] offset_right [OF 5(6), of h 0] by (simp_all only: add_0_right)
  ultimately show ?case by (simp add: image_Un)
qed auto

text \<open>
  The dump of a well-formed arena ends, and its items in square brackets are exactly the blocks
  in use.
\<close>

theorem buddy_dump_correct:
  assumes "buddy_ok self"
  shows "\<exists>is. buddy_dump self = Some is \<and> set (used_items is) = int_blocks (in_use self)"
  using dump_rep [OF buddy_rep [OF assms], of 0 "level self"] assms
  by (simp add: buddy_dump_def in_use_def buddy_ok_def)

theorem buddy_dump_correct_witness:
  "\<exists>is. buddy_dump example_buddy = Some is \<and> set (used_items is) = int_blocks (in_use example_buddy)"
  by (rule buddy_dump_correct [OF example_buddy(1)])

subsection \<open>Requests beyond the range of int\<close>

lemma tput_beyond: "length t < n \<Longrightarrow> tput t (int n - 1) x = None"
  by (auto simp: tput_def)

lemma loop_overrun:
  assumes "rep t n Unused" "l + h = L" "2 ^ l \<le> n" "n < 2 ^ Suc l" "length t = 2 ^ Suc L - 1" "sz \<le> 0"
  shows "buddy_alloc_loop L sz t (int n - 1) (int l) (2 ^ h) = None"
  using assms
proof (induction h arbitrary: t n l)
  case 0
  have n: "0 < n" using "0.prems"(3) by (metis gr0I le_zero_eq power_not_zero zero_neq_numeral)
  have nl: "n \<le> length t" using pos_bound [OF "0.prems"(2,4)] "0.prems"(5) by simp
  have "2 * 2 ^ L \<le> 2 * n" "(0 :: nat) < 2 * 2 ^ L" using "0.prems"(2,3) by simp_all
  then have "length t < 2 * n" unfolding "0.prems"(5) power_Suc by linarith
  then have "tput (t[n - 1 := NODE_SPLIT]) ((int n - 1) * 2 + 1) NODE_UNUSED = None"
    using tput_beyond [of "t[n - 1 := NODE_SPLIT]" "2 * n"] by (simp add: algebra_simps)
  with n nl "0.prems"(1,6) show ?case
    by (subst buddy_alloc_loop.simps) (simp del: One_nat_def)
next
  case (Suc h)
  have n: "0 < n" using Suc.prems(3) by (metis gr0I le_zero_eq power_not_zero zero_neq_numeral)
  have nl: "Suc (2 * n) \<le> length t" using pos_children [OF Suc.prems(2,4)] Suc.prems(5) by simp
  have ne: "sz \<noteq> 2 ^ Suc h" using Suc.prems(6) by (metis not_le zero_less_numeral zero_less_power)
  let ?t = "t[n - 1 := NODE_SPLIT, 2 * n - 1 := NODE_UNUSED, Suc (2 * n) - 1 := NODE_UNUSED]"
  have "node_at ?t (2 * n) = NODE_UNUSED" using n nl by (simp add: node_at_def)
  then have "buddy_alloc_loop L sz ?t (int (2 * n) - 1) (int (Suc l)) (2 ^ h) = None"
    using Suc.prems by (intro Suc.IH) simp_all
  then show ?case
    using loop_split [OF n nl _ ne] Suc.prems(1) pow_half(1) [of h] by (simp add: add.commute)
qed

text \<open>
  C32. On a fresh arena a request above 2^30 units does not return -1: rounded and converted to
  \<^verbatim>\<open>int\<close> it is not positive, passes the size check, matches no level, and the search writes
  below the last level, outside the array.  (Above level 30 there is no result for another
  reason: \<^verbatim>\<open>1 << level\<close> overflows.)
\<close>

theorem buddy_alloc_overrun:
  assumes "2 ^ 30 < unat s"
  shows "buddy_alloc (buddy_new l) s = None"
proof -
  have s: "s \<noteq> 0" using assms by auto
  have "sint (next_pow_of_2 s) \<le> 0"
  proof (cases "unat s \<le> 2 ^ 31")
    case False
    with next_pow_of_2_rounds [OF s] show ?thesis by simp
  next
    case True
    with next_pow_of_2_rounds [OF s] obtain k where k: "k \<le> 31" "unat s \<le> 2 ^ k" "unat (next_pow_of_2 s) = 2 ^ k"
      by (auto simp: rounds_to_def)
    have "k = 31"
    proof (rule ccontr)
      assume "k \<noteq> 31"
      with k(1) have "(2 :: nat) ^ k \<le> 2 ^ 30" by (intro power_increasing) auto
      with k(2) assms show False by linarith
    qed
    with k(3) have "unat (next_pow_of_2 s) = unat (2 ^ 31 :: u32)" by simp
    then have "next_pow_of_2 s = 2 ^ 31" by (metis word_unat_eq_iff)
    then show ?thesis by simp
  qed
  moreover have "rep (tree (buddy_new l)) 1 Unused" "length (tree (buddy_new l)) = 2 ^ Suc l - 1"
    using buddy_new_tree by (simp_all add: buddy_new_def mult.commute)
  ultimately have "buddy_alloc_loop l (sint (next_pow_of_2 s)) (tree (buddy_new l)) (int 1 - 1) (int 0) (2 ^ l) = None"
    by (intro loop_overrun) simp_all
  moreover have "level (buddy_new l) = l" by (simp add: buddy_new_def)
  moreover have "\<not> sint (next_pow_of_2 s) > 2 ^ l"
    using \<open>sint (next_pow_of_2 s) \<le> 0\<close> by (metis leD order_trans zero_le_numeral zero_le_power not_le)
  ultimately show ?thesis by (simp add: buddy_alloc_def arena_length_def s)
qed

theorem buddy_alloc_overrun_witness: "buddy_alloc (buddy_new 10) 0x40000001 = None"
  by (rule buddy_alloc_overrun) simp

subsection \<open>The interface\<close>

definition buddy_block :: "buddy \<Rightarrow> nat \<Rightarrow> (nat \<times> buddy) option" where
  "buddy_block self k =
     (if 2 ^ 30 < k then None
      else case buddy_alloc self (of_nat k) of None \<Rightarrow> None
           | Some (r, self') \<Rightarrow> if r < 0 then None else Some (nat r, self'))"

lemma buddy_block:
  assumes "buddy_ok self" "buddy_block self k = Some (p, self')"
  shows "\<exists>s \<ge> k. buddy_ok self' \<and> in_use self' = insert (p, s) (in_use self) \<and> extent (p, s) \<inter> units (in_use self) = {}"
proof -
  have "unat (of_nat k :: u32) = k" "k \<le> 2 ^ 30" using assms(2)
    by (auto simp: buddy_block_def unat_of_nat_small split: if_splits)
  with buddy_alloc_step [OF assms(1), of "of_nat k"] assms(2) show ?thesis
    by (fastforce simp: buddy_block_def rounds_to_def split: if_splits)
qed

interpretation buddy: allocator buddy_block buddy_ok "\<lambda>self. units (in_use self)"
proof (unfold_locales, goal_cases)
  case (1 self k p self')
  have "k \<le> s \<Longrightarrow> extent (p, k) \<subseteq> extent (p, s)" for s by (auto simp: extent_def)
  then show ?case using buddy_block [OF 1] by blast
next
  case (2 self k p self')
  then show ?case using buddy_block [OF 2] by (auto simp: extent_def)
next
  case (3 self k p self')
  then show ?case using buddy_block [OF 3] by blast
qed

text \<open>
  Blocks obtained one after the other from a buddy arena never overlap.
\<close>

theorem buddy_blocks_disjoint:
  assumes "buddy_ok self" "alloc_many buddy_block self ks = Some (bs, self')"
    and "i < length bs" "j < length bs" "i \<noteq> j"
  shows "extent (bs ! i) \<inter> extent (bs ! j) = {}"
  using assms by (rule buddy.alloc_many_disjoint)

lemma example_many: "alloc_many buddy_block (buddy_new 1) [1, 1] =
  Some ([(0, 1), (1, 1)], \<lparr>level = 1, tree = [NODE_FULL, NODE_USED, NODE_USED]\<rparr>)"
proof -
  have "sint (next_pow_of_2 1) = 1" by (simp add: next_pow_of_2_def is_pow_of_2_def)
  then have "buddy_alloc example_buddy 1 = Some (1, \<lparr>level = 1, tree = [NODE_FULL, NODE_USED, NODE_USED]\<rparr>)"
    by (simp add: buddy_alloc_def arena_length_def example_buddy_def)
      (simp add: buddy_alloc_loop.simps mark_parent.simps tget_def tput_def buddy_index_def parent_index_def index_offset_def)
  then show ?thesis by (simp add: buddy_block_def example_alloc del: One_nat_def)
qed

theorem buddy_blocks_disjoint_witness: "extent ([(0, 1), (1, 1)] ! 0) \<inter> extent ([(0, 1), (1, 1)] ! 1) = {}"
  by (rule buddy_blocks_disjoint [OF _ example_many]) (use buddy_new_wf [of 1] in simp_all)

end
