(* ===== verification/Clock.thy ===== *)
theory Clock
  imports MemMgr
begin

text \<open>
  The node's Lamport clock (\<^verbatim>\<open>src/src/glue.cpp\<close>, \<open>LOCAL_CLOCK\<close>), advanced by compare-and-swap
  loops.  The loops are partial functions: \<open>None\<close> is a run that never returns.
\<close>

subsection \<open>Operations\<close>

definition getCurrentClock :: "platform \<Rightarrow> world \<Rightarrow> u64 \<times> world" where
  "getCurrentClock G w = (let w' = sync G w in (LOCAL_CLOCK w', w'))"

definition cas_clock :: "platform \<Rightarrow> u64 \<Rightarrow> u64 \<Rightarrow> world \<Rightarrow> bool \<times> world" where
  "cas_clock G old new w =
     (let w' = sync G w; (ok, c) = gasnett_cas G (LOCAL_CLOCK w') old new
      in (ok, w'\<lparr>LOCAL_CLOCK := c\<rparr>))"

partial_function (option) increase_loop :: "platform \<Rightarrow> u64 \<Rightarrow> nat \<Rightarrow> world \<Rightarrow> (bool \<times> world) option" where
  "increase_loop G new_clock tries w =
     (let (cur_clock, w1) = getCurrentClock G w;
          delta = new_clock - cur_clock
      in if sint delta > 0
         then let (ok, w2) = cas_clock G cur_clock (cur_clock + delta) w1
              in if ok then Some (True, w2) else increase_loop G new_clock (tries + 1) w2
         else Some (if tries > 0 then True else False, w1))"

definition increaseClock :: "platform \<Rightarrow> u64 \<Rightarrow> world \<Rightarrow> (bool \<times> world) option" where
  "increaseClock G new_clock w = increase_loop G new_clock 0 w"

partial_function (option) getNextClock :: "platform \<Rightarrow> world \<Rightarrow> (u64 \<times> world) option" where
  "getNextClock G w =
     (let (cur_clock, w1) = getCurrentClock G w;
          (ok, w2) = cas_clock G cur_clock (cur_clock + 1) w1
      in if ok then Some (cur_clock + 1, w2) else getNextClock G w2)"

subsection \<open>Interference\<close>

text \<open>
  Other threads of the node only ever advance the clock, and it stays below 2^63: versions have
  48 bits, so a clock that large is out of reach.
\<close>

definition clock_advances :: "platform \<Rightarrow> bool" where
  "clock_advances G \<longleftrightarrow> (\<forall>w. unat (LOCAL_CLOCK w) < 2 ^ 62 \<longrightarrow>
     unat (LOCAL_CLOCK w) \<le> unat (LOCAL_CLOCK (env G w)) \<and> unat (LOCAL_CLOCK (env G w)) < 2 ^ 62)"

text \<open>From some access on, no other thread moves the clock.\<close>

definition clock_settles :: "platform \<Rightarrow> nat \<Rightarrow> bool" where
  "clock_settles G T \<longleftrightarrow> (\<forall>w. T \<le> tick w \<longrightarrow> LOCAL_CLOCK (env G w) = LOCAL_CLOCK w)"

lemma sync_clock: "LOCAL_CLOCK (sync G w) = LOCAL_CLOCK (env G w)" "tick (sync G w) = Suc (tick w)"
  by (simp_all add: sync_def)

lemma clock_advancesD:
  "clock_advances G \<Longrightarrow> unat (LOCAL_CLOCK w) < 2 ^ 62 \<Longrightarrow> unat (LOCAL_CLOCK w) \<le> unat (LOCAL_CLOCK (sync G w))"
  "clock_advances G \<Longrightarrow> unat (LOCAL_CLOCK w) < 2 ^ 62 \<Longrightarrow> unat (LOCAL_CLOCK (sync G w)) < 2 ^ 62"
  by (auto simp: clock_advances_def sync_clock)

lemma sint_minus_pos:
  fixes a b :: u64
  assumes "unat a < 2 ^ 62" "unat b < 2 ^ 62"
  shows "sint (a - b) > 0 \<longleftrightarrow> unat b < unat a"
proof (cases "b \<le> a")
  case True
  then have u: "unat (a - b) = unat a - unat b" by (rule unat_minus_simple)
  then have "unat (a - b) < 2 ^ 63" using assms by simp
  then have "sint (a - b) = int (unat (a - b))" by (rule sint_small64)
  then show ?thesis by (simp add: u)
next
  case False
  then have less: "unat a < unat b" by (simp add: word_le_nat_alt)
  have "unat (a - b) = 2 ^ 64 - (unat b - unat a)"
    using less False by (simp add: unat_sub_if')
  then have "2 ^ 63 \<le> unat (a - b)" using assms by simp
  then have "sint (a - b) < 0" by (rule sint_neg64)
  with less show ?thesis by simp
qed

subsection \<open>What the loops establish when they return\<close>

lemma cas_clock_eq:
  "gasnet_api G \<Longrightarrow> cas_clock G old new w = (let w' = sync G w
     in if LOCAL_CLOCK w' = old then (True, w'\<lparr>LOCAL_CLOCK := new\<rparr>) else (False, w'))"
  by (simp add: cas_clock_def gasnet_api.gasnett_cas Let_def)

text \<open>The clock never goes back and stays in range: the frame of every loop iteration.\<close>

definition clock_up :: "world \<Rightarrow> world \<Rightarrow> bool" where
  "clock_up w w' \<longleftrightarrow> (unat (LOCAL_CLOCK w) < 2 ^ 62 \<longrightarrow>
     unat (LOCAL_CLOCK w) \<le> unat (LOCAL_CLOCK w') \<and> unat (LOCAL_CLOCK w') < 2 ^ 62)"

lemma clock_up_sync: "clock_advances G \<Longrightarrow> clock_up w (sync G w)"
  unfolding clock_up_def using clock_advancesD by blast

lemma clock_up_trans: "clock_up w1 w2 \<Longrightarrow> clock_up w2 w3 \<Longrightarrow> clock_up w1 w3"
  unfolding clock_up_def using order_trans by blast

lemma increase_loop_post:
  assumes "increase_loop G new tries w = Some r" "gasnet_api G" "clock_advances G"
    "unat new < 2 ^ 62" "unat (LOCAL_CLOCK w) < 2 ^ 62"
  shows "clock_up w (snd r) \<and> unat new \<le> unat (LOCAL_CLOCK (snd r)) \<and>
    (fst r \<or> tries = 0 \<and> snd r = sync G w)"
  using assms
proof (induction G new tries w r rule: increase_loop.raw_induct [rotated, consumes 1, case_names loop])
  case (loop f G new tries w r)
  let ?w1 = "sync G w" and ?w2 = "sync G (sync G w)"
  have up: "clock_up w ?w1" "clock_up w ?w2"
    using clock_up_sync [OF loop.prems(2)] clock_up_trans by blast+
  have r1: "unat (LOCAL_CLOCK ?w1) < 2 ^ 62" "unat (LOCAL_CLOCK ?w2) < 2 ^ 62"
    "unat (LOCAL_CLOCK w) \<le> unat (LOCAL_CLOCK ?w1)"
    using up loop.prems(4) by (auto simp: clock_up_def)
  note pos = sint_minus_pos [OF loop.prems(3) r1(1)]
  show ?case
  proof (cases "sint (new - LOCAL_CLOCK ?w1) > 0")
    case False
    then have r: "r = (tries > 0, ?w1)" using loop(2) by (auto simp: getCurrentClock_def Let_def split: if_splits)
    have "unat new \<le> unat (LOCAL_CLOCK ?w1)" using False pos by simp
    then show ?thesis using up(1) by (auto simp: r)
  next
    case p: True
    show ?thesis
    proof (cases "LOCAL_CLOCK ?w2 = LOCAL_CLOCK ?w1")
      case True
      with loop(2) loop.prems(1) p have "r = (True, ?w2\<lparr>LOCAL_CLOCK := new\<rparr>)"
        by (simp add: getCurrentClock_def Let_def cas_clock_eq)
      then show ?thesis using p pos loop.prems(3,4) r1 by (simp add: clock_up_def)
    next
      case False
      with loop(2) loop.prems(1) p have f: "f G new (tries + 1) ?w2 = Some r"
        by (simp add: getCurrentClock_def Let_def cas_clock_eq)
      from loop(1) [OF f loop.prems(1-3) r1(2)] clock_up_trans [OF up(2)] show ?thesis by auto
    qed
  qed
qed

subsection \<open>Without interference\<close>

lemma quiet_settles: "quiet_api G \<Longrightarrow> clock_settles G 0"
  by (simp add: clock_settles_def quiet_api.quiet)

lemma quiet_advances: "quiet_api G \<Longrightarrow> clock_advances G"
  by (simp add: clock_advances_def quiet_api.quiet)

lemma increaseClock_quiet:
  assumes Q: "quiet_api G" and c: "unat new < 2 ^ 62" "unat (LOCAL_CLOCK w) < 2 ^ 62"
  shows "\<exists>b t. increaseClock G new w = Some (b, w\<lparr>LOCAL_CLOCK := max new (LOCAL_CLOCK w), tick := t\<rparr>)"
proof -
  have G: "gasnet_api G" using Q by (rule quiet_api.axioms)
  note q = quiet_api.sync_quiet [OF Q]
  show ?thesis
  proof (cases "LOCAL_CLOCK w < new")
    case True
    then show ?thesis using sint_minus_pos [OF c]
      unfolding increaseClock_def
      by (subst increase_loop.simps)
        (auto simp: getCurrentClock_def Let_def cas_clock_eq [OF G] q word_less_nat_alt max_def word_le_nat_alt
          intro!: exI [of _ True] exI [of _ "Suc (Suc (tick w))"])
  next
    case False
    then have "max new (LOCAL_CLOCK w) = LOCAL_CLOCK w" by (simp add: max_def not_less)
    then have eq: "w\<lparr>LOCAL_CLOCK := max new (LOCAL_CLOCK w), tick := t\<rparr> = w\<lparr>tick := t\<rparr>" for t by simp
    show ?thesis using sint_minus_pos [OF c] False
      unfolding increaseClock_def eq
      by (subst increase_loop.simps)
        (auto simp: getCurrentClock_def Let_def q word_less_nat_alt intro: exI [of _ "Suc (tick w)"])
  qed
qed

lemma getNextClock_quiet:
  assumes Q: "quiet_api G"
  shows "getNextClock G w = Some (LOCAL_CLOCK w + 1, w\<lparr>LOCAL_CLOCK := LOCAL_CLOCK w + 1, tick := Suc (Suc (tick w))\<rparr>)"
  using quiet_api.axioms [OF Q]
  by (subst getNextClock.simps)
    (simp add: getCurrentClock_def Let_def cas_clock_eq quiet_api.sync_quiet [OF Q])

definition example_world :: "u64 \<Rightarrow> world" where
  "example_world c = \<lparr>mem = (\<lambda>n a. 0), LOCAL_CLOCK = c, globalCache = \<lparr>i_map = [], cl_pow = 6\<rparr>, tick = 0\<rparr>"

subsection \<open>The guarantees\<close>

text \<open>
  C17. When \<^verbatim>\<open>increaseClock\<close> returns, the clock is at least the value requested and has not gone
  back, whatever the other threads of the node did meanwhile; it reports \<open>false\<close> only when the
  clock was already there at its first look.
\<close>

theorem increaseClock_reaches:
  assumes "gasnet_api G" "clock_advances G" "increaseClock G new w = Some (b, w')"
    and "unat new < 2 ^ 62" "unat (LOCAL_CLOCK w) < 2 ^ 62"
  shows "unat new \<le> unat (LOCAL_CLOCK w') \<and> unat (LOCAL_CLOCK w) \<le> unat (LOCAL_CLOCK w') \<and>
    (\<not> b \<longrightarrow> unat new \<le> unat (LOCAL_CLOCK (sync G w)))"
  using increase_loop_post [of G new 0 w "(b, w')"] assms
  by (auto simp: increaseClock_def clock_up_def)

theorem increaseClock_reaches_witness:
  "\<exists>b w'. increaseClock (example_platform True False) 5 (example_world 3) = Some (b, w') \<and>
    unat (5 :: u64) \<le> unat (LOCAL_CLOCK w') \<and> unat (LOCAL_CLOCK (example_world 3)) \<le> unat (LOCAL_CLOCK w')"
proof -
  obtain b t where "increaseClock (example_platform True False) 5 (example_world 3) =
      Some (b, (example_world 3)\<lparr>LOCAL_CLOCK := max 5 (LOCAL_CLOCK (example_world 3)), tick := t\<rparr>)"
    using increaseClock_quiet [OF example_quiet [of True False], of 5 "example_world 3"]
    by (auto simp: example_world_def)
  with increaseClock_reaches [OF example_api quiet_advances [OF example_quiet] this]
  show ?thesis by (auto simp: example_world_def)
qed

lemma getNextClock_post:
  assumes "getNextClock G w = Some r" "gasnet_api G" "clock_advances G"
    "unat (LOCAL_CLOCK w) < 2 ^ 62"
  shows "unat (LOCAL_CLOCK w) < unat (fst r) \<and> fst r = LOCAL_CLOCK (snd r) \<and> unat (fst r) \<le> 2 ^ 62"
  using assms
proof (induction G w r rule: getNextClock.raw_induct [rotated, consumes 1, case_names loop])
  case (loop f G w r)
  let ?w1 = "sync G w" and ?w2 = "sync G (sync G w)"
  have up: "clock_up w ?w1" "clock_up w ?w2"
    using clock_up_sync [OF loop.prems(2)] clock_up_trans by blast+
  have r1: "unat (LOCAL_CLOCK ?w1) < 2 ^ 62" "unat (LOCAL_CLOCK ?w2) < 2 ^ 62"
    "unat (LOCAL_CLOCK w) \<le> unat (LOCAL_CLOCK ?w1)" "unat (LOCAL_CLOCK w) \<le> unat (LOCAL_CLOCK ?w2)"
    using up loop.prems(3) by (auto simp: clock_up_def)
  show ?case
  proof (cases "LOCAL_CLOCK ?w2 = LOCAL_CLOCK ?w1")
    case True
    with loop(2) loop.prems(1) have r: "r = (LOCAL_CLOCK ?w1 + 1, ?w2\<lparr>LOCAL_CLOCK := LOCAL_CLOCK ?w1 + 1\<rparr>)"
      by (simp add: getCurrentClock_def Let_def cas_clock_eq)
    have "unat (LOCAL_CLOCK ?w1 + 1) = unat (LOCAL_CLOCK ?w1) + 1"
      using r1(1) by (subst unat_plus_simple) auto
    then show ?thesis using r1 by (simp add: r)
  next
    case False
    with loop(2) loop.prems(1) have f: "f G ?w2 = Some r"
      by (simp add: getCurrentClock_def Let_def cas_clock_eq)
    from loop(1) [OF f loop.prems(1,2) r1(2)] r1(4) show ?thesis by linarith
  qed
qed

text \<open>
  \<^verbatim>\<open>getNextClock\<close> returns a value above everything the clock showed before, and leaves the
  clock at this value: no two calls on a node return the same number.
\<close>

theorem getNextClock_fresh:
  assumes "gasnet_api G" "clock_advances G" "getNextClock G w = Some (c, w')" "unat (LOCAL_CLOCK w) < 2 ^ 62"
  shows "unat (LOCAL_CLOCK w) < unat c \<and> c = LOCAL_CLOCK w'"
  using getNextClock_post [of G w "(c, w')"] assms by auto

theorem getNextClock_fresh_witness:
  "unat (LOCAL_CLOCK (example_world 3)) < unat (4 :: u64) \<and> 4 = LOCAL_CLOCK ((example_world 3)\<lparr>LOCAL_CLOCK := 4, tick := 2\<rparr>)"
  by (rule getNextClock_fresh [OF example_api quiet_advances [OF example_quiet]])
    (simp_all add: getNextClock_quiet [OF example_quiet] example_world_def)

subsection \<open>The loops return\<close>

lemma sync_settled: "clock_settles G T \<Longrightarrow> T \<le> tick w \<Longrightarrow> LOCAL_CLOCK (sync G w) = LOCAL_CLOCK w"
  by (simp add: clock_settles_def sync_clock)

lemma increase_loop_returns:
  assumes "gasnet_api G" "clock_settles G T"
  shows "increase_loop G new tries w \<noteq> None"
proof (induction "T - tick w" arbitrary: tries w rule: less_induct)
  case less
  let ?w2 = "sync G (sync G w)"
  show ?case
  proof (cases "T \<le> tick w")
    case True
    then have "LOCAL_CLOCK ?w2 = LOCAL_CLOCK (sync G w)"
      by (intro sync_settled [OF assms(2)]) (simp add: sync_clock)
    then show ?thesis
      by (subst increase_loop.simps) (auto simp: getCurrentClock_def Let_def cas_clock_eq [OF assms(1)])
  next
    case False
    then have "T - tick ?w2 < T - tick w" by (simp add: sync_clock)
    then have IH: "increase_loop G new n ?w2 \<noteq> None" for n by (rule less)
    show ?thesis
      by (subst increase_loop.simps)
        (use IH in \<open>auto simp: getCurrentClock_def Let_def cas_clock_eq [OF assms(1)]\<close>)
  qed
qed

lemma getNextClock_returns:
  assumes "gasnet_api G" "clock_settles G T"
  shows "getNextClock G w \<noteq> None"
proof (induction "T - tick w" arbitrary: w rule: less_induct)
  case less
  let ?w2 = "sync G (sync G w)"
  show ?case
  proof (cases "T \<le> tick w")
    case True
    then have "LOCAL_CLOCK ?w2 = LOCAL_CLOCK (sync G w)"
      by (intro sync_settled [OF assms(2)]) (simp add: sync_clock)
    then show ?thesis
      by (subst getNextClock.simps) (simp add: getCurrentClock_def Let_def cas_clock_eq [OF assms(1)])
  next
    case False
    then have "T - tick ?w2 < T - tick w" by (simp add: sync_clock)
    then have IH: "getNextClock G ?w2 \<noteq> None" by (rule less)
    show ?thesis
      by (subst getNextClock.simps)
        (use IH in \<open>auto simp: getCurrentClock_def Let_def cas_clock_eq [OF assms(1)]\<close>)
  qed
qed

text \<open>
  C18. Both loops return once the other threads leave the clock alone: a failed
  compare-and-swap always means that another thread has advanced the clock.
\<close>

theorem clock_loops_return:
  assumes "gasnet_api G" "clock_settles G T"
  shows "(\<exists>b w'. increaseClock G new w = Some (b, w')) \<and> (\<exists>c w'. getNextClock G w = Some (c, w'))"
  using increase_loop_returns [OF assms, of new 0 w] getNextClock_returns [OF assms, of w]
  by (auto simp: increaseClock_def)

theorem clock_loops_return_witness:
  "(\<exists>b w'. increaseClock (example_platform True False) 5 (example_world 3) = Some (b, w')) \<and>
   (\<exists>c w'. getNextClock (example_platform True False) (example_world 3) = Some (c, w'))"
  by (rule clock_loops_return [OF example_api quiet_settles [OF example_quiet]])

end
