(* ===== verification/VersionCache.thy ===== *)
theory VersionCache
  imports Clock
begin

text \<open>
  The class \<^verbatim>\<open>DSTMGASNetCache\<close> (\<^verbatim>\<open>src/src/dstm_cache.cpp\<close>, \<^verbatim>\<open>src/src/dstm_cache_impl.h\<close>): the
  table of the newest versions a node has seen, and the reads of an object under its versioned
  lock word: the word is read before and after the data, and the read is repeated until both
  agree.
\<close>

subsection \<open>The table of versions\<close>

definition addVersionToCache :: "u64 \<Rightarrow> u64 \<Rightarrow> dstm_cache \<Rightarrow> dstm_cache" where
  "addVersionToCache addr version c =
     (if locked version then c
      else case map_of (i_map c) addr of
        Some v \<Rightarrow>
          if isTimestampGreater version v \<or> (locked version \<and> isTimestampsEqual version v)
          then c\<lparr>i_map := AList.update addr version (i_map c)\<rparr> else c
      | None \<Rightarrow> c\<lparr>i_map := AList.update addr version (i_map c)\<rparr>)"

definition getCachedVersion :: "u64 \<Rightarrow> dstm_cache \<Rightarrow> u64" where
  "getCachedVersion addr c = (case map_of (i_map c) addr of Some v \<Rightarrow> v | None \<Rightarrow> 0)"

definition cache_add :: "platform \<Rightarrow> u64 \<Rightarrow> u64 \<Rightarrow> world \<Rightarrow> world" where
  "cache_add G addr version w =
     (let w' = sync G w in w'\<lparr>globalCache := addVersionToCache addr version (globalCache w')\<rparr>)"

definition cache_get :: "platform \<Rightarrow> u64 \<Rightarrow> world \<Rightarrow> u64 \<times> world" where
  "cache_get G addr w = (let w' = sync G w in (getCachedVersion addr (globalCache w'), w'))"

definition getVersion :: "platform \<Rightarrow> u64 \<Rightarrow> world \<Rightarrow> u64 \<times> world" where
  "getVersion G addr w =
     (let w' = sync G w
      in (u64_of_bytes (gasnet_get G (mem w') (unat (NODE_FROM_ADDRESS addr)) (ADDR_FROM_ADDRESS addr) 8), w'))"

text \<open>The invalidation and the membership test are disabled in the sources, their bodies commented out.\<close>

definition invalidate :: "u64 \<Rightarrow> u64 \<Rightarrow> dstm_cache \<Rightarrow> dstm_cache" where
  "invalidate addr version c = c"

definition inCache :: "u64 \<Rightarrow> dstm_cache \<Rightarrow> bool" where
  "inCache addr c = False"

definition setCacheLine :: "nat \<Rightarrow> dstm_cache \<Rightarrow> dstm_cache" where
  "setCacheLine p c = c\<lparr>cl_pow := p\<rparr>"

subsection \<open>Reading an object\<close>

text \<open>
  An entry of a read or write set: 8 bytes for the timestamp, then a copy of the block.  A read
  of \<open>k\<close> bytes at offset \<open>i\<close> of the copy has no value when it leaves the copy (the memory behind
  it is not the entry's).
\<close>

record entry =
  ent_ts :: u64
  ent_data :: "u8 list"

definition slice :: "nat \<Rightarrow> nat \<Rightarrow> 'a list \<Rightarrow> 'a list option" where
  "slice i k xs = (if i + k \<le> length xs then Some (take k (drop i xs)) else None)"

definition read_word :: "platform \<Rightarrow> nat \<Rightarrow> u64 \<Rightarrow> world \<Rightarrow> u64 \<times> world" where
  "read_word G n a w = (let (bs, w') = fetch G n a 8 w in (u64_of_bytes bs, w'))"

text \<open>
  The loop of \<^verbatim>\<open>readCell\<close>, the same on the own node and on others up to the way memory is
  accessed.  It returns the timestamp and, unless the lock bit was seen, the \<open>k\<close> bytes at \<open>a\<close>.
\<close>

partial_function (option) readCell_loop ::
  "platform \<Rightarrow> nat \<Rightarrow> u64 \<Rightarrow> u64 \<Rightarrow> nat \<Rightarrow> world \<Rightarrow> ((u64 \<times> u8 list option) \<times> world) option" where
  "readCell_loop G n l a k w =
     (let (version, w1) = read_word G n l w
      in if locked version then Some ((version, None), w1)
         else let (bs, w2) = fetch_block G n a k w1;
                  (version2, w3) = read_word G n l w2
              in if locked version2 then Some ((version2, None), w3)
                 else if \<not> isTimestampsEquivalent version version2 then readCell_loop G n l a k w3
                 else Some ((version, Some bs), w3))"

text \<open>
  \<open>readCell\<close> for a type of \<open>k\<close> bytes, with or without an entry to fill (\<open>copy\<close>).  The result is
  the value (\<open>None\<close> when it is read outside the copy), the timestamp and the filled entry; the
  code returns the value 0 when the object is locked.
\<close>

definition readCell ::
  "platform \<Rightarrow> nat \<Rightarrow> bool \<Rightarrow> u64 \<Rightarrow> u64 \<Rightarrow> world \<Rightarrow> ((u8 list option \<times> u64 \<times> entry option) \<times> world) option" where
  "readCell G k copy addr lock_addr w =
     (let cl = cl_pow (globalCache w);
          low_bound = push_bit cl (drop_bit cl (ADDR_FROM_ADDRESS addr));
          node = unat (NODE_FROM_ADDRESS addr);
          l = ADDR_FROM_ADDRESS lock_addr
      in case (if copy then readCell_loop G node l low_bound (2 ^ cl) w
               else readCell_loop G node l (ADDR_FROM_ADDRESS addr) k w) of
           None \<Rightarrow> None
         | Some ((version, None), w') \<Rightarrow> Some ((Some (replicate k 0), version, None), w')
         | Some ((version, Some bs), w') \<Rightarrow>
             Some (if copy
                   then ((slice (unat (ADDR_FROM_ADDRESS addr - low_bound)) k bs, version,
                          Some \<lparr>ent_ts = version, ent_data = bs\<rparr>), w')
                   else ((Some bs, version, None), w')))"

text \<open>
  The older entry point \<open>get\<close> of builds without \<^verbatim>\<open>CACHE\<close>.  It compares the whole lock words, and
  leaves the loop with whatever the buffer holds when it meets the lock bit: header and data of
  the buffer are \<open>None\<close> as long as nothing was stored there.
\<close>

partial_function (option) get_loop ::
  "platform \<Rightarrow> nat \<Rightarrow> u64 \<Rightarrow> u64 \<Rightarrow> nat \<Rightarrow> u64 option \<times> u8 list option \<Rightarrow> world \<Rightarrow>
   ((u64 \<times> u64 option \<times> u8 list option) \<times> world) option" where
  "get_loop G n l a k buf w =
     (let (version, w1) = read_word G n l w;
          buf1 = (if n = gasnet_mynode G then buf else (Some version, snd buf))
      in if locked version then Some ((version, buf1), w1)
         else let (bs, w2) = fetch_block G n a k w1;
                  (version2, w3) = read_word G n l w2
              in if locked version2 then Some ((version2, Some version2, Some bs), w3)
                 else if version \<noteq> version2 then get_loop G n l a k (Some version, Some bs) w3
                 else Some ((version, Some version, Some bs), w3))"

definition get ::
  "platform \<Rightarrow> nat \<Rightarrow> bool \<Rightarrow> u64 \<Rightarrow> u64 \<Rightarrow> world \<Rightarrow>
   ((u8 list option \<times> u64 \<times> (u64 option \<times> u8 list option) option) \<times> world) option" where
  "get G k copy addr lock_addr w =
     (let cl = cl_pow (globalCache w);
          low_bound = push_bit cl (drop_bit cl (addr AND ADDRESS_MASK));
          node = unat (drop_bit 48 (NODE_MASK AND addr));
          l = lock_addr AND ADDRESS_MASK;
          block = (node = gasnet_mynode G \<or> copy)
      in case (if block then get_loop G node l low_bound (2 ^ cl) (None, None) w
               else get_loop G node l (addr AND ADDRESS_MASK) k (None, None) w) of
           None \<Rightarrow> None
         | Some ((version, hdr, data), w') \<Rightarrow>
             Some ((if block
                    then Option.bind data (slice (unat ((addr AND ADDRESS_MASK) - low_bound)) k)
                    else data,
                    version, if copy then Some (hdr, data) else None), w'))"

subsection \<open>The table holds the newest unlocked versions\<close>

definition cache_ok :: "dstm_cache \<Rightarrow> bool" where
  "cache_ok c \<longleftrightarrow> distinct (map fst (i_map c)) \<and> (\<forall>v \<in> snd ` set (i_map c). \<not> locked v)"

lemma cache_ok_lookup: "cache_ok c \<Longrightarrow> map_of (i_map c) a = Some v \<Longrightarrow> \<not> locked v"
  unfolding cache_ok_def by (metis image_iff map_of_SomeD snd_conv)

lemma cache_ok_update:
  assumes "cache_ok c" "\<not> locked v"
  shows "cache_ok (c\<lparr>i_map := AList.update a v (i_map c)\<rparr>)"
proof -
  have d: "distinct (map fst (AList.update a v (i_map c)))"
    using assms(1) by (simp add: cache_ok_def distinct_update)
  have "\<not> locked x" if "(b, x) \<in> set (AList.update a v (i_map c))" for b x
  proof -
    from map_of_is_SomeI [OF d that] assms cache_ok_lookup show ?thesis by (auto split: if_splits)
  qed
  with d show ?thesis by (auto simp: cache_ok_def)
qed

text \<open>
  C19. Recording a version keeps the newest one: the recorded version of the object becomes
  the maximum of the old and the new, a locked word is never recorded, other objects keep
  theirs.
\<close>

theorem addVersionToCache_newest:
  assumes "cache_ok c"
  shows "cache_ok (addVersionToCache a v c) \<and>
    VERSION_TS (getCachedVersion a (addVersionToCache a v c)) =
      (if locked v then VERSION_TS (getCachedVersion a c)
       else max (VERSION_TS v) (VERSION_TS (getCachedVersion a c))) \<and>
    (\<forall>b. b \<noteq> a \<longrightarrow> getCachedVersion b (addVersionToCache a v c) = getCachedVersion b c)"
proof -
  have "VERSION_TS 0 = 0" by (simp add: VERSION_TS_def)
  with cache_ok_update [OF assms, of v a] assms show ?thesis
    by (auto simp: addVersionToCache_def getCachedVersion_def isTimestampGreater_def max_def split: option.splits)
qed

definition example_cache :: dstm_cache where
  "example_cache = \<lparr>i_map = [(0x210040, 5), (0x210080, 7)], cl_pow = 6\<rparr>"

lemma example_cache_ok: "cache_ok example_cache"
  by (simp add: cache_ok_def example_cache_def LOCKBIT_TS_def)

theorem addVersionToCache_newest_witness:
  "cache_ok (addVersionToCache 0x210040 6 example_cache) \<and>
    VERSION_TS (getCachedVersion 0x210040 (addVersionToCache 0x210040 6 example_cache)) =
      (if locked 6 then VERSION_TS (getCachedVersion 0x210040 example_cache)
       else max (VERSION_TS 6) (VERSION_TS (getCachedVersion 0x210040 example_cache))) \<and>
    getCachedVersion 0x210080 (addVersionToCache 0x210040 6 example_cache) = getCachedVersion 0x210080 example_cache"
  using addVersionToCache_newest [OF example_cache_ok, of "0x210040" 6] by simp

subsection \<open>Reads see one committed state of the object\<close>

text \<open>
  The locking discipline of the other threads, for an object with lock word at \<open>l\<close> and \<open>k\<close> bytes
  at \<open>a\<close> of node \<open>n\<close>.  \<open>C v\<close> is the content the object has at version \<open>v\<close>.  While the word is
  unlocked the memory holds the content of its version; versions only grow; and once the content
  has been changed (under the lock) it stays changed until the version grows.
\<close>

definition obj_version :: "nat \<Rightarrow> u64 \<Rightarrow> memory \<Rightarrow> u64" where
  "obj_version n l m = VERSION_TS (load64 m n l)"

definition committed :: "(u64 \<Rightarrow> u8 list) \<Rightarrow> nat \<Rightarrow> u64 \<Rightarrow> u64 \<Rightarrow> nat \<Rightarrow> memory \<Rightarrow> bool" where
  "committed C n l a k m \<longleftrightarrow> load_bytes m n a k = C (obj_version n l m)"

definition obj_ok :: "(u64 \<Rightarrow> u8 list) \<Rightarrow> nat \<Rightarrow> u64 \<Rightarrow> u64 \<Rightarrow> nat \<Rightarrow> memory \<Rightarrow> bool" where
  "obj_ok C n l a k m \<longleftrightarrow> (\<not> locked (load64 m n l) \<longrightarrow> committed C n l a k m)"

definition obj_step :: "(u64 \<Rightarrow> u8 list) \<Rightarrow> nat \<Rightarrow> u64 \<Rightarrow> u64 \<Rightarrow> nat \<Rightarrow> memory \<Rightarrow> memory \<Rightarrow> bool" where
  "obj_step C n l a k m m' \<longleftrightarrow> obj_version n l m \<le> obj_version n l m' \<and>
     (\<not> committed C n l a k m \<and> obj_version n l m' = obj_version n l m \<longrightarrow> \<not> committed C n l a k m')"

definition disciplined :: "platform \<Rightarrow> (u64 \<Rightarrow> u8 list) \<Rightarrow> nat \<Rightarrow> u64 \<Rightarrow> u64 \<Rightarrow> nat \<Rightarrow> bool" where
  "disciplined G C n l a k \<longleftrightarrow> (\<forall>w. obj_ok C n l a k (mem w) \<longrightarrow>
     obj_ok C n l a k (mem (env G w)) \<and> obj_step C n l a k (mem w) (mem (env G w)))"

lemma obj_step_refl: "obj_step C n l a k m m"
  by (simp add: obj_step_def)

lemma obj_step_trans: "obj_step C n l a k m m' \<Longrightarrow> obj_step C n l a k m' m'' \<Longrightarrow> obj_step C n l a k m m''"
  unfolding obj_step_def by (metis order_antisym order_trans)

lemma disciplined_sync:
  assumes "disciplined G C n l a k" "obj_ok C n l a k (mem w)"
  shows "obj_ok C n l a k (mem (sync G w))" "obj_step C n l a k (mem w) (mem (sync G w))"
  using assms by (auto simp: disciplined_def sync_def)

lemma fetch_block_trace:
  assumes G: "gasnet_api G" and D: "disciplined G C n l a k" and a': "unat a' + j \<le> 2 ^ 64"
    and "obj_ok C n l a k (mem w)" "fetch_block G n' a' j w = (bs, w')"
  shows "obj_ok C n l a k (mem w') \<and> obj_step C n l a k (mem w) (mem w') \<and>
    length bs = j \<and> (\<forall>i < j. \<exists>m. obj_step C n l a k (mem w) m \<and> obj_step C n l a k m (mem w') \<and>
      bs ! i = m n' (unat a' + i))"
  using a' assms(4,5)
proof (induction j arbitrary: bs w')
  case 0
  then show ?case by (simp add: obj_step_refl)
next
  case (Suc j)
  obtain bs1 w1 where f: "fetch_block G n' a' j w = (bs1, w1)" by force
  from Suc.IH [OF _ Suc.prems(2) f] Suc.prems(1) have IH: "obj_ok C n l a k (mem w1)"
    "obj_step C n l a k (mem w) (mem w1)" "length bs1 = j"
    "\<forall>i < j. \<exists>m. obj_step C n l a k (mem w) m \<and> obj_step C n l a k m (mem w1) \<and> bs1 ! i = m n' (unat a' + i)"
    by auto
  have "unat (a' + of_nat j) = unat a' + j"
    using Suc.prems(1) by (subst unat_plus_simple) (auto simp: unsigned_of_nat take_bit_nat_def)
  then have r: "bs = bs1 @ [mem (sync G w1) n' (unat a' + j)]" "w' = sync G w1"
    using Suc.prems(3) f by (auto simp: gasnet_api.fetch_eq [OF G] load_bytes_def)
  note S = disciplined_sync [OF D IH(1), folded r(2)]
  have "\<exists>m. obj_step C n l a k (mem w) m \<and> obj_step C n l a k m (mem w') \<and> bs ! i = m n' (unat a' + i)"
    if "i < Suc j" for i
  proof (cases "i = j")
    case True
    then show ?thesis using r IH(3) obj_step_trans [OF IH(2) S(2)] obj_step_refl
      by (intro exI [of _ "mem w'"]) (simp add: nth_append)
  next
    case False
    with that have "i < j" by simp
    with IH(3,4) S(2) show ?thesis using obj_step_trans by (simp add: r(1) nth_append) blast
  qed
  with S(1) obj_step_trans [OF IH(2) S(2)] IH(3) r(1) show ?case by simp
qed

lemma read_word_eq: "gasnet_api G \<Longrightarrow> read_word G n l w = (load64 (mem (sync G w)) n l, sync G w)"
  by (simp add: read_word_def gasnet_api.fetch_eq load64_def)

lemma readCell_loop_snapshot:
  assumes "readCell_loop G n l a k w = Some ((version, Some bs), w')" "gasnet_api G"
    and "disciplined G C n l a k" "obj_ok C n l a k (mem w)" "unat a + k \<le> 2 ^ 64"
  shows "\<not> locked version \<and> bs = C (VERSION_TS version)"
proof -
  have "\<And>version bs w'. r = ((version, Some bs), w') \<Longrightarrow> \<not> locked version \<and> bs = C (VERSION_TS version)"
    if "readCell_loop G n l a k w = Some r" "gasnet_api G" "disciplined G C n l a k"
      "obj_ok C n l a k (mem w)" "unat a + k \<le> 2 ^ 64" for r
    using that
  proof (induction G n l a k w r rule: readCell_loop.raw_induct [rotated, consumes 1, case_names loop])
    case (loop f G n l a k w r)
    obtain bs1 w2 where f: "fetch_block G n a k (sync G w) = (bs1, w2)" by force
    note S = disciplined_sync [OF loop.prems(3,4)]
    from fetch_block_trace [OF loop.prems(2,3,5) S(1) f] have T: "obj_ok C n l a k (mem w2)" "length bs1 = k"
      "\<forall>i < k. \<exists>m. obj_step C n l a k (mem (sync G w)) m \<and> obj_step C n l a k m (mem w2) \<and> bs1 ! i = m n (unat a + i)"
      by blast+
    note S2 = disciplined_sync [OF loop.prems(3) T(1)]
    let ?v1 = "load64 (mem (sync G w)) n l" and ?v2 = "load64 (mem (sync G w2)) n l"
    note body = loop(2) [unfolded read_word_eq [OF loop.prems(2)] f Let_def prod.case]
    have l1: "\<not> locked ?v1" and l2: "\<not> locked ?v2" using body loop.prems(1) by (auto split: if_splits)
    show ?case
    proof (cases "isTimestampsEquivalent ?v1 ?v2")
      case False
      with body l1 l2 have "f G n l a k (sync G w2) = Some r" by simp
      from loop(1) [OF this loop.prems(1,2,3) S2(1) loop.prems(5)] show ?thesis .
    next
      case True
      with body l1 l2 loop.prems(1) have r: "version = ?v1" "bs = bs1" by auto
      have ver: "obj_version n l (mem (sync G w2)) = obj_version n l (mem (sync G w))"
        using True by (simp add: isTimestampsEquivalent_def obj_version_def split: if_splits)
      have fin: "committed C n l a k (mem (sync G w2))" using S2(1) l2 by (simp add: obj_ok_def)
      have "bs1 ! i = C (VERSION_TS version) ! i" if i: "i < k" for i
      proof -
        obtain m where m: "obj_step C n l a k (mem (sync G w)) m" "obj_step C n l a k m (mem w2)"
          "bs1 ! i = m n (unat a + i)" using T(3) i by blast
        have m2: "obj_step C n l a k m (mem (sync G w2))" by (rule obj_step_trans [OF m(2) S2(2)])
        have vm: "obj_version n l m = obj_version n l (mem (sync G w))"
          using m(1) m2 ver unfolding obj_step_def by (metis order_antisym)
        with m2 fin ver have "committed C n l a k m" unfolding obj_step_def by metis
        then have "load_bytes m n a k = C (VERSION_TS version)" using vm r(1) by (simp add: committed_def obj_version_def)
        then show ?thesis using m(3) nth_load_bytes [OF i, of m n a] by simp
      qed
      moreover have "length (C (VERSION_TS version)) = k"
        using fin ver r(1) by (metis committed_def length_load_bytes obj_version_def)
      ultimately show ?thesis using l1 r T(2) by (auto intro: nth_equalityI)
    qed
  qed
  with assms show ?thesis by blast
qed


subsection \<open>Reads without interference\<close>

lemma readCell_loop_quiet:
  assumes Q: "quiet_api G" and a: "unat a + k \<le> 2 ^ 64"
  shows "\<exists>t. readCell_loop G n l a k w =
    Some ((load64 (mem w) n l, if locked (load64 (mem w) n l) then None else Some (load_bytes (mem w) n a k)), w\<lparr>tick := t\<rparr>)"
proof -
  note q = quiet_api.sync_quiet [OF Q] read_word_eq [OF quiet_api.axioms(1) [OF Q]]
  show ?thesis
    by (subst readCell_loop.simps)
      (auto simp: q quiet_api.fetch_block_quiet [OF Q a] isTimestampsEquivalent_def Let_def
        intro: exI [of _ "Suc (tick w)"])
qed

lemma readCell_quiet:
  assumes Q: "quiet_api G" and cl: "cl_pow (globalCache w) = 6" and v: "v = load64 (mem w) (unat (NODE_FROM_ADDRESS addr)) (ADDR_FROM_ADDRESS lock_addr)"
    and b: "b = load_bytes (mem w) (unat (NODE_FROM_ADDRESS addr)) (block_lb (ADDR_FROM_ADDRESS addr)) 64"
  shows "\<exists>t. readCell G k True addr lock_addr w =
    Some (if locked v then (Some (replicate k 0), v, None)
          else (slice (unat (ADDR_FROM_ADDRESS addr - block_lb (ADDR_FROM_ADDRESS addr))) k b, v,
                Some \<lparr>ent_ts = v, ent_data = b\<rparr>), w\<lparr>tick := t\<rparr>)"
proof -
  have "unat (block_lb (ADDR_FROM_ADDRESS addr)) + 64 \<le> 2 ^ 64"
    using ADDR_less [of addr] unat_block_lb [of "ADDR_FROM_ADDRESS addr"]
      div_times_less_eq_dividend [of "unat (ADDR_FROM_ADDRESS addr)" 64] by simp
  from readCell_loop_quiet [OF Q this, of "unat (NODE_FROM_ADDRESS addr)" "ADDR_FROM_ADDRESS lock_addr" w]
  obtain t where "readCell_loop G (unat (NODE_FROM_ADDRESS addr)) (ADDR_FROM_ADDRESS lock_addr) (block_lb (ADDR_FROM_ADDRESS addr)) 64 w =
    Some ((v, if locked v then None else Some b), w\<lparr>tick := t\<rparr>)"
    using v b by auto
  then show ?thesis
    by (auto simp: readCell_def Let_def cl block_lb_def CDU_SIZE_def)
qed

lemma quiet_disciplined: "quiet_api G \<Longrightarrow> disciplined G C n l a k"
  by (simp add: disciplined_def quiet_api.quiet obj_step_refl)

lemma load_zero: "load_bytes (\<lambda>n a. 0) n a k = replicate k 0" "load64 (\<lambda>n a. 0) n a = 0"
  by (simp_all add: load_bytes_def load64_def map_replicate_const u64_of_bytes_def)
    (simp add: eval_nat_numeral)


end
