(* ===== verification/LocksCache.thy ===== *)
theory LocksCache
  imports VersionCache
begin

text \<open>
  The class \<^verbatim>\<open>DSTMLocksCache\<close> (\<^verbatim>\<open>src/src/dstm_lib_p1/dstm_locks_cache.cpp\<close>): lines of lock words
  fetched from other nodes, kept for the duration of one validation.
\<close>

record locks_cache =
  lc_map :: "(u64 \<times> u8 list) list"
  lc_pow :: nat

definition locks_cache_new :: locks_cache where
  "locks_cache_new = \<lparr>lc_map = [], lc_pow = 12\<rparr>"

definition lc_setCacheLine :: "nat \<Rightarrow> locks_cache \<Rightarrow> locks_cache" where
  "lc_setCacheLine p c = c\<lparr>lc_pow := p\<rparr>"

text \<open>\<open>get\<close>; no value is a read across the end of the line.\<close>

definition lc_get :: "platform \<Rightarrow> u64 \<Rightarrow> locks_cache \<Rightarrow> world \<Rightarrow> u64 option \<times> locks_cache \<times> world" where
  "lc_get G addr c w =
     (let al = drop_bit (lc_pow c) (addr AND ADDRESS_MASK);
          low_bound = push_bit (lc_pow c) al;
          node = drop_bit 48 (NODE_MASK AND addr);
          offset = unat ((addr AND ADDRESS_MASK) - low_bound)
      in if unat node = gasnet_mynode G
         then let (v, w') = read_word G (unat node) (addr AND ADDRESS_MASK) w in (Some v, c, w')
         else case map_of (lc_map c) low_bound of
           None \<Rightarrow>
             let (new_cl, w') = fetch_block G (unat node) low_bound (2 ^ lc_pow c) w
             in (map_option u64_of_bytes (slice offset 8 new_cl),
                 c\<lparr>lc_map := AList.update (low_bound OR push_bit 48 node) new_cl (lc_map c)\<rparr>, w')
         | Some line \<Rightarrow> (map_option u64_of_bytes (slice offset 8 line), c, w))"

subsection \<open>Lock words in a line\<close>

lemma lc_node: "drop_bit 48 (NODE_MASK AND addr) = NODE_FROM_ADDRESS addr"
  by (simp add: NODE_FROM_ADDRESS_def)

lemma lc_addr: "addr AND ADDRESS_MASK = ADDR_FROM_ADDRESS addr"
  by (simp add: ADDR_FROM_ADDRESS_def and.commute)

text \<open>The line of 16 bytes that holds a lock word.\<close>

definition line_of :: "u64 \<Rightarrow> u64" where
  "line_of a = push_bit 4 (drop_bit 4 (ADDR_FROM_ADDRESS a))"

lemma unat_line_of: "unat (line_of a) = unat (ADDR_FROM_ADDRESS a) div 16 * 16"
proof -
  have "unat (ADDR_FROM_ADDRESS a) div 16 * 16 < 2 ^ LENGTH(64)"
    by (rule le_less_trans [OF div_times_less_eq_dividend unsigned_less])
  then show ?thesis
    using unat_push_bit [of "drop_bit 4 (ADDR_FROM_ADDRESS a)" 4]
    by (simp add: line_of_def unat_drop_bit_div)
qed

lemma line_offset:
  assumes "unat (ADDR_FROM_ADDRESS a) mod 8 = 0"
  shows "unat (ADDR_FROM_ADDRESS a - line_of a) = unat (ADDR_FROM_ADDRESS a) mod 16"
    "unat (ADDR_FROM_ADDRESS a - line_of a) + 8 \<le> 16"
    "unat (line_of a) + 16 \<le> 2 ^ 64"
proof -
  let ?x = "unat (ADDR_FROM_ADDRESS a)"
  have le: "line_of a \<le> ADDR_FROM_ADDRESS a"
    by (simp add: word_le_nat_alt unat_line_of)
  show o: "unat (ADDR_FROM_ADDRESS a - line_of a) = ?x mod 16"
    using unat_minus_simple [OF le] by (simp add: unat_line_of minus_div_mult_eq_mod)
  have "?x mod 16 = 0 \<or> ?x mod 16 = 8" using assms by presburger
  then show "unat (ADDR_FROM_ADDRESS a - line_of a) + 8 \<le> 16" using o by auto
  show "unat (line_of a) + 16 \<le> 2 ^ 64"
    using ADDR_less [of a] div_times_less_eq_dividend [of ?x 16] by (simp add: unat_line_of)
qed

lemma slice_load_bytes:
  assumes "i + k \<le> j" "unat a + j \<le> 2 ^ 64"
  shows "slice i k (load_bytes m n a j) = Some (load_bytes m n (a + of_nat i) k)"
proof (cases "i = j")
  case True
  then have "k = 0" using assms(1) by simp
  with True show ?thesis by (simp add: slice_def load_bytes_def)
next
  case False
  then have "i < j" using assms(1) by simp
  then have u: "unat (a + of_nat i) = unat a + i"
    using assms(2) by (subst unat_plus_simple) (auto simp: unsigned_of_nat take_bit_nat_def)
  have "take k (drop i (load_bytes m n a j)) = load_bytes m n (a + of_nat i) k"
    by (rule nth_equalityI) (use assms(1) in \<open>auto simp: load_bytes_def u add.assoc\<close>)
  then show ?thesis using assms(1) by (simp add: slice_def)
qed

lemma lc_get_eq:
  "lc_get G addr c w =
     (let low_bound = push_bit (lc_pow c) (drop_bit (lc_pow c) (ADDR_FROM_ADDRESS addr));
          node = NODE_FROM_ADDRESS addr; offset = unat (ADDR_FROM_ADDRESS addr - low_bound)
      in if unat node = gasnet_mynode G
         then let (v, w') = read_word G (unat node) (ADDR_FROM_ADDRESS addr) w in (Some v, c, w')
         else case map_of (lc_map c) low_bound of
           None \<Rightarrow>
             let (new_cl, w') = fetch_block G (unat node) low_bound (2 ^ lc_pow c) w
             in (map_option u64_of_bytes (slice offset 8 new_cl),
                 c\<lparr>lc_map := AList.update (low_bound OR push_bit 48 node) new_cl (lc_map c)\<rparr>, w')
         | Some line \<Rightarrow> (map_option u64_of_bytes (slice offset 8 line), c, w))"
  unfolding lc_get_def lc_node lc_addr Let_def by (rule refl)

lemma line_of_eq: "push_bit 4 (drop_bit 4 (ADDR_FROM_ADDRESS a)) = line_of a"
  by (simp add: line_of_def)

text \<open>The first access to a line returns the lock word as it is in memory.\<close>

lemma lc_get_first:
  assumes Q: "quiet_api G" and al: "unat (ADDR_FROM_ADDRESS a) mod 8 = 0" and c: "lc_pow c = 4" "lc_map c = []"
  shows "\<exists>t m. lc_get G a c w = (Some (load64 (mem w) (unat (NODE_FROM_ADDRESS a)) (ADDR_FROM_ADDRESS a)),
      c\<lparr>lc_map := m\<rparr>, w\<lparr>tick := t\<rparr>) \<and>
    m = (if unat (NODE_FROM_ADDRESS a) = gasnet_mynode G then []
         else [(line_of a OR push_bit 48 (NODE_FROM_ADDRESS a), load_bytes (mem w) (unat (NODE_FROM_ADDRESS a)) (line_of a) 16)])"
proof -
  note O = line_offset [OF al]
  have "line_of a + of_nat (unat (ADDR_FROM_ADDRESS a - line_of a)) = ADDR_FROM_ADDRESS a" by simp
  with slice_load_bytes [OF O(2,3), of "mem w" "unat (NODE_FROM_ADDRESS a)"]
  have s: "slice (unat (ADDR_FROM_ADDRESS a - line_of a)) 8 (load_bytes (mem w) (unat (NODE_FROM_ADDRESS a)) (line_of a) 16) =
      Some (load_bytes (mem w) (unat (NODE_FROM_ADDRESS a)) (ADDR_FROM_ADDRESS a) 8)" by simp
  show ?thesis
    using c by (auto simp: lc_get_eq line_of_eq Let_def s load64_def quiet_api.fetch_block_quiet [OF Q O(3)]
        read_word_eq [OF quiet_api.axioms(1) [OF Q]] quiet_api.sync_quiet [OF Q])
qed

text \<open>
  The key a line is stored under contains the node, the key it is looked up with does not:
  once a line of node 0 is cached on another node, the lock word of any remote object at the
  same local address is read from the line of node 0, whatever its own node holds.
\<close>

theorem lc_get_wrong_node:
  assumes Q: "quiet_api G" and a: "NODE_FROM_ADDRESS a = 0" "gasnet_mynode G \<noteq> 0"
    and b: "unat (NODE_FROM_ADDRESS b) \<noteq> gasnet_mynode G" "ADDR_FROM_ADDRESS b = ADDR_FROM_ADDRESS a"
    and al: "unat (ADDR_FROM_ADDRESS a) mod 8 = 0" and c: "lc_pow c = 4" "lc_map c = []"
  shows "case lc_get G a c w of (v1, c1, w1) \<Rightarrow>
    fst (lc_get G b c1 w1) = Some (load64 (mem w) 0 (ADDR_FROM_ADDRESS a))"
proof -
  note O = line_offset [OF al]
  obtain t where t: "lc_get G a c w = (Some (load64 (mem w) 0 (ADDR_FROM_ADDRESS a)),
      c\<lparr>lc_map := [(line_of a, load_bytes (mem w) 0 (line_of a) 16)]\<rparr>, w\<lparr>tick := t\<rparr>)"
    using lc_get_first [OF Q al c] a by force
  have "line_of b = line_of a" using b(2) by (simp add: line_of_def)
  moreover have "line_of a + of_nat (unat (ADDR_FROM_ADDRESS a - line_of a)) = ADDR_FROM_ADDRESS a" by simp
  ultimately show ?thesis
    using slice_load_bytes [OF O(2,3), of "mem w" 0] b c(1)
    by (simp add: t) (simp add: lc_get_eq line_of_eq Let_def load64_def)
qed

text \<open>Node 2 of three nodes, where the lock words of nodes 0 and 1 at one local address differ.\<close>

theorem lc_get_wrong_node_witness:
  "case lc_get (reference_platform 2 3 (\<lambda>w. w) False True) 0x10000 (lc_setCacheLine 4 locks_cache_new)
      ((example_world 3)\<lparr>mem := (\<lambda>n a. of_nat n)\<rparr>) of (v1, c1, w1) \<Rightarrow>
    fst (lc_get (reference_platform 2 3 (\<lambda>w. w) False True) 0x1000000010000 c1 w1) =
      Some (load64 (mem ((example_world 3)\<lparr>mem := (\<lambda>n a. of_nat n)\<rparr>)) 0 (ADDR_FROM_ADDRESS 0x10000))"
  by (rule lc_get_wrong_node [OF reference_quiet.quiet_api_axioms])
    (simp_all add: NODE_FROM_ADDRESS_def NODE_MASK_def ADDR_FROM_ADDRESS_def ADDRESS_MASK_def
      reference_platform_def lc_setCacheLine_def locks_cache_new_def)

end
