(* ===== verification/LockServer.thy ===== *)
theory LockServer
  imports LocksCache
begin

text \<open>
  The server side of lock acquisition (\<^verbatim>\<open>processLocksRequest\<close> in \<^verbatim>\<open>src/src/glue.cpp\<close>, the
  handlers \<^verbatim>\<open>requestlocks_medhandler\<close> and \<^verbatim>\<open>requestlocks_succ_medhandler\<close> in
  \<^verbatim>\<open>src/src/gasnet_handlers.cpp\<close>).  A request is an array of words: the transaction's
  descriptor, the number of objects, their addresses, and from the middle on the versions the
  transaction has read.  \<open>None\<close> stands for an access outside the array or the tables.
\<close>

subsection \<open>Operations\<close>

definition aget :: "'a list \<Rightarrow> nat \<Rightarrow> 'a option" where
  "aget xs i = (if i < length xs then Some (xs ! i) else None)"

definition aput :: "'a list \<Rightarrow> nat \<Rightarrow> 'a \<Rightarrow> 'a list option" where
  "aput xs i x = (if i < length xs then Some (xs[i := x]) else None)"

definition cas_word :: "platform \<Rightarrow> nat \<Rightarrow> u64 \<Rightarrow> u64 \<Rightarrow> u64 \<Rightarrow> world \<Rightarrow> bool \<times> world" where
  "cas_word G n a old new w =
     (let w' = sync G w; (ok, c) = gasnett_cas G (load64 (mem w') n a) old new
      in (ok, w'\<lparr>mem := store64 (mem w') n a c\<rparr>))"

text \<open>One object of a request: its address if its lock was not taken.\<close>

definition lock_object :: "platform \<Rightarrow> memmgr \<Rightarrow> u64 \<Rightarrow> u64 \<Rightarrow> world \<Rightarrow> (u64 list \<times> world) option" where
  "lock_object G M obj_addr version w =
     (case getObjectLockAddr_at M obj_addr (gasnet_mynode G) of
        None \<Rightarrow> None
      | Some lock \<Rightarrow>
          let (lock_val_old, w1) = read_word G (gasnet_mynode G) lock w;
              lock_val_new = version OR push_bit 63 1;
              current_version = version;
              changed = [obj_addr OR TO_NODE_TS (of_nat (gasnet_mynode G))]
          in if lock_val_old > current_version then Some (changed, w1)
             else let (ok, w2) = cas_word G (gasnet_mynode G) lock lock_val_old lock_val_new w1
                  in Some (if \<not> ok then changed else [], w2))"

text \<open>The loop; \<open>k\<close> objects are left, the next one is number \<open>i\<close>.\<close>

fun lock_objects :: "platform \<Rightarrow> memmgr \<Rightarrow> u64 list \<Rightarrow> nat \<Rightarrow> nat \<Rightarrow> nat \<Rightarrow> u64 list \<Rightarrow> world \<Rightarrow> (u64 list \<times> world) option" where
  "lock_objects G M buf objectsNum i 0 changedObjs w = Some (changedObjs, w)"
| "lock_objects G M buf objectsNum i (Suc k) changedObjs w =
     (case (aget buf (i + 2), aget buf (objectsNum + i + 2)) of
        (Some obj_addr, Some version) \<Rightarrow>
          (case lock_object G M obj_addr version w of
             None \<Rightarrow> None
           | Some (ch, w') \<Rightarrow> lock_objects G M buf objectsNum (Suc i) k (changedObjs @ ch) w')
      | _ \<Rightarrow> None)"

text \<open>
  \<open>processLocksRequest\<close> returns \<open>None\<close> inside the option for the null pointer, else the array of
  the changed objects behind two words; the first is left for the handler to fill (0 here).
\<close>

definition processLocksRequest ::
  "platform \<Rightarrow> memmgr \<Rightarrow> u64 list \<Rightarrow> nat \<Rightarrow> world \<Rightarrow> (u64 list option \<times> world) option" where
  "processLocksRequest G M objects_versions nbytes w =
     (let objectsNum = (nbytes - 16) div 16
      in case aget objects_versions 1 of
           None \<Rightarrow> None
         | Some realObjectsNum \<Rightarrow>
             (case lock_objects G M objects_versions objectsNum 0 (unat realObjectsNum) [] w of
                None \<Rightarrow> None
              | Some (changedObjs, w') \<Rightarrow>
                  Some (if changedObjs \<noteq> [] then Some (0 # of_nat (length changedObjs) # changedObjs) else None, w')))"

text \<open>The request handler: the reply message and its argument, the number of changed objects.\<close>

definition requestlocks_medhandler ::
  "platform \<Rightarrow> memmgr \<Rightarrow> u64 list \<Rightarrow> nat \<Rightarrow> world \<Rightarrow> ((u64 list \<times> nat) \<times> world) option" where
  "requestlocks_medhandler G M buf nbytes w =
     (case processLocksRequest G M buf nbytes w of
        None \<Rightarrow> None
      | Some (None, w') \<Rightarrow> map_option (\<lambda>d. (([d], 0), w')) (aget buf 0)
      | Some (Some result, w') \<Rightarrow>
          (case (aget buf 0, aget result 1) of
             (Some d, Some n) \<Rightarrow> Some ((take (unat n + 2) (result[0 := d]), unat n), w')
           | _ \<Rightarrow> None))"

text \<open>The reply handler: the descriptor the reply is for and the changed objects it reports.\<close>

definition requestlocks_succ_medhandler :: "u64 list \<Rightarrow> nat \<Rightarrow> (u64 \<times> u64 list) option" where
  "requestlocks_succ_medhandler buf nobjs =
     (case aget buf 0 of None \<Rightarrow> None
      | Some tx \<Rightarrow> if nobjs + 2 \<le> length buf \<or> nobjs = 0 then Some (tx, take nobjs (drop 2 buf)) else None)"

subsection \<open>One object\<close>

lemma cas_word_eq:
  "gasnet_api G \<Longrightarrow> cas_word G n a old new w = (let w' = sync G w
     in if load64 (mem w') n a = old then (True, w'\<lparr>mem := store64 (mem w') n a new\<rparr>) else (False, w'))"
  by (auto simp: cas_word_def gasnet_api.gasnett_cas Let_def store_load64_same)

text \<open>
  C8. A lock is taken only when the lock word does not exceed the version the transaction has
  read at the moment of the swap; then the word holds this version with the lock bit.  The
  object is reported otherwise, and the memory is left to the other threads.
\<close>

theorem lock_object_correct:
  assumes "gasnet_api G" "lock_object G M obj_addr version w = Some (changed, w')"
    and "getObjectLockAddr_at M obj_addr (gasnet_mynode G) = Some l"
  shows "if changed = []
    then load64 (mem (sync G (sync G w))) (gasnet_mynode G) l \<le> version \<and>
         mem w' = store64 (mem (sync G (sync G w))) (gasnet_mynode G) l (version OR LOCK_BIT)
    else changed = [obj_addr OR TO_NODE_TS (of_nat (gasnet_mynode G))] \<and>
         (load64 (mem (sync G w)) (gasnet_mynode G) l > version \<and> w' = sync G w \<or>
          load64 (mem (sync G (sync G w))) (gasnet_mynode G) l \<noteq> load64 (mem (sync G w)) (gasnet_mynode G) l \<and>
          w' = sync G (sync G w))"
  using assms(2,3)
  by (auto simp: lock_object_def read_word_eq [OF assms(1)] cas_word_eq [OF assms(1)] Let_def not_less
      split: if_splits)

lemma lock_object_quiet:
  assumes Q: "quiet_api G" and l: "getObjectLockAddr_at M obj_addr (gasnet_mynode G) = Some l"
    and v: "v = load64 (mem w) (gasnet_mynode G) l"
  shows "\<exists>t. lock_object G M obj_addr version w =
    Some (if v > version then ([obj_addr OR TO_NODE_TS (of_nat (gasnet_mynode G))], w\<lparr>tick := t\<rparr>)
          else ([], w\<lparr>mem := store64 (mem w) (gasnet_mynode G) l (version OR LOCK_BIT), tick := t\<rparr>))"
  using read_word_eq [OF quiet_api.axioms(1) [OF Q]] cas_word_eq [OF quiet_api.axioms(1) [OF Q]]
    quiet_api.sync_quiet [OF Q]
  by (intro exI [of _ "if v > version then Suc (tick w) else Suc (Suc (tick w))"])
    (auto simp: lock_object_def l v Let_def)

text \<open>
  C9. The comparison is made on whole words, in which the node of the writer stands above its
  clock value.  So an object that another node changed after it was read is locked as if it
  were unchanged whenever the writer's node number is the smaller one: \<open>isTimestampGreater\<close>,
  the comparison the rest of the code uses, tells that the version has grown.
\<close>

theorem lock_object_accepts_changed:
  assumes Q: "quiet_api G" and l: "getObjectLockAddr_at M obj_addr (gasnet_mynode G) = Some l"
    and ts: "\<not> locked version" "load64 (mem w) (gasnet_mynode G) l = TO_NODE_TS n OR take_bit 48 v"
    and newer: "isTimestampGreater (TO_NODE_TS n OR take_bit 48 v) version"
    and node: "unat (take_bit 15 n) < unat (NODE_TS version)"
  shows "\<exists>w'. lock_object G M obj_addr version w = Some ([], w') \<and>
    load64 (mem w') (gasnet_mynode G) l = version OR LOCK_BIT"
proof -
  let ?ts = "TO_NODE_TS n OR take_bit 48 v"
  have "unat (NODE_TS ?ts) < unat (NODE_TS version)" using node by (simp add: NODE_pack)
  moreover have "unat (VERSION_TS ?ts) < 2 ^ 48" by (simp add: unat_VERSION_TS)
  moreover from calculation(1) have "(unat (NODE_TS ?ts) + 1) * 2 ^ 48 \<le> unat (NODE_TS version) * 2 ^ 48"
    by (intro mult_le_mono1) simp
  ultimately have "unat ?ts < unat version"
    unfolding unat_ts [OF ts(1)] unat_ts [OF locked_pack] by simp
  then have "\<not> load64 (mem w) (gasnet_mynode G) l > version"
    by (simp add: ts(2) word_less_nat_alt)
  with lock_object_quiet [OF Q l refl, of version w] show ?thesis
    by (auto simp: load_store64_same)
qed

text \<open>Node 0 changed the object at version 9, after a transaction read version 5 of node 1.\<close>

definition stale_world :: world where
  "stale_world = (example_world 9)\<lparr>mem := store64 (\<lambda>n a. 0) 0 0x10000 (TO_NODE_TS 0 OR take_bit 48 9)\<rparr>"

theorem lock_object_accepts_changed_witness:
  "\<exists>w'. lock_object (example_platform True False) example_mgr 0x210040 (TO_NODE_TS 1 OR take_bit 48 5) stale_world = Some ([], w') \<and>
    load64 (mem w') (gasnet_mynode (example_platform True False)) 0x10000 = (TO_NODE_TS 1 OR take_bit 48 5) OR LOCK_BIT"
proof -
  have "getObjectLockAddr_at example_mgr 0x210040 (gasnet_mynode (example_platform True False)) = Some 0x10000"
    by (simp add: getObjectLockAddr_at_def example_mgr_tables ADDR_FROM_ADDRESS_def ADDRESS_MASK_def)
  moreover have "isTimestampGreater (TO_NODE_TS 0 OR take_bit 48 9) (TO_NODE_TS 1 OR take_bit 48 5)"
    unfolding isTimestampGreater_def VERSION_pack by simp
  moreover have "unat (take_bit 15 (0 :: u64)) < unat (NODE_TS (TO_NODE_TS 1 OR take_bit 48 5))"
    unfolding NODE_pack by simp
  moreover have "load64 (mem stale_world) (gasnet_mynode (example_platform True False)) 0x10000 = TO_NODE_TS 0 OR take_bit 48 9"
    by (simp add: stale_world_def load_store64_same)
  ultimately show ?thesis
    by (intro lock_object_accepts_changed [OF example_quiet _ locked_pack])
qed

text \<open>The lock is taken by the transaction that read the current version, so the words agree.\<close>

theorem lock_object_correct_witness:
  "if [] = ([] :: u64 list)
    then load64 (mem (sync (example_platform True False) (sync (example_platform True False) stale_world)))
           (gasnet_mynode (example_platform True False)) 0x10000 \<le> 9 \<and>
         mem (stale_world\<lparr>mem := store64 (mem stale_world) 0 0x10000 (9 OR LOCK_BIT), tick := 2\<rparr>) =
           store64 (mem (sync (example_platform True False) (sync (example_platform True False) stale_world)))
             (gasnet_mynode (example_platform True False)) 0x10000 (9 OR LOCK_BIT)
    else [] = [0x210040 OR TO_NODE_TS (of_nat (gasnet_mynode (example_platform True False)))] \<and> False"
proof -
  have l: "getObjectLockAddr_at example_mgr 0x210040 (gasnet_mynode (example_platform True False)) = Some 0x10000"
    by (simp add: getObjectLockAddr_at_def example_mgr_tables ADDR_FROM_ADDRESS_def ADDRESS_MASK_def)
  have "TO_NODE_TS 0 OR take_bit 48 9 = (9 :: u64)" by (simp add: TO_NODE_TS_def)
  then have "load64 (mem stale_world) 0 0x10000 = 9" by (simp add: stale_world_def load_store64_same)
  then obtain t where "lock_object (example_platform True False) example_mgr 0x210040 9 stale_world =
      Some ([], stale_world\<lparr>mem := store64 (mem stale_world) 0 0x10000 (9 OR LOCK_BIT), tick := t\<rparr>)"
    using lock_object_quiet [OF example_quiet l refl, of 9 stale_world] by auto
  from lock_object_correct [OF example_api this l] show ?thesis by simp
qed

subsection \<open>Objects the lock table does not cover\<close>

text \<open>The lock word of an object at 512 bytes or more behind the covered area.\<close>

lemma lock_addr_overrun:
  assumes s: "unat s + 2 ^ 25 \<le> 2 ^ 48" and k: "k < 2 ^ 21"
    and a: "unat a = unat (object_base s) + 2 ^ 24 + 512 + 64 * k"
  shows "lock_base s + drop_bit 6 (a - object_base s) * 8 = object_base s + of_nat (8 * k)"
proof -
  note O = unat_object_base [OF s]
  have L: "unat (lock_base s) \<le> unat s" unfolding unat_lock_base by (rule div_times_less_eq_dividend)
  have "unat (a - object_base s) = 2 ^ 24 + 512 + 64 * k"
    using a by (simp add: unat_minus_simple word_le_nat_alt)
  then have d: "unat (drop_bit 6 (a - object_base s)) = 2 ^ 18 + 8 + k" by (simp add: unat_drop_bit_div)
  have "unat (drop_bit 6 (a - object_base s) * 8) = (2 ^ 18 + 8 + k) * 8"
    using d k unat_mult_lem [of "drop_bit 6 (a - object_base s)" 8] by simp
  then have l: "unat (lock_base s + drop_bit 6 (a - object_base s) * 8) = unat (lock_base s) + (2 ^ 18 + 8 + k) * 8"
    using L s k by (subst unat_plus_simple) auto
  have "unat (of_nat (8 * k) :: u64) = 8 * k" using k by (intro unat_of_nat_small) simp
  then have "unat (object_base s + of_nat (8 * k)) = unat (object_base s) + 8 * k"
    using O L s k by (subst unat_plus_simple) (auto simp del: of_nat_mult)
  with l O show ?thesis by (simp add: word_unat_eq_iff del: of_nat_mult)
qed

text \<open>
  C39. The lock table covers \<open>2 ^ BUDDY_LEVEL\<close> bytes of objects only, and nothing checks it.  For
  every table that \<^verbatim>\<open>init\<close> computes from segments that end below \<open>2 ^ 48\<close> and every \<open>k\<close> below
  \<open>2 ^ 21\<close>, the lock word of the block that lies \<open>512 + 64 * k\<close> bytes behind the covered area is
  word \<open>k\<close> of the node's own object area.  So a node that serves a request for that block, no
  other thread interfering, grants the lock as soon as the data in this word are at most the
  version the transaction has read, and with it overwrites the data of another object.
\<close>

theorem lock_word_overruns_objects:
  assumes Q: "quiet_api G" and M: "M = init_tables segs \<lparr>locks_addr = [], objects_addr = []\<rparr>"
    and segs: "length segs \<le> 2 ^ 15" "\<forall>s \<in> set segs. unat s + 2 ^ 25 \<le> 2 ^ 48" "gasnet_mynode G < length segs"
    and k: "k < 2 ^ 21" and d: "data = objects_addr M ! gasnet_mynode G + of_nat (8 * k)"
    and a: "unat a = unat (objects_addr M ! gasnet_mynode G) + 2 ^ 24 + 512 + 64 * k" "unat a < 2 ^ 48"
    and v: "load64 (mem w) (gasnet_mynode G) data \<le> version" "\<not> locked version"
  shows "\<exists>w'. lock_object G M a version w = Some ([], w') \<and>
    unat (objects_addr M ! gasnet_mynode G) \<le> unat data \<and>
    unat data + 8 \<le> unat (objects_addr M ! gasnet_mynode G) + 2 ^ 24 \<and>
    load64 (mem w') (gasnet_mynode G) data = version OR LOCK_BIT \<and>
    load64 (mem w') (gasnet_mynode G) data \<noteq> load64 (mem w) (gasnet_mynode G) data"
proof -
  let ?n = "gasnet_mynode G" and ?s = "segs ! gasnet_mynode G"
  have s: "unat ?s + 2 ^ 25 \<le> 2 ^ 48" using segs(2,3) by simp
  have tables: "locks_addr M ! ?n = lock_base ?s" "objects_addr M ! ?n = object_base ?s"
    "length (locks_addr M) = length segs" "length (objects_addr M) = length segs"
    using segs(3) by (simp_all add: M init_tables_map)
  have "ADDR_FROM_ADDRESS a = a"
    using a(2) by (simp only: ADDR_FROM_ADDRESS_field take_bit_word_self_iff)
  then have l: "getObjectLockAddr_at M a ?n = Some data"
    using segs(3) lock_addr_overrun [OF s k a(1) [unfolded tables]]
    by (simp add: getObjectLockAddr_at_def tables CDU_SIZE_def Let_def d)
  have small: "unat (of_nat (8 * k) :: u64) = 8 * k" using k by (intro unat_of_nat_small) simp
  have dn: "unat data = unat (objects_addr M ! ?n) + 8 * k"
    using a small unfolding d by (subst unat_plus_simple) (auto simp del: of_nat_mult)
  have lock: "version OR LOCK_BIT > version"
  proof -
    have "locked (version OR LOCK_BIT)" by (simp add: locked_bit bit_simps)
    then show ?thesis using v(2) unfolding locked_iff_ge word_less_nat_alt by simp
  qed
  from lock_object_quiet [OF Q l refl, of version w] v(1) obtain t where
    r: "lock_object G M a version w = Some ([], w\<lparr>mem := store64 (mem w) ?n data (version OR LOCK_BIT), tick := t\<rparr>)"
    by (auto simp: not_less)
  show ?thesis using r dn k v(1) lock by (auto simp: load_store64_same)
qed

theorem lock_word_overruns_objects_witness:
  "\<exists>w'. lock_object (example_platform True False) (init_tables [0x10000, 0x10000] \<lparr>locks_addr = [], objects_addr = []\<rparr>)
      (0x210040 + 2 ^ 24 + 512 + 64 * 3) 5 (example_world 9) = Some ([], w') \<and>
    unat (0x210040 :: u64) \<le> unat (0x210058 :: u64) \<and> unat (0x210058 :: u64) + 8 \<le> unat (0x210040 :: u64) + 2 ^ 24 \<and>
    load64 (mem w') 0 0x210058 = 5 OR LOCK_BIT \<and> load64 (mem w') 0 0x210058 \<noteq> load64 (mem (example_world 9)) 0 0x210058"
proof -
  let ?M = "init_tables [0x10000, 0x10000] \<lparr>locks_addr = [], objects_addr = []\<rparr>"
  have n: "gasnet_mynode (example_platform True False) = 0" by (simp add: reference_platform_def)
  have o: "objects_addr ?M ! 0 = 0x210040" using example_mgr_tables(2) by (simp add: example_mgr_def)
  have z: "load64 (mem (example_world 9)) 0 0x210058 = 0" by (simp add: example_world_def load_zero)
  show ?thesis
    using lock_word_overruns_objects [OF example_quiet [of True False] refl, of "[0x10000, 0x10000]" 3 "0x210058"
        "0x210040 + 2 ^ 24 + 512 + 64 * 3" "example_world 9" 5, unfolded n o]
    by (simp add: z locked_bit)
qed

end
