(* ===== verification/Transaction.thy ===== *)
theory Transaction
  imports LockServer
begin

text \<open>
  The transaction descriptor \<^verbatim>\<open>DSTMTransaction\<close> in the build \<^verbatim>\<open>VARIANT1\<close>
  (\<^verbatim>\<open>src/src/dstm_lib_p1/dstm_transaction.h\<close>, \<^verbatim>\<open>dstm_transaction_impl.h\<close>,
  \<^verbatim>\<open>dstm_transaction.cpp\<close>): read and write sets of block copies, validation, acquisition and
  release of locks, commit and abort.

  An operation returns \<open>None\<close> when it does not return, and otherwise an outcome: a value, the
  reason of an abort (the non-local jump of \<^verbatim>\<open>siglongjmp\<close> back to the checkpoint), or \<open>Fault\<close> for
  an access outside an array, a table or a block copy.  The iteration order of
  \<^verbatim>\<open>boost::unordered_map\<close> is the order of the association lists, which the theorems leave open.
\<close>

subsection \<open>Data\<close>

datatype tx_status = TX_IDLE | TX_ACTIVE | TX_COMMITTED | TX_ABORTED

definition ABORT_EXPLICIT :: u64 where "ABORT_EXPLICIT = push_bit 3 1"
definition ABORT_IMPLICIT :: u64 where "ABORT_IMPLICIT = push_bit 4 1"
definition ABORT_READSET_VAL :: u64 where "ABORT_READSET_VAL = ABORT_IMPLICIT OR push_bit 5 1"
definition ABORT_GRABBING_LOCKS :: u64 where "ABORT_GRABBING_LOCKS = ABORT_IMPLICIT OR push_bit 6 1"
definition ABORT_RW_CONFLICT :: u64 where "ABORT_RW_CONFLICT = ABORT_IMPLICIT OR push_bit 7 0x01"
definition ABORT_WR_CONFLICT :: u64 where "ABORT_WR_CONFLICT = ABORT_IMPLICIT OR push_bit 7 0x02"
definition ABORT_WW_CONFLICT :: u64 where "ABORT_WW_CONFLICT = ABORT_IMPLICIT OR push_bit 7 0x04"
definition ABORT_INVALID_MEMORY_R :: u64 where "ABORT_INVALID_MEMORY_R = ABORT_IMPLICIT OR push_bit 7 0x08"
definition ABORT_INVALID_MEMORY_W :: u64 where "ABORT_INVALID_MEMORY_W = ABORT_IMPLICIT OR push_bit 7 0x10"

record transaction_stats =
  total_aborts :: u32
  rsval_aborts :: u32
  grablocks_aborts :: u32
  wr_confl_aborts :: u32
  ww_confl_aborts :: u32
  invmem_r_aborts :: u32
  invmem_w_aborts :: u32
  unknwn_aborts :: u32
  explicit_aborts :: u32

definition no_stats :: transaction_stats where
  "no_stats = \<lparr>total_aborts = 0, rsval_aborts = 0, grablocks_aborts = 0, wr_confl_aborts = 0,
     ww_confl_aborts = 0, invmem_r_aborts = 0, invmem_w_aborts = 0, unknwn_aborts = 0, explicit_aborts = 0\<rparr>"

text \<open>The descriptor; \<open>descr\<close> is its own address, which lock requests carry.\<close>

record tx =
  descr :: u64
  status :: tx_status
  read_set :: "(u64 \<times> entry) list"
  write_set :: "(u64 \<times> entry) list"
  maxRequestedLocksPerNode :: nat
  rlNodes :: nat
  rlChangedObjects :: "u64 list"
  VC :: "u64 list"
  stats :: transaction_stats

definition tx_new :: "platform \<Rightarrow> u64 \<Rightarrow> tx" where
  "tx_new G self = \<lparr>descr = self, status = TX_IDLE, read_set = [], write_set = [],
     maxRequestedLocksPerNode = 10, rlNodes = 0, rlChangedObjects = [],
     VC = replicate (gasnet_nodes G) 0, stats = no_stats\<rparr>"

subsection \<open>Outcomes\<close>

datatype 'a outcome = Ok 'a | Aborted u64 | Fault

type_synonym 'a comp = "tx \<times> world \<Rightarrow> ('a outcome \<times> tx \<times> world) option"

definition bnd :: "'a comp \<Rightarrow> ('a \<Rightarrow> 'b comp) \<Rightarrow> 'b comp" where
  "bnd m f s = (case m s of
      None \<Rightarrow> None
    | Some (Ok a, s') \<Rightarrow> f a s'
    | Some (Aborted r, s') \<Rightarrow> Some (Aborted r, s')
    | Some (Fault, s') \<Rightarrow> Some (Fault, s'))"

definition ret :: "'a \<Rightarrow> 'a comp" where
  "ret a s = Some (Ok a, s)"

definition fault :: "'a comp" where
  "fault s = Some (Fault, s)"

definition ok_or_fault :: "'a option \<Rightarrow> 'a comp" where
  "ok_or_fault v = (case v of None \<Rightarrow> fault | Some a \<Rightarrow> ret a)"

definition on_world :: "(world \<Rightarrow> ('a \<times> world) option) \<Rightarrow> 'a comp" where
  "on_world f s = (case f (snd s) of None \<Rightarrow> None | Some (a, w) \<Rightarrow> Some (Ok a, fst s, w))"

definition on_tx :: "(tx \<Rightarrow> tx) \<Rightarrow> unit comp" where
  "on_tx f s = Some (Ok (), f (fst s), snd s)"

definition get_tx :: "(tx \<Rightarrow> 'a) \<Rightarrow> 'a comp" where
  "get_tx f s = Some (Ok (f (fst s)), s)"

subsection \<open>Begin and abort\<close>

definition tx_begin :: "bool comp" where
  "tx_begin = bnd (on_tx (\<lambda>tx. tx\<lparr>status := TX_ACTIVE, rlChangedObjects := [],
     VC := replicate (length (VC tx)) 0\<rparr>)) (\<lambda>_. ret True)"

definition count_abort :: "u64 \<Rightarrow> transaction_stats \<Rightarrow> transaction_stats" where
  "count_abort reason s =
     (let s = s\<lparr>total_aborts := total_aborts s + 1\<rparr>
      in if reason = ABORT_READSET_VAL then s\<lparr>rsval_aborts := rsval_aborts s + 1\<rparr>
         else if reason = ABORT_READSET_VAL OR ABORT_WR_CONFLICT then s\<lparr>rsval_aborts := rsval_aborts s + 1\<rparr>
         else if reason = ABORT_READSET_VAL OR ABORT_WW_CONFLICT then s\<lparr>rsval_aborts := rsval_aborts s + 1\<rparr>
         else if reason = ABORT_WR_CONFLICT then s\<lparr>wr_confl_aborts := wr_confl_aborts s + 1\<rparr>
         else if reason = ABORT_WW_CONFLICT then s\<lparr>ww_confl_aborts := ww_confl_aborts s + 1\<rparr>
         else if reason = ABORT_INVALID_MEMORY_R then s\<lparr>invmem_r_aborts := invmem_r_aborts s + 1\<rparr>
         else if reason = ABORT_INVALID_MEMORY_W then s\<lparr>invmem_w_aborts := invmem_w_aborts s + 1\<rparr>
         else if reason = ABORT_GRABBING_LOCKS then s\<lparr>grablocks_aborts := grablocks_aborts s + 1\<rparr>
         else if reason = ABORT_EXPLICIT then s\<lparr>explicit_aborts := explicit_aborts s + 1\<rparr>
         else s\<lparr>unknwn_aborts := unknwn_aborts s + 1\<rparr>)"

definition clearWriteSet :: "tx \<Rightarrow> tx" where
  "clearWriteSet tx = tx\<lparr>write_set := []\<rparr>"

definition clearReadSet :: "tx \<Rightarrow> tx" where
  "clearReadSet tx = tx\<lparr>read_set := []\<rparr>"

definition tx_abort :: "u64 \<Rightarrow> 'a comp" where
  "tx_abort reason s =
     (case s of (tx, w) \<Rightarrow>
        let tx = tx\<lparr>stats := count_abort reason (stats tx)\<rparr>;
            tx = clearReadSet (clearWriteSet tx)
        in Some (Aborted reason, tx\<lparr>status := TX_ABORTED\<rparr>, w))"

definition tx_rollback :: "'a comp" where
  "tx_rollback = tx_abort ABORT_EXPLICIT"

subsection \<open>Validation\<close>

text \<open>
  The check of one object against its lock word, through the version cache and, in builds with
  \<^verbatim>\<open>VARIANT3\<close>, the cache of lock words, which is threaded through a validation.
\<close>

definition check_object ::
  "platform \<Rightarrow> memmgr \<Rightarrow> u64 \<Rightarrow> u64 \<Rightarrow> locks_cache \<times> world \<Rightarrow> bool outcome \<times> locks_cache \<times> world" where
  "check_object G M addr ts s =
     (case s of (lc, w) \<Rightarrow>
        let (ts_cached, w1) = (if CACHE G then cache_get G addr w else (0, w))
        in if CACHE G \<and> (locked ts_cached \<or> isTimestampGreater ts_cached ts) then (Ok False, lc, w1)
           else case getObjectLockAddr M addr of
             None \<Rightarrow> (Fault, lc, w1)
           | Some lock_addr \<Rightarrow>
               let (cur, lc2, w2) =
                     (if VARIANT3 G then lc_get G lock_addr lc w1
                      else let (v, w2) = getVersion G lock_addr w1 in (Some v, lc, w2))
               in case cur of
                    None \<Rightarrow> (Fault, lc2, w2)
                  | Some ts_cur \<Rightarrow>
                      if locked ts_cur \<or> isTimestampGreater ts_cur ts
                      then (Ok False, lc2, if CACHE G then cache_add G addr ts_cur w2 else w2)
                      else (Ok True, lc2, w2))"

text \<open>The loop over a set; only entries that satisfy the guard are checked.\<close>

fun check_set ::
  "platform \<Rightarrow> memmgr \<Rightarrow> (u64 \<Rightarrow> bool) \<Rightarrow> (u64 \<times> entry) list \<Rightarrow> locks_cache \<times> world \<Rightarrow>
   bool outcome \<times> locks_cache \<times> world" where
  "check_set G M guard [] s = (Ok True, s)"
| "check_set G M guard ((addr, e) # es) s =
     (if guard (ent_ts e)
      then case check_object G M addr (ent_ts e) s of
             (Ok True, s') \<Rightarrow> check_set G M guard es s'
           | r \<Rightarrow> r
      else check_set G M guard es s)"

definition validate :: "platform \<Rightarrow> memmgr \<Rightarrow> u64 \<Rightarrow> bool comp" where
  "validate G M ts s =
     (case s of (tx, w) \<Rightarrow>
        let tsn_new = VERSION_TS ts;
            node = unat (NODE_TS ts)
        in case aget (VC tx) node of
             None \<Rightarrow> Some (Fault, tx, w)
           | Some tsn_old \<Rightarrow>
               if tsn_new > tsn_old
               then (case check_set G M (isTimestampGreater ts) (read_set tx)
                        (lc_setCacheLine 4 locks_cache_new, w) of
                       (Ok True, s1) \<Rightarrow>
                         (case check_set G M (isTimestampGreater ts) (write_set tx) s1 of
                            (Ok True, lc, w2) \<Rightarrow> Some (Ok True, tx\<lparr>VC := (VC tx)[node := tsn_new]\<rparr>, w2)
                          | (r, lc, w2) \<Rightarrow> Some (r, tx, w2))
                     | (r, lc, w1) \<Rightarrow> Some (r, tx, w1))
               else Some (Ok True, tx, w))"

definition validateAll :: "platform \<Rightarrow> memmgr \<Rightarrow> bool comp" where
  "validateAll G M s =
     (case s of (tx, w) \<Rightarrow>
        case check_set G M (\<lambda>ts. True) (read_set tx) (lc_setCacheLine 4 locks_cache_new, w) of
          (r, lc, w') \<Rightarrow> Some (r, tx, w'))"

subsection \<open>Reading and writing\<close>

text \<open>Offset of an access in the copy of its block.\<close>

definition block_offset :: "u64 \<Rightarrow> nat" where
  "block_offset addr = unat (ADDR_FROM_ADDRESS (addr - block_lb addr))"

definition splice :: "nat \<Rightarrow> 'a list \<Rightarrow> 'a list \<Rightarrow> 'a list option" where
  "splice i vs xs = (if i + length vs \<le> length xs then Some (take i xs @ vs @ drop (i + length vs) xs) else None)"

text \<open>
  The part \<open>read\<close> and \<open>write\<close> share: fetch the block under its lock word, record the version,
  advance the clock, and validate what was read before.  \<open>add\<close> stores the fetched copy in the
  set the access is for; the sources store the still empty copy there first, which nothing
  observes, because an abort empties both sets.
\<close>

definition fetch_cell ::
  "platform \<Rightarrow> memmgr \<Rightarrow> nat \<Rightarrow> u64 \<Rightarrow> (entry \<Rightarrow> tx \<Rightarrow> tx) \<Rightarrow> u8 list option comp" where
  "fetch_cell G M k addr add =
     bnd (ok_or_fault (getObjectLockAddr M addr)) (\<lambda>lock_addr.
     bnd (on_world (readCell G k True addr lock_addr)) (\<lambda>(value, timestamp, ent).
     bnd (on_world (\<lambda>w. Some ((), if CACHE G then cache_add G (block_lb addr) timestamp w else w))) (\<lambda>_.
     if locked timestamp then tx_abort timestamp
     else bnd (ok_or_fault ent) (\<lambda>e.
          bnd (on_tx (add e)) (\<lambda>_.
          bnd (on_world (increaseClock G (VERSION_TS timestamp))) (\<lambda>_.
          bnd (validate G M timestamp) (\<lambda>ok.
          if \<not> ok then tx_abort (ABORT_WR_CONFLICT OR ABORT_READSET_VAL) else ret value)))))))"

definition tx_read :: "platform \<Rightarrow> memmgr \<Rightarrow> nat \<Rightarrow> u64 \<Rightarrow> u8 list comp" where
  "tx_read G M k addr =
     (if addr = 0 then tx_abort ABORT_INVALID_MEMORY_R
      else bnd (get_tx (\<lambda>tx. (map_of (write_set tx) (block_lb addr), map_of (read_set tx) (block_lb addr)))) (\<lambda>(we, re).
        case we of
          Some e \<Rightarrow> ok_or_fault (slice (block_offset addr) k (ent_data e))
        | None \<Rightarrow>
            (case re of
               Some e \<Rightarrow> ok_or_fault (slice (block_offset addr) k (ent_data e))
             | None \<Rightarrow>
                 bnd (fetch_cell G M k addr (\<lambda>e tx. tx\<lparr>read_set := AList.update (block_lb addr) e (read_set tx)\<rparr>))
                   ok_or_fault)))"

text \<open>The last step of \<open>write\<close>: the value is stored in the copy of the block.\<close>

definition store_entry :: "u64 \<Rightarrow> u8 list \<Rightarrow> unit comp" where
  "store_entry addr value =
     bnd (get_tx (\<lambda>tx. map_of (write_set tx) (block_lb addr))) (\<lambda>we.
     bnd (ok_or_fault we) (\<lambda>e.
     bnd (ok_or_fault (splice (block_offset addr) value (ent_data e))) (\<lambda>d.
     on_tx (\<lambda>tx. tx\<lparr>write_set := AList.update (block_lb addr) (e\<lparr>ent_data := d\<rparr>) (write_set tx)\<rparr>))))"

definition tx_write :: "platform \<Rightarrow> memmgr \<Rightarrow> u64 \<Rightarrow> u8 list \<Rightarrow> unit comp" where
  "tx_write G M addr value =
     (if addr = 0 then tx_abort ABORT_INVALID_MEMORY_W
      else bnd (get_tx (\<lambda>tx. (map_of (write_set tx) (block_lb addr), map_of (read_set tx) (block_lb addr)))) (\<lambda>(we, re).
        bnd (case we of
               Some e \<Rightarrow> ret ()
             | None \<Rightarrow>
                 (case re of
                    None \<Rightarrow>
                      bnd (fetch_cell G M (length value) addr
                             (\<lambda>e tx. tx\<lparr>write_set := AList.update (block_lb addr) e (write_set tx)\<rparr>)) (\<lambda>_. ret ())
                  | Some e \<Rightarrow>
                      on_tx (\<lambda>tx. tx\<lparr>write_set := AList.update (block_lb addr) e (write_set tx),
                                      read_set := AList.delete (block_lb addr) (read_set tx)\<rparr>)))
          (\<lambda>_. store_entry addr value)))"

subsection \<open>Locks\<close>

definition glue_put :: "platform \<Rightarrow> nat \<Rightarrow> u64 \<Rightarrow> u8 list \<Rightarrow> world \<Rightarrow> world" where
  "glue_put G n a bs w = (let w' = sync G w in w'\<lparr>mem := gasnet_put G (mem w') n a bs\<rparr>)"

text \<open>
  One round of filling request arrays, one per node, until an array is full or the write set
  is used up: the arrays and the rest of the write set.
\<close>

fun fill_requests ::
  "nat \<Rightarrow> u64 \<Rightarrow> (u64 \<times> entry) list \<Rightarrow> (nat \<times> u64 list) list \<Rightarrow>
   ((nat \<times> u64 list) list \<times> (u64 \<times> entry) list) option" where
  "fill_requests maxr self [] arrs = Some (arrs, [])"
| "fill_requests maxr self ((addr, e) # it) arrs =
     (let node = unat (NODE_FROM_ADDRESS addr);
          objvers = (case map_of arrs node of
              Some o' \<Rightarrow> o'
            | None \<Rightarrow> (replicate (2 * maxr + 2) 0)[0 := self, 1 := 0]);
          objects_count = objvers ! 1
      in case aput objvers (unat objects_count + 2) (ADDR_FROM_ADDRESS addr) of
           None \<Rightarrow> None
         | Some o1 \<Rightarrow>
             (case aput o1 (unat objects_count + maxr + 2) (ent_ts e) of
                None \<Rightarrow> None
              | Some o2 \<Rightarrow>
                  let arrs' = AList.update node (o2[1 := objects_count + 1]) arrs
                  in if unat (objects_count + 1) = maxr then Some (arrs', it)
                     else fill_requests maxr self it arrs'))"

definition locksRequestProcessed :: "u64 list \<Rightarrow> tx \<Rightarrow> tx" where
  "locksRequestProcessed objs tx =
     tx\<lparr>rlChangedObjects := rlChangedObjects tx @ objs, rlNodes := rlNodes tx + 1\<rparr>"

text \<open>
  The requests of a round, each served on its node and answered to this transaction.  A reply
  that names another descriptor would run that object's method: a fault.
\<close>

fun send_requests :: "platform \<Rightarrow> memmgr \<Rightarrow> nat \<Rightarrow> (nat \<times> u64 list) list \<Rightarrow> unit comp" where
  "send_requests G M nbytes [] s = Some (Ok (), s)"
| "send_requests G M nbytes ((node, objvers) # rest) s =
     (case s of (tx, w) \<Rightarrow>
        case requestlocks_medhandler (G\<lparr>gasnet_mynode := node\<rparr>) M objvers nbytes w of
          None \<Rightarrow> Some (Fault, tx, w)
        | Some ((reply, nobjs), w') \<Rightarrow>
            (case requestlocks_succ_medhandler reply nobjs of
               None \<Rightarrow> Some (Fault, tx, w')
             | Some (d, objs) \<Rightarrow>
                 if d = descr tx then send_requests G M nbytes rest (locksRequestProcessed objs tx, w')
                 else Some (Fault, tx, w')))"

fun release_objects :: "platform \<Rightarrow> memmgr \<Rightarrow> u64 list \<Rightarrow> (u64 \<times> entry) list \<Rightarrow> world \<Rightarrow> unit outcome \<times> world" where
  "release_objects G M changed [] w = (Ok (), w)"
| "release_objects G M changed ((addr, e) # it) w =
     (if addr \<notin> set changed
      then case getObjectLockAddr M addr of
             None \<Rightarrow> (Fault, w)
           | Some lock_addr \<Rightarrow>
               release_objects G M changed it
                 (glue_put G (unat (NODE_FROM_ADDRESS addr)) (ADDR_FROM_ADDRESS lock_addr) (bytes_of_u64 (ent_ts e)) w)
      else release_objects G M changed it w)"

definition releaseLocks :: "platform \<Rightarrow> memmgr \<Rightarrow> (u64 \<times> entry) list \<Rightarrow> unit comp" where
  "releaseLocks G M objs s =
     (case s of (tx, w) \<Rightarrow>
        case release_objects G M (rlChangedObjects tx) objs w of
          (Ok _, w') \<Rightarrow> Some (Ok (), tx\<lparr>rlChangedObjects := []\<rparr>, w')
        | (Aborted r, w') \<Rightarrow> Some (Aborted r, tx, w')
        | (Fault, w') \<Rightarrow> Some (Fault, tx, w'))"

text \<open>The loop of \<open>getLocks\<close> that records the versions of changed objects, after their release.\<close>

fun cache_changed :: "platform \<Rightarrow> u64 list \<Rightarrow> unit comp" where
  "cache_changed G [] s = Some (Ok (), s)"
| "cache_changed G (a # as) s =
     (case s of (tx, w) \<Rightarrow>
        case map_of (write_set tx) a of
          None \<Rightarrow> Some (Fault, tx, w)
        | Some e \<Rightarrow> cache_changed G as (tx, cache_add G a (ent_ts e) w))"

lemma fill_requests_suffix:
  "fill_requests maxr self xs arrs = Some (arrs', it') \<Longrightarrow> \<exists>ys. xs = ys @ it' \<and> (xs \<noteq> [] \<longrightarrow> ys \<noteq> [])"
proof (induction xs arbitrary: arrs)
  case (Cons x xs)
  obtain a e where x: "x = (a, e)" by force
  from Cons.prems consider "it' = xs" | arrs'' where "fill_requests maxr self xs arrs'' = Some (arrs', it')"
    by (auto simp: x Let_def split: option.splits if_splits)
  then show ?case
  proof cases
    case 1
    then show ?thesis by (intro exI [of _ "[x]"]) simp
  next
    case 2
    from Cons.IH [OF this] obtain ys where "xs = ys @ it'" by blast
    then show ?thesis by (intro exI [of _ "x # ys"]) simp
  qed
qed simp

lemma fill_requests_shorter:
  "fill_requests maxr self (x # xs) arrs = Some (arrs', it') \<Longrightarrow> length it' < Suc (length xs)"
  using fill_requests_suffix [of maxr self "x # xs" arrs arrs' it'] by (auto simp: Cons_eq_append_conv)

text \<open>
  \<open>getLocks\<close> from the position \<open>it\<close> of its iterator on.  After the replies of a round it waits
  for, it goes on or, when a node reported a changed object, releases what it holds of the
  objects before its position.
\<close>

function get_locks_loop :: "platform \<Rightarrow> memmgr \<Rightarrow> (u64 \<times> entry) list \<Rightarrow> bool comp" where
  "get_locks_loop G M [] s = Some (Ok True, s)"
| "get_locks_loop G M (x # xs) s =
     (case s of (tx, w) \<Rightarrow>
        case fill_requests (maxRequestedLocksPerNode tx) (descr tx) (x # xs) [] of
          None \<Rightarrow> Some (Fault, tx, w)
        | Some (arrs, it) \<Rightarrow>
            (case send_requests G M ((2 * maxRequestedLocksPerNode tx + 2) * 8) arrs (tx\<lparr>rlNodes := 0\<rparr>, w) of
               None \<Rightarrow> None
             | Some (Ok _, tx1, w1) \<Rightarrow>
                 if rlNodes tx1 < length arrs then None
                 else if rlChangedObjects tx1 \<noteq> []
                 then bnd (releaseLocks G M (take (length (write_set tx1) - length it) (write_set tx1))) (\<lambda>_.
                      bnd (if CACHE G then bnd (get_tx rlChangedObjects) (cache_changed G) else ret ()) (\<lambda>_.
                      bnd (on_tx (\<lambda>tx. tx\<lparr>rlChangedObjects := []\<rparr>)) (\<lambda>_. ret False))) (tx1, w1)
                 else get_locks_loop G M it (tx1, w1)
             | Some (Aborted r, s1) \<Rightarrow> Some (Aborted r, s1)
             | Some (Fault, s1) \<Rightarrow> Some (Fault, s1)))"
  by pat_completeness auto
termination
  by (relation "measure (\<lambda>(G, M, it, s). length it)") (auto dest: fill_requests_shorter)

definition getLocks :: "platform \<Rightarrow> memmgr \<Rightarrow> bool comp" where
  "getLocks G M s = get_locks_loop G M (write_set (fst s)) s"

subsection \<open>Commit\<close>

fun commitWriteSetValues :: "platform \<Rightarrow> (u64 \<times> entry) list \<Rightarrow> world \<Rightarrow> world" where
  "commitWriteSetValues G [] w = w"
| "commitWriteSetValues G ((addr, e) # it) w =
     commitWriteSetValues G it
       (glue_put G (unat (NODE_FROM_ADDRESS addr)) (ADDR_FROM_ADDRESS addr) (take (2 ^ CDU_SIZE) (ent_data e)) w)"

fun release_with_version ::
  "platform \<Rightarrow> memmgr \<Rightarrow> u64 \<Rightarrow> (u64 \<times> entry) list \<Rightarrow> world \<Rightarrow> unit outcome \<times> world" where
  "release_with_version G M new_version [] w = (Ok (), w)"
| "release_with_version G M new_version ((addr, e) # it) w =
     (case getObjectLockAddr M addr of
        None \<Rightarrow> (Fault, w)
      | Some lock_addr \<Rightarrow>
          let w1 = glue_put G (unat (NODE_FROM_ADDRESS addr)) (ADDR_FROM_ADDRESS lock_addr) (bytes_of_u64 new_version) w
          in release_with_version G M new_version it (if CACHE G then cache_add G addr new_version w1 else w1))"

definition releaseLocksWithNewClock :: "platform \<Rightarrow> memmgr \<Rightarrow> unit comp" where
  "releaseLocksWithNewClock G M s =
     (case s of (tx, w) \<Rightarrow>
        case getNextClock G w of
          None \<Rightarrow> None
        | Some (new_clock, w1) \<Rightarrow>
            let new_version = TO_NODE_TS (of_nat (gasnet_mynode G)) OR new_clock
            in case release_with_version G M new_version (write_set tx) w1 of
                 (r, w2) \<Rightarrow> Some (r, tx, w2))"

definition tx_commit :: "platform \<Rightarrow> memmgr \<Rightarrow> bool comp" where
  "tx_commit G M =
     bnd (get_tx write_set) (\<lambda>ws.
     bnd (if ws \<noteq> []
          then bnd (getLocks G M) (\<lambda>ok. if \<not> ok then tx_abort ABORT_GRABBING_LOCKS else ret ())
          else ret ()) (\<lambda>_.
     bnd (validateAll G M) (\<lambda>valid.
     if \<not> valid
     then bnd (if ws \<noteq> [] then releaseLocks G M ws else ret ()) (\<lambda>_. tx_abort ABORT_READSET_VAL)
     else bnd (on_world (\<lambda>w. Some ((), commitWriteSetValues G ws w))) (\<lambda>_.
          bnd (releaseLocksWithNewClock G M) (\<lambda>_.
          bnd (on_tx (\<lambda>tx. (clearReadSet (clearWriteSet tx))\<lparr>status := TX_COMMITTED\<rparr>)) (\<lambda>_.
          ret True))))))"

end
