(* ===== verification/Tx_Memory.thy ===== *)
theory Tx_Memory
  imports Transaction
begin

text \<open>
  Memory as the transactions see it: the lock word and the content of every block.  Stores to
  one leave all the others alone (the contract \<open>lock_table\<close>), so the effect of a protocol phase
  is described by the lock words it sets and the blocks it writes.
\<close>

subsection \<open>Blocks\<close>

definition is_block :: "memmgr \<Rightarrow> u64 \<Rightarrow> bool" where
  "is_block M b \<longleftrightarrow> wf_mgr M \<and> in_objects M b \<and> block_lb b = b"

definition bnode :: "u64 \<Rightarrow> nat" where
  "bnode b = unat (NODE_FROM_ADDRESS b)"

definition lock_loc :: "memmgr \<Rightarrow> u64 \<Rightarrow> u64" where
  "lock_loc M b = ADDR_FROM_ADDRESS (the (getObjectLockAddr M b))"

definition lock_word :: "memmgr \<Rightarrow> memory \<Rightarrow> u64 \<Rightarrow> u64" where
  "lock_word M m b = load64 m (bnode b) (lock_loc M b)"

definition content :: "memory \<Rightarrow> u64 \<Rightarrow> u8 list" where
  "content m b = load_bytes m (bnode b) (ADDR_FROM_ADDRESS b) 64"

definition set_lock :: "memmgr \<Rightarrow> memory \<Rightarrow> u64 \<Rightarrow> u64 \<Rightarrow> memory" where
  "set_lock M m b v = store64 m (bnode b) (lock_loc M b) v"

definition set_content :: "memory \<Rightarrow> u64 \<Rightarrow> u8 list \<Rightarrow> memory" where
  "set_content m b bs = store_bytes m (bnode b) (ADDR_FROM_ADDRESS b) bs"

lemma is_blockD:
  assumes "is_block M b"
  shows "wf_mgr M \<and> in_objects M b" "block_lb b = b"
    "\<exists>l. getObjectLockAddr M b = Some l \<and> NODE_FROM_ADDRESS l = NODE_FROM_ADDRESS b \<and> ADDR_FROM_ADDRESS l = lock_loc M b"
    "getObjectLockAddr_at M (ADDR_FROM_ADDRESS b) (bnode b) = Some (lock_loc M b)"
proof -
  show v: "wf_mgr M \<and> in_objects M b" "block_lb b = b" using assms by (auto simp: is_block_def)
  obtain l where l: "getObjectLockAddr M b = Some l" using mgr.lock_of_valid [OF v(1)] by blast
  with mgr.lock_of_node [OF v(1) l] mgr.lock_at_lock_of [OF v(1) l]
  show "\<exists>l. getObjectLockAddr M b = Some l \<and> NODE_FROM_ADDRESS l = NODE_FROM_ADDRESS b \<and> ADDR_FROM_ADDRESS l = lock_loc M b"
    "getObjectLockAddr_at M (ADDR_FROM_ADDRESS b) (bnode b) = Some (lock_loc M b)"
    by (simp_all add: lock_loc_def bnode_def)
qed

lemma locks_apart:
  assumes "is_block M a" "is_block M b" "a \<noteq> b"
  shows "apart (bnode a) (lock_loc M a) 8 (bnode b) (lock_loc M b) 8"
proof -
  note A = is_blockD [OF assms(1)] and B = is_blockD [OF assms(2)]
  obtain l l' where "getObjectLockAddr M a = Some l" "getObjectLockAddr M b = Some l'" using A(3) B(3) by blast
  with mgr.locks_apart [OF A(1) B(1) _ this] A(2) B(2) assms(3) show ?thesis
    by (simp add: bnode_def lock_loc_def)
qed

lemma lock_content_apart:
  assumes "is_block M a" "is_block M b"
  shows "apart (bnode a) (lock_loc M a) 8 (bnode b) (ADDR_FROM_ADDRESS b) 64"
proof -
  note A = is_blockD [OF assms(1)] and B = is_blockD [OF assms(2)]
  obtain l where "getObjectLockAddr M a = Some l" using A(3) by blast
  with mgr.lock_block_apart [OF A(1) B(1) this] B(2) show ?thesis
    by (simp add: bnode_def lock_loc_def)
qed

lemma contents_apart:
  assumes "is_block M a" "is_block M b" "a \<noteq> b"
  shows "apart (bnode a) (ADDR_FROM_ADDRESS a) 64 (bnode b) (ADDR_FROM_ADDRESS b) 64"
  using mgr.blocks_apart [OF is_blockD(1) [OF assms(1)] is_blockD(1) [OF assms(2)]]
    is_blockD(2) [OF assms(1)] is_blockD(2) [OF assms(2)] assms(3)
  by (simp add: bnode_def)

lemma length_content [simp]: "length (content m b) = 64"
  by (simp add: content_def)

lemma lock_word_set_lock:
  "is_block M a \<Longrightarrow> is_block M b \<Longrightarrow> lock_word M (set_lock M m a v) b = (if b = a then v else lock_word M m b)"
  using locks_apart [of M a b] by (auto simp: lock_word_def set_lock_def load_store64_same load_store64_apart)

lemma content_set_lock:
  "is_block M a \<Longrightarrow> is_block M b \<Longrightarrow> content (set_lock M m a v) b = content m b"
  using lock_content_apart [of M a b] by (simp add: content_def set_lock_def load_bytes_store64_apart)

lemma lock_word_set_content:
  "is_block M a \<Longrightarrow> is_block M b \<Longrightarrow> length bs = 64 \<Longrightarrow> lock_word M (set_content m a bs) b = lock_word M m b"
  using lock_content_apart [of M b a]
  by (simp add: lock_word_def set_content_def load64_store_bytes_apart apart_sym)

lemma content_set_content:
  "is_block M a \<Longrightarrow> is_block M b \<Longrightarrow> length bs = 64 \<Longrightarrow> content (set_content m a bs) b = (if b = a then bs else content m b)"
  using contents_apart [of M a b] load_store_same [of m "bnode a" "ADDR_FROM_ADDRESS a" bs]
  by (auto simp: content_def set_content_def load_store_apart)

lemmas memory_simps = lock_word_set_lock content_set_lock lock_word_set_content content_set_content

subsection \<open>Memories that differ in lock words\<close>

text \<open>\<open>m'\<close> is \<open>m\<close> with the lock words of the blocks in the domain of \<open>g\<close> set as \<open>g\<close> says.\<close>

definition locks_set :: "memmgr \<Rightarrow> (u64 \<Rightarrow> u64 option) \<Rightarrow> memory \<Rightarrow> memory \<Rightarrow> bool" where
  "locks_set M g m m' \<longleftrightarrow> (\<forall>b \<in> dom g. is_block M b) \<and> (\<forall>b v. g b = Some v \<longrightarrow> lock_word M m' b = v) \<and>
     (\<forall>n x. (\<forall>b \<in> dom g. n = bnode b \<longrightarrow> x < unat (lock_loc M b) \<or> unat (lock_loc M b) + 8 \<le> x) \<longrightarrow> m' n x = m n x)"

lemma locks_set_empty: "locks_set M Map.empty m m"
  by (simp add: locks_set_def)

lemma store64_outside:
  "(n = n' \<longrightarrow> x < unat a \<or> unat a + 8 \<le> x) \<Longrightarrow> store64 m n' a v n x = m n x"
  by (auto simp: store64_def store_bytes_def)

lemma locks_set_update:
  assumes "locks_set M g m m'" "is_block M b"
  shows "locks_set M (g(b \<mapsto> v)) m (set_lock M m' b v)"
proof -
  have "lock_word M (set_lock M m' b v) c = u" if "(g(b \<mapsto> v)) c = Some u" for c u
  proof (cases "c = b")
    case True
    then show ?thesis using that lock_word_set_lock [OF assms(2,2)] by simp
  next
    case False
    then have "g c = Some u" using that by simp
    then have "is_block M c" "lock_word M m' c = u" using assms(1) by (auto simp: locks_set_def)
    then show ?thesis using False lock_word_set_lock [OF assms(2)] by simp
  qed
  moreover have "set_lock M m' b v n x = m n x"
    if "\<forall>c \<in> dom (g(b \<mapsto> v)). n = bnode c \<longrightarrow> x < unat (lock_loc M c) \<or> unat (lock_loc M c) + 8 \<le> x" for n x
  proof -
    have "set_lock M m' b v n x = m' n x"
      unfolding set_lock_def by (rule store64_outside) (use that in auto)
    also have "\<dots> = m n x" using assms(1) that by (auto simp: locks_set_def)
    finally show ?thesis .
  qed
  ultimately show ?thesis using assms by (auto simp: locks_set_def)
qed

lemma outside_apart:
  assumes "apart (bnode c) (lock_loc M c) 8 n a k" "unat a \<le> x" "x < unat a + k"
  shows "n = bnode c \<longrightarrow> x < unat (lock_loc M c) \<or> unat (lock_loc M c) + 8 \<le> x"
  using assms by (auto simp: apart_def)

lemma locks_set_lock_word:
  assumes "locks_set M g m m'" "is_block M b"
  shows "lock_word M m' b = (case g b of Some v \<Rightarrow> v | None \<Rightarrow> lock_word M m b)"
proof (cases "g b")
  case None
  have "m' (bnode b) x = m (bnode b) x" if "unat (lock_loc M b) \<le> x" "x < unat (lock_loc M b) + 8" for x
  proof -
    have "\<forall>c \<in> dom g. bnode b = bnode c \<longrightarrow> x < unat (lock_loc M c) \<or> unat (lock_loc M c) + 8 \<le> x"
    proof
      fix c assume c: "c \<in> dom g"
      then have "is_block M c" "c \<noteq> b" using assms(1) None by (auto simp: locks_set_def)
      from outside_apart [OF locks_apart [OF this(1) assms(2) this(2)] that]
      show "bnode b = bnode c \<longrightarrow> x < unat (lock_loc M c) \<or> unat (lock_loc M c) + 8 \<le> x" .
    qed
    with assms(1) show ?thesis by (simp add: locks_set_def)
  qed
  then have "load_bytes m' (bnode b) (lock_loc M b) 8 = load_bytes m (bnode b) (lock_loc M b) 8"
    by (auto simp: load_bytes_def)
  with None show ?thesis by (simp add: lock_word_def load64_def)
qed (use assms in \<open>auto simp: locks_set_def\<close>)

lemma locks_set_content:
  assumes "locks_set M g m m'" "is_block M b"
  shows "content m' b = content m b"
proof -
  have "m' (bnode b) x = m (bnode b) x"
    if "unat (ADDR_FROM_ADDRESS b) \<le> x" "x < unat (ADDR_FROM_ADDRESS b) + 64" for x
  proof -
    have "\<forall>c \<in> dom g. bnode b = bnode c \<longrightarrow> x < unat (lock_loc M c) \<or> unat (lock_loc M c) + 8 \<le> x"
    proof
      fix c assume "c \<in> dom g"
      then have "is_block M c" using assms(1) by (auto simp: locks_set_def)
      from outside_apart [OF lock_content_apart [OF this assms(2)] that]
      show "bnode b = bnode c \<longrightarrow> x < unat (lock_loc M c) \<or> unat (lock_loc M c) + 8 \<le> x" .
    qed
    with assms(1) show ?thesis by (simp add: locks_set_def)
  qed
  then show ?thesis by (auto simp: content_def load_bytes_def)
qed

lemma u64_of_bytes_inj: "length bs = 8 \<Longrightarrow> length bs' = 8 \<Longrightarrow> u64_of_bytes bs = u64_of_bytes bs' \<Longrightarrow> bs = bs'"
  by (metis bytes_of_u64_of_bytes)

text \<open>Setting lock words to what they were gives the memory back, byte for byte.\<close>

lemma locks_set_restore:
  assumes "locks_set M g m m'" "\<forall>b v. g b = Some v \<longrightarrow> v = lock_word M m b"
  shows "m' = m"
proof (intro ext)
  fix n x
  show "m' n x = m n x"
  proof (cases "\<forall>c \<in> dom g. n = bnode c \<longrightarrow> x < unat (lock_loc M c) \<or> unat (lock_loc M c) + 8 \<le> x")
    case True
    with assms(1) show ?thesis by (simp add: locks_set_def)
  next
    case False
    then obtain c v where c: "g c = Some v" "n = bnode c" "unat (lock_loc M c) \<le> x" "x < unat (lock_loc M c) + 8"
      by auto
    with assms have "lock_word M m' c = lock_word M m c" by (auto simp: locks_set_def)
    then have "load_bytes m' n (lock_loc M c) 8 = load_bytes m n (lock_loc M c) 8"
      using c(2) by (intro u64_of_bytes_inj) (simp_all add: lock_word_def load64_def)
    moreover have "x - unat (lock_loc M c) < 8" using c by simp
    ultimately show ?thesis
      using nth_load_bytes [of "x - unat (lock_loc M c)" 8 m' n "lock_loc M c"]
        nth_load_bytes [of "x - unat (lock_loc M c)" 8 m n "lock_loc M c"] c(3) by simp
  qed
qed

end
