(* ===== verification/Tx_Locks.thy ===== *)
theory Tx_Locks
  imports Tx_Memory
begin

text \<open>
  The lock phases of a commit when no other thread interferes: request arrays and their
  contents, the effect of a round of requests over all nodes, release of what was taken.
\<close>

subsection \<open>Taking locks\<close>

text \<open>The lock server on a list of blocks and versions, as a function on memories.\<close>

definition take_lock :: "memmgr \<Rightarrow> u64 \<times> u64 \<Rightarrow> memory \<Rightarrow> memory" where
  "take_lock M p m = (if lock_word M m (fst p) > snd p then m else set_lock M m (fst p) (snd p OR LOCK_BIT))"

definition take_locks :: "memmgr \<Rightarrow> (u64 \<times> u64) list \<Rightarrow> memory \<Rightarrow> memory" where
  "take_locks M ps m = fold (take_lock M) ps m"

definition refused :: "memmgr \<Rightarrow> memory \<Rightarrow> (u64 \<times> u64) list \<Rightarrow> (u64 \<times> u64) list" where
  "refused M m ps = filter (\<lambda>p. lock_word M m (fst p) > snd p) ps"

definition lock_map :: "memmgr \<Rightarrow> memory \<Rightarrow> (u64 \<times> u64) list \<Rightarrow> u64 \<Rightarrow> u64 option" where
  "lock_map M m ps b = (case map_of ps b of None \<Rightarrow> None
     | Some v \<Rightarrow> if lock_word M m b > v then None else Some (v OR LOCK_BIT))"

definition blocks_of :: "memmgr \<Rightarrow> (u64 \<times> 'a) list \<Rightarrow> bool" where
  "blocks_of M ps \<longleftrightarrow> distinct (map fst ps) \<and> (\<forall>b \<in> fst ` set ps. is_block M b)"

lemma blocks_of_simps [simp]:
  "blocks_of M []" "blocks_of M (p # ps) \<longleftrightarrow> is_block M (fst p) \<and> fst p \<notin> fst ` set ps \<and> blocks_of M ps"
  "blocks_of M (ps @ qs) \<longleftrightarrow> blocks_of M ps \<and> blocks_of M qs \<and> fst ` set ps \<inter> fst ` set qs = {}"
  by (auto simp: blocks_of_def)

lemma take_locks_simps [simp]:
  "take_locks M [] m = m" "take_locks M (p # ps) m = take_locks M ps (take_lock M p m)"
  "take_locks M (ps @ qs) m = take_locks M qs (take_locks M ps m)"
  by (simp_all add: take_locks_def)

lemma refused_simps [simp]:
  "refused M m [] = []" "refused M m (ps @ qs) = refused M m ps @ refused M m qs"
  by (simp_all add: refused_def)

lemma lock_word_take_lock:
  "is_block M (fst p) \<Longrightarrow> is_block M b \<Longrightarrow> b \<noteq> fst p \<Longrightarrow> lock_word M (take_lock M p m) b = lock_word M m b"
  by (simp add: take_lock_def lock_word_set_lock)

lemma lock_word_take_locks:
  "blocks_of M ps \<Longrightarrow> is_block M b \<Longrightarrow> b \<notin> fst ` set ps \<Longrightarrow> lock_word M (take_locks M ps m) b = lock_word M m b"
  by (induction ps arbitrary: m) (auto simp: lock_word_take_lock)

lemma refused_cong:
  "(\<And>b. b \<in> fst ` set ps \<Longrightarrow> lock_word M m b = lock_word M m' b) \<Longrightarrow> refused M m ps = refused M m' ps"
  unfolding refused_def by (rule filter_cong) auto

lemma refused_take_lock:
  "is_block M (fst p) \<Longrightarrow> blocks_of M ps \<Longrightarrow> fst p \<notin> fst ` set ps \<Longrightarrow> refused M (take_lock M p m) ps = refused M m ps"
  by (rule refused_cong) (metis blocks_of_def lock_word_take_lock)

lemma refused_take_locks:
  "blocks_of M qs \<Longrightarrow> blocks_of M ps \<Longrightarrow> fst ` set qs \<inter> fst ` set ps = {} \<Longrightarrow> refused M (take_locks M qs m) ps = refused M m ps"
  by (rule refused_cong) (metis (no_types, lifting) blocks_of_def disjoint_iff lock_word_take_locks)

lemma locks_set_take_locks:
  assumes "locks_set M g m0 m" "blocks_of M ps" "\<forall>b \<in> fst ` set ps. g b = None"
  shows "locks_set M (g ++ lock_map M m0 ps) m0 (take_locks M ps m)"
  using assms
proof (induction ps arbitrary: g m)
  case Nil
  then show ?case by (simp add: lock_map_def map_add_def)
next
  case (Cons p ps)
  obtain b v where p: "p = (b, v)" by force
  have b: "is_block M b" "b \<notin> fst ` set ps" "g b = None" using Cons.prems by (auto simp: p)
  have w: "lock_word M m b = lock_word M m0 b"
    using locks_set_lock_word [OF Cons.prems(1) b(1)] b(3) by simp
  let ?g = "if lock_word M m0 b > v then g else g(b \<mapsto> v OR LOCK_BIT)"
  have "locks_set M ?g m0 (take_lock M p m)"
    using Cons.prems(1) locks_set_update [OF Cons.prems(1) b(1)] by (simp add: p take_lock_def w)
  moreover have "\<forall>c \<in> fst ` set ps. ?g c = None" using Cons.prems(3) b(2) by auto
  ultimately have IH: "locks_set M (?g ++ lock_map M m0 ps) m0 (take_locks M ps (take_lock M p m))"
    using Cons.IH Cons.prems(2) by simp
  have "?g ++ lock_map M m0 ps = g ++ lock_map M m0 (p # ps)"
  proof
    fix c
    have "map_of ps b = None" using b(2) by (simp add: map_of_eq_None_iff)
    then show "(?g ++ lock_map M m0 ps) c = (g ++ lock_map M m0 (p # ps)) c"
      using b(3) by (auto simp: lock_map_def map_add_def p split: option.splits)
  qed
  with IH show ?case by simp
qed

subsection \<open>Serving a request array\<close>

lemma quiet_node: "quiet_api G \<Longrightarrow> quiet_api (G\<lparr>gasnet_mynode := n\<rparr>)"
  by (simp add: quiet_api_def gasnet_api_def quiet_api_axioms_def)

lemma block_tag: "\<not> locked b \<Longrightarrow> ADDR_FROM_ADDRESS b OR TO_NODE_TS (of_nat (bnode b)) = b"
  using addr_unpack [of b] by (simp add: bnode_def)

lemma is_block_unlocked: "is_block M b \<Longrightarrow> \<not> locked b"
  unfolding is_block_def using in_objectsD(1) by blast

lemma lock_object_block:
  assumes "quiet_api G" "is_block M b"
  shows "\<exists>t. lock_object (G\<lparr>gasnet_mynode := bnode b\<rparr>) M (ADDR_FROM_ADDRESS b) v w =
    Some (map fst (refused M (mem w) [(b, v)]), w\<lparr>mem := take_lock M (b, v) (mem w), tick := t\<rparr>)"
proof -
  note L = lock_object_quiet [OF quiet_node [OF assms(1)], of M "ADDR_FROM_ADDRESS b" "bnode b" "lock_loc M b" _ w v]
  have same: "w\<lparr>mem := mem w, tick := t\<rparr> = w\<lparr>tick := t\<rparr>" for t by simp
  from L [OF _ refl] is_blockD(4) [OF assms(2)] block_tag [OF is_block_unlocked [OF assms(2)]] show ?thesis
    by (auto simp: refused_def take_lock_def lock_word_def set_lock_def same split: if_splits)
qed

definition buf_rep :: "nat \<Rightarrow> u64 \<Rightarrow> (u64 \<times> u64) list \<Rightarrow> u64 list \<Rightarrow> bool" where
  "buf_rep maxr self ps buf \<longleftrightarrow> length buf = 2 * maxr + 2 \<and> buf ! 0 = self \<and> buf ! 1 = of_nat (length ps) \<and>
     length ps \<le> maxr \<and> (\<forall>j < length ps. buf ! (j + 2) = ADDR_FROM_ADDRESS (fst (ps ! j)) \<and> buf ! (j + maxr + 2) = snd (ps ! j))"

lemma lock_objects_block:
  assumes Q: "quiet_api G"
    and "blocks_of M ps" "\<forall>p \<in> set ps. bnode (fst p) = n"
    and "\<forall>j < length ps. aget buf (i + j + 2) = Some (ADDR_FROM_ADDRESS (fst (ps ! j))) \<and>
      aget buf (maxr + (i + j) + 2) = Some (snd (ps ! j))"
  shows "\<exists>t. lock_objects (G\<lparr>gasnet_mynode := n\<rparr>) M buf maxr i (length ps) changed w =
    Some (changed @ map fst (refused M (mem w) ps), w\<lparr>mem := take_locks M ps (mem w), tick := t\<rparr>)"
  using assms(2-4)
proof (induction ps arbitrary: i changed w)
  case Nil
  show ?case by (intro exI [of _ "tick w"]) simp
next
  case (Cons p ps)
  obtain b v where p: "p = (b, v)" by force
  have b: "is_block M b" "bnode b = n" "b \<notin> fst ` set ps" "blocks_of M ps" using Cons.prems by (auto simp: p)
  have hd: "aget buf (i + 2) = Some (ADDR_FROM_ADDRESS b)" "aget buf (maxr + i + 2) = Some v"
    using Cons.prems(3) by (force simp: p)+
  obtain t where t: "lock_object (G\<lparr>gasnet_mynode := n\<rparr>) M (ADDR_FROM_ADDRESS b) v w =
      Some (map fst (refused M (mem w) [(b, v)]), w\<lparr>mem := take_lock M (b, v) (mem w), tick := t\<rparr>)" (is "_ = Some (_, ?w)")
    using lock_object_block [OF Q b(1)] b(2) by blast
  have rest: "\<forall>j < length ps. aget buf (Suc i + j + 2) = Some (ADDR_FROM_ADDRESS (fst (ps ! j))) \<and>
      aget buf (maxr + (Suc i + j) + 2) = Some (snd (ps ! j))"
  proof (intro allI impI)
    fix j assume "j < length ps"
    then have "Suc j < length (p # ps)" by simp
    from Cons.prems(3) [rule_format, OF this] show "aget buf (Suc i + j + 2) = Some (ADDR_FROM_ADDRESS (fst (ps ! j))) \<and>
      aget buf (maxr + (Suc i + j) + 2) = Some (snd (ps ! j))" by simp
  qed
  obtain t' where "lock_objects (G\<lparr>gasnet_mynode := n\<rparr>) M buf maxr (Suc i) (length ps) (changed @ map fst (refused M (mem w) [(b, v)])) ?w =
      Some ((changed @ map fst (refused M (mem w) [(b, v)])) @ map fst (refused M (mem ?w) ps), ?w\<lparr>mem := take_locks M ps (mem ?w), tick := t'\<rparr>)"
    using Cons.IH [OF b(4) _ rest] Cons.prems(2) by (metis list.set_intros(2))
  moreover have "refused M (mem ?w) ps = refused M (mem w) ps"
    using refused_take_lock [of M "(b, v)" ps "mem w"] b by simp
  moreover have "refused M (mem w) (p # ps) = refused M (mem w) [(b, v)] @ refused M (mem w) ps"
    by (simp add: refused_def p)
  ultimately show ?case using hd t by (auto simp: p)
qed

lemma aget_Some [simp]: "i < length xs \<Longrightarrow> aget xs i = Some (xs ! i)"
  by (simp add: aget_def)

lemma requestlocks_block:
  assumes Q: "quiet_api G" and B: "blocks_of M ps" "\<forall>p \<in> set ps. bnode (fst p) = n"
    and R: "buf_rep maxr self ps buf" and small: "maxr < 2 ^ 32" and size: "(nbytes - 16) div 16 = maxr"
  shows "\<exists>t reply. requestlocks_medhandler (G\<lparr>gasnet_mynode := n\<rparr>) M buf nbytes w =
      Some ((reply, length (refused M (mem w) ps)), w\<lparr>mem := take_locks M ps (mem w), tick := t\<rparr>) \<and>
    requestlocks_succ_medhandler reply (length (refused M (mem w) ps)) = Some (self, map fst (refused M (mem w) ps))"
proof -
  have len: "length buf = 2 * maxr + 2" "length ps \<le> maxr" and b01: "buf ! 0 = self" "buf ! 1 = of_nat (length ps)"
    using R by (auto simp: buf_rep_def)
  have lt: "length ps < 2 ^ 64" using len(2) small by simp
  have idx: "\<forall>j < length ps. aget buf (0 + j + 2) = Some (ADDR_FROM_ADDRESS (fst (ps ! j))) \<and>
      aget buf (maxr + (0 + j) + 2) = Some (snd (ps ! j))"
    using R len by (auto simp: buf_rep_def add.commute)
  obtain t where t: "lock_objects (G\<lparr>gasnet_mynode := n\<rparr>) M buf maxr 0 (length ps) [] w =
      Some (map fst (refused M (mem w) ps), w\<lparr>mem := take_locks M ps (mem w), tick := t\<rparr>)"
    using lock_objects_block [OF Q B idx, of "[]" w] by auto
  have proc: "processLocksRequest (G\<lparr>gasnet_mynode := n\<rparr>) M buf nbytes w =
      Some (if refused M (mem w) ps \<noteq> [] then Some (0 # of_nat (length (refused M (mem w) ps)) # map fst (refused M (mem w) ps)) else None,
        w\<lparr>mem := take_locks M ps (mem w), tick := t\<rparr>)"
    using len b01 lt unfolding processLocksRequest_def size Let_def
    by (simp add: unat_of_nat_small t)
  have "length (refused M (mem w) ps) \<le> length ps" by (simp add: refused_def)
  then have r: "length (refused M (mem w) ps) < 2 ^ 64" using lt by linarith
  show ?thesis
  proof (cases "refused M (mem w) ps = []")
    case True
    then show ?thesis using len b01
      by (intro exI [of _ t] exI [of _ "[self]"])
        (simp add: requestlocks_medhandler_def proc requestlocks_succ_medhandler_def)
  next
    case False
    have "unat (of_nat (length (refused M (mem w) ps)) :: u64) = length (refused M (mem w) ps)"
      using r by (intro unat_of_nat_small) simp
    with False show ?thesis using len b01
      by (intro exI [of _ t] exI [of _ "self # of_nat (length (refused M (mem w) ps)) # map fst (refused M (mem w) ps)"])
        (simp add: requestlocks_medhandler_def proc requestlocks_succ_medhandler_def)
  qed
qed

subsection \<open>Filling the request arrays\<close>

definition pairs :: "(u64 \<times> entry) list \<Rightarrow> (u64 \<times> u64) list" where
  "pairs ws = map (\<lambda>(b, e). (b, ent_ts e)) ws"

lemma pairs_simps [simp]:
  "pairs [] = []" "pairs ((b, e) # ws) = (b, ent_ts e) # pairs ws" "pairs (xs @ ys) = pairs xs @ pairs ys"
  "map fst (pairs ws) = map fst ws" "fst ` set (pairs ws) = fst ` set ws" "length (pairs ws) = length ws"
  by (auto simp: pairs_def image_iff split: prod.splits) force+

definition on_node :: "nat \<Rightarrow> (u64 \<times> 'a) list \<Rightarrow> (u64 \<times> 'a) list" where
  "on_node n ps = filter (\<lambda>p. bnode (fst p) = n) ps"

definition arrs_rep :: "nat \<Rightarrow> u64 \<Rightarrow> (u64 \<times> u64) list \<Rightarrow> (nat \<times> u64 list) list \<Rightarrow> bool" where
  "arrs_rep maxr self ps arrs \<longleftrightarrow> distinct (map fst arrs) \<and> bnode ` fst ` set ps \<subseteq> fst ` set arrs \<and>
     (\<forall>(n, buf) \<in> set arrs. buf_rep maxr self (on_node n ps) buf)"

lemma buf_rep_empty: "buf_rep maxr self [] ((replicate (2 * maxr + 2) 0)[0 := self, 1 := 0])"
  by (simp add: buf_rep_def)

lemma buf_rep_add:
  assumes R: "buf_rep maxr self ps buf" and less: "length ps < maxr" "maxr < 2 ^ 32"
  shows "unat (buf ! 1) = length ps" "unat (buf ! 1 + 1) = Suc (length ps)"
    "aput buf (unat (buf ! 1) + 2) (ADDR_FROM_ADDRESS b) = Some (buf[length ps + 2 := ADDR_FROM_ADDRESS b])"
    "aput (buf[length ps + 2 := ADDR_FROM_ADDRESS b]) (unat (buf ! 1) + maxr + 2) v =
      Some (buf[length ps + 2 := ADDR_FROM_ADDRESS b, length ps + maxr + 2 := v])"
    "buf_rep maxr self (ps @ [(b, v)])
      (buf[length ps + 2 := ADDR_FROM_ADDRESS b, length ps + maxr + 2 := v, 1 := buf ! 1 + 1])"
proof -
  have len: "length buf = 2 * maxr + 2" "buf ! 1 = of_nat (length ps)" using R by (auto simp: buf_rep_def)
  have lt: "Suc (length ps) < 2 ^ 64" using less by simp
  show u: "unat (buf ! 1) = length ps" using lt len(2) by (simp add: unat_of_nat_small)
  have "unat (buf ! 1 + 1) = unat (buf ! 1) + unat (1 :: u64)"
    by (rule unat_plus_simple) (use u lt in simp)
  then show "unat (buf ! 1 + 1) = Suc (length ps)" using u by simp
  show "aput buf (unat (buf ! 1) + 2) (ADDR_FROM_ADDRESS b) = Some (buf[length ps + 2 := ADDR_FROM_ADDRESS b])"
    "aput (buf[length ps + 2 := ADDR_FROM_ADDRESS b]) (unat (buf ! 1) + maxr + 2) v =
      Some (buf[length ps + 2 := ADDR_FROM_ADDRESS b, length ps + maxr + 2 := v])"
    unfolding u using less(1) len(1) by (simp_all add: aput_def)
  show "buf_rep maxr self (ps @ [(b, v)])
      (buf[length ps + 2 := ADDR_FROM_ADDRESS b, length ps + maxr + 2 := v, 1 := buf ! 1 + 1])"
    unfolding buf_rep_def
  proof (intro conjI allI impI)
    fix j assume "j < length (ps @ [(b, v)])"
    then consider "j < length ps" | "j = length ps" by force
    then show "buf[length ps + 2 := ADDR_FROM_ADDRESS b, length ps + maxr + 2 := v, 1 := buf ! 1 + 1] ! (j + 2) =
        ADDR_FROM_ADDRESS (fst ((ps @ [(b, v)]) ! j))"
      and "buf[length ps + 2 := ADDR_FROM_ADDRESS b, length ps + maxr + 2 := v, 1 := buf ! 1 + 1] ! (j + maxr + 2) =
        snd ((ps @ [(b, v)]) ! j)"
      using R less(1) len(1) by (cases; simp add: buf_rep_def nth_append)+
  qed (use R less(1) len in \<open>simp_all add: buf_rep_def\<close>)
qed

lemma arrs_rep_empty: "arrs_rep maxr self [] []"
  by (simp add: arrs_rep_def)

lemma arrs_rep_add:
  assumes A: "arrs_rep maxr self ps arrs" and less: "length (on_node (bnode b) ps) < maxr" "maxr < 2 ^ 32"
  defines "buf \<equiv> (case map_of arrs (bnode b) of Some o' \<Rightarrow> o' | None \<Rightarrow> (replicate (2 * maxr + 2) 0)[0 := self, 1 := 0])"
  shows "buf_rep maxr self (on_node (bnode b) ps) buf"
    "buf_rep maxr self (on_node (bnode b) ps @ [(b, v)]) buf' \<Longrightarrow>
     arrs_rep maxr self (ps @ [(b, v)]) (AList.update (bnode b) buf' arrs)"
proof -
  have d: "distinct (map fst arrs)" using A by (simp add: arrs_rep_def)
  show R: "buf_rep maxr self (on_node (bnode b) ps) buf"
  proof (cases "map_of arrs (bnode b)")
    case None
    then have "bnode b \<notin> bnode ` fst ` set ps"
      using A by (auto simp: arrs_rep_def map_of_eq_None_iff)
    then have "on_node (bnode b) ps = []" unfolding on_node_def filter_empty_conv by (metis imageI)
    with None show ?thesis using buf_rep_empty by (simp add: buf_def del: replicate.simps)
  next
    case (Some o')
    then have "(bnode b, o') \<in> set arrs" by (rule map_of_SomeD)
    with A Some show ?thesis by (auto simp: arrs_rep_def buf_def)
  qed
  assume R': "buf_rep maxr self (on_node (bnode b) ps @ [(b, v)]) buf'"
  have du: "distinct (map fst (AList.update (bnode b) buf' arrs))" using d by (rule distinct_update)
  have "buf_rep maxr self (on_node n (ps @ [(b, v)])) o'" if "(n, o') \<in> set (AList.update (bnode b) buf' arrs)" for n o'
  proof -
    from map_of_is_SomeI [OF du that] have "((map_of arrs)(bnode b \<mapsto> buf')) n = Some o'" by (simp only: map_of_update)
    then show ?thesis
      using A R' by (auto simp: arrs_rep_def on_node_def split: if_splits dest: map_of_SomeD)
  qed
  moreover have "bnode ` fst ` set (ps @ [(b, v)]) = insert (bnode b) (bnode ` fst ` set ps)" by simp
  moreover have "bnode ` fst ` set ps \<subseteq> fst ` set arrs" using A by (simp add: arrs_rep_def)
  ultimately show "arrs_rep maxr self (ps @ [(b, v)]) (AList.update (bnode b) buf' arrs)"
    using du unfolding arrs_rep_def fst_set_update by blast
qed

lemma fill_requests_rep:
  assumes "arrs_rep maxr self ps arrs" "\<forall>n. length (on_node n ps) < maxr" "maxr < 2 ^ 32"
  shows "\<exists>arrs' ys it'. fill_requests maxr self it arrs = Some (arrs', it') \<and> it = ys @ it' \<and>
    arrs_rep maxr self (ps @ pairs ys) arrs'"
  using assms(1,2)
proof (induction it arbitrary: ps arrs)
  case Nil
  then show ?case by (auto intro: exI [of _ "[]"])
next
  case (Cons x it)
  obtain b e where x: "x = (b, e)" by force
  define buf where "buf = (case map_of arrs (bnode b) of Some o' \<Rightarrow> o' | None \<Rightarrow> (replicate (2 * maxr + 2) 0)[0 := self, 1 := 0])"
  note A = arrs_rep_add [OF Cons.prems(1) _ assms(3), of b, folded buf_def]
  have less: "length (on_node (bnode b) ps) < maxr" using Cons.prems(2) by blast
  note B = buf_rep_add [OF A(1) [OF less] less assms(3)]
  let ?buf = "buf[length (on_node (bnode b) ps) + 2 := ADDR_FROM_ADDRESS b, length (on_node (bnode b) ps) + maxr + 2 := ent_ts e, 1 := buf ! 1 + 1]"
  let ?arrs = "AList.update (bnode b) ?buf arrs"
  have step: "fill_requests maxr self (x # it) arrs =
      (if Suc (length (on_node (bnode b) ps)) = maxr then Some (?arrs, it) else fill_requests maxr self it ?arrs)"
    unfolding x fill_requests.simps bnode_def [symmetric] buf_def [symmetric] Let_def
    by (simp only: B(2-4) option.case)
  have rep: "arrs_rep maxr self (ps @ pairs [x]) ?arrs"
    using A(2) [OF less B(5)] by (simp add: x)
  show ?case
  proof (cases "Suc (length (on_node (bnode b) ps)) = maxr")
    case True
    with step rep show ?thesis by (intro exI [of _ ?arrs] exI [of _ "[x]"] exI [of _ it]) simp
  next
    case False
    have "length (on_node n (ps @ pairs [x])) < maxr" for n
      using Cons.prems(2) [rule_format, of n] False less by (auto simp: on_node_def x)
    with Cons.IH [OF rep] obtain arrs' ys it' where "fill_requests maxr self it ?arrs = Some (arrs', it')" "it = ys @ it'"
      "arrs_rep maxr self ((ps @ pairs [x]) @ pairs ys) arrs'" by blast
    with step False show ?thesis
      by (intro exI [of _ arrs'] exI [of _ "x # ys"] exI [of _ it']) (simp add: x)
  qed
qed

subsection \<open>A round of requests\<close>

definition by_nodes :: "(u64 \<times> u64) list \<Rightarrow> (nat \<times> 'a) list \<Rightarrow> (u64 \<times> u64) list" where
  "by_nodes ps arrs = concat (map (\<lambda>a. on_node (fst a) ps) arrs)"

lemma by_nodes_simps [simp]:
  "by_nodes ps [] = []" "by_nodes ps ((n, buf) # arrs) = on_node n ps @ by_nodes ps arrs"
  by (simp_all add: by_nodes_def)

lemma set_on_node: "set (on_node n ps) = {p \<in> set ps. bnode (fst p) = n}"
  by (auto simp: on_node_def)

lemma set_by_nodes: "set (by_nodes ps arrs) = {p \<in> set ps. bnode (fst p) \<in> fst ` set arrs}"
  by (induction arrs) (auto simp: set_on_node by_nodes_def)

lemma blocks_of_on_node: "blocks_of M ps \<Longrightarrow> blocks_of M (on_node n ps)"
  by (auto simp: blocks_of_def on_node_def distinct_map_filter)

lemma node_disjoint:
  "n \<notin> fst ` set arrs \<Longrightarrow> fst ` set (on_node n ps) \<inter> fst ` set (by_nodes ps arrs) = {}"
  by (force simp: set_on_node set_by_nodes)

lemma blocks_of_by_nodes: "blocks_of M ps \<Longrightarrow> distinct (map fst arrs) \<Longrightarrow> blocks_of M (by_nodes ps arrs)"
proof (induction arrs)
  case (Cons a arrs)
  obtain n buf where a: "a = (n, buf)" by force
  have "fst ` set (on_node n ps) \<inter> fst ` set (by_nodes ps arrs) = {}"
    using Cons.prems by (intro node_disjoint) (simp add: a)
  with Cons show ?case by (simp add: a blocks_of_on_node)
qed simp

lemma send_requests_rep:
  assumes Q: "quiet_api G" and B: "blocks_of M ps" and small: "maxr < 2 ^ 32" "(nbytes - 16) div 16 = maxr"
    and "distinct (map fst arrs)" "\<forall>(n, buf) \<in> set arrs. buf_rep maxr (descr tx) (on_node n ps) buf"
  shows "\<exists>t. send_requests G M nbytes arrs (tx, w) =
    Some (Ok (), tx\<lparr>rlChangedObjects := rlChangedObjects tx @ map fst (refused M (mem w) (by_nodes ps arrs)),
        rlNodes := rlNodes tx + length arrs\<rparr>, w\<lparr>mem := take_locks M (by_nodes ps arrs) (mem w), tick := t\<rparr>)"
  using assms(5,6)
proof (induction arrs arbitrary: tx w)
  case Nil
  show ?case by (intro exI [of _ "tick w"]) simp
next
  case (Cons a arrs)
  obtain n buf where a: "a = (n, buf)" by force
  let ?ps = "on_node n ps"
  have Bn: "blocks_of M ?ps" "\<forall>p \<in> set ?ps. bnode (fst p) = n"
    using blocks_of_on_node [OF B] by (auto simp: set_on_node)
  have "buf_rep maxr (descr tx) ?ps buf" using Cons.prems(2) by (simp add: a)
  from requestlocks_block [OF Q Bn this small, of w] obtain t reply where r:
    "requestlocks_medhandler (G\<lparr>gasnet_mynode := n\<rparr>) M buf nbytes w =
      Some ((reply, length (refused M (mem w) ?ps)), w\<lparr>mem := take_locks M ?ps (mem w), tick := t\<rparr>)" (is "_ = Some (_, ?w)")
    "requestlocks_succ_medhandler reply (length (refused M (mem w) ?ps)) = Some (descr tx, map fst (refused M (mem w) ?ps))"
    by blast
  let ?tx = "locksRequestProcessed (map fst (refused M (mem w) ?ps)) tx"
  have "refused M (take_locks M ?ps (mem w)) (by_nodes ps arrs) = refused M (mem w) (by_nodes ps arrs)"
    using Cons.prems(1) blocks_of_by_nodes [OF B, of arrs]
    by (intro refused_take_locks Bn(1) node_disjoint) (simp_all add: a)
  with Cons.IH [of ?tx ?w] Cons.prems r show ?case
    by (auto simp: a locksRequestProcessed_def)
qed

lemma map_of_same_set:
  assumes "distinct (map fst xs)" "distinct (map fst ys)" "set xs = set ys"
  shows "map_of xs = map_of ys"
  using map_of_inject_set [OF assms(1,2)] assms(3) by simp

lemma lock_map_same: "map_of ps = map_of qs \<Longrightarrow> lock_map M m ps = lock_map M m qs"
  by (simp add: lock_map_def fun_eq_iff)

subsection \<open>Release\<close>

lemma glue_put_quiet:
  assumes "quiet_api G"
  shows "glue_put G n a bs w = w\<lparr>mem := store_bytes (mem w) n a bs, tick := Suc (tick w)\<rparr>"
  using quiet_api.axioms(1) [OF assms]
  by (simp add: glue_put_def quiet_api.sync_quiet [OF assms] gasnet_api.gasnet_put)

lemma glue_put_lock:
  assumes "quiet_api G" "is_block M b"
  shows "\<exists>l. getObjectLockAddr M b = Some l \<and>
    glue_put G (unat (NODE_FROM_ADDRESS b)) (ADDR_FROM_ADDRESS l) (bytes_of_u64 v) w =
      w\<lparr>mem := set_lock M (mem w) b v, tick := Suc (tick w)\<rparr>"
  using is_blockD(3) [OF assms(2)]
  by (auto simp: glue_put_quiet [OF assms(1)] set_lock_def bnode_def store64_def)

text \<open>What a release writes: the version of each entry whose block was not refused.\<close>

definition release_map :: "u64 list \<Rightarrow> (u64 \<times> entry) list \<Rightarrow> u64 \<Rightarrow> u64 option" where
  "release_map changed ws b = (if b \<in> set changed then None else map_option ent_ts (map_of ws b))"

lemma release_objects_quiet:
  assumes Q: "quiet_api G" and "blocks_of M ws" "locks_set M g m0 (mem w)"
  shows "\<exists>m' t. release_objects G M changed ws w = (Ok (), w\<lparr>mem := m', tick := t\<rparr>) \<and>
    locks_set M (g ++ release_map changed ws) m0 m'"
  using assms(2,3)
proof (induction ws arbitrary: w g)
  case Nil
  have "g ++ release_map changed [] = g" by (auto simp: release_map_def map_add_def)
  with Nil show ?case by (intro exI [of _ "mem w"] exI [of _ "tick w"]) simp
next
  case (Cons x ws)
  obtain b e where x: "x = (b, e)" by force
  have b: "is_block M b" "b \<notin> fst ` set ws" "blocks_of M ws" using Cons.prems(1) by (auto simp: x)
  then have nb: "map_of ws b = None" by (simp add: map_of_eq_None_iff)
  show ?case
  proof (cases "b \<in> set changed")
    case True
    have "release_map changed (x # ws) = release_map changed ws"
      using True by (auto simp: release_map_def x)
    with Cons.IH [OF b(3) Cons.prems(2)] True show ?thesis by (simp add: x)
  next
    case False
    obtain l where l: "getObjectLockAddr M b = Some l"
      "glue_put G (unat (NODE_FROM_ADDRESS b)) (ADDR_FROM_ADDRESS l) (bytes_of_u64 (ent_ts e)) w =
        w\<lparr>mem := set_lock M (mem w) b (ent_ts e), tick := Suc (tick w)\<rparr>" (is "_ = ?w")
      using glue_put_lock [OF Q b(1), of "ent_ts e" w] by blast
    have "locks_set M (g(b \<mapsto> ent_ts e)) m0 (mem ?w)"
      using locks_set_update [OF Cons.prems(2) b(1)] by simp
    from Cons.IH [OF b(3) this] obtain m' t where
      "release_objects G M changed ws ?w = (Ok (), ?w\<lparr>mem := m', tick := t\<rparr>)"
      "locks_set M (g(b \<mapsto> ent_ts e) ++ release_map changed ws) m0 m'" by blast
    moreover have "g(b \<mapsto> ent_ts e) ++ release_map changed ws = g ++ release_map changed (x # ws)"
      using False nb by (auto simp: release_map_def map_add_def x fun_eq_iff split: option.splits)
    ultimately show ?thesis using l False by (auto simp: x)
  qed
qed

end
