(* ===== verification/Tx_Commit.thy ===== *)
theory Tx_Commit
  imports Tx_Locks
begin

text \<open>
  Acquisition of the locks of a write set and the commit of a transaction, when no other
  thread interferes: all of the writes or none of them.
\<close>

subsection \<open>One round of requests\<close>

text \<open>The effect of serving the requests for the blocks \<open>ys\<close>, in whatever order the nodes are asked.\<close>

lemma round_rep:
  assumes Q: "quiet_api G" and B: "blocks_of M xs" "xs \<noteq> []" and maxr: "0 < maxr" "maxr < 2 ^ 32"
    and L: "locks_set M g m0 (mem w)" "\<forall>b \<in> fst ` set xs. g b = None"
    and tx: "maxRequestedLocksPerNode tx = maxr" "rlChangedObjects tx = []"
  shows "\<exists>arrs ys it m' t changed.
    fill_requests maxr (descr tx) xs [] = Some (arrs, it) \<and> xs = ys @ it \<and>
    send_requests G M ((2 * maxr + 2) * 8) arrs (tx\<lparr>rlNodes := 0\<rparr>, w) =
      Some (Ok (), tx\<lparr>rlNodes := length arrs, rlChangedObjects := changed\<rparr>, w\<lparr>mem := m', tick := t\<rparr>) \<and>
    set changed = fst ` set (refused M m0 (pairs ys)) \<and>
    locks_set M (g ++ lock_map M m0 (pairs ys)) m0 m'"
proof -
  from fill_requests_rep [OF arrs_rep_empty, of maxr "descr tx" xs] maxr obtain arrs ys it where
    f: "fill_requests maxr (descr tx) xs [] = Some (arrs, it)" "xs = ys @ it" "arrs_rep maxr (descr tx) (pairs ys) arrs"
    by (auto simp: on_node_def)
  let ?qs = "by_nodes (pairs ys) arrs"
  have Bp: "blocks_of M (pairs ys)" using B f(2) by (simp add: blocks_of_def)
  have d: "distinct (map fst arrs)" and cover: "bnode ` fst ` set (pairs ys) \<subseteq> fst ` set arrs"
    and R: "\<forall>(n, buf) \<in> set arrs. buf_rep maxr (descr tx) (on_node n (pairs ys)) buf"
    using f(3) by (auto simp: arrs_rep_def)
  have Bq: "blocks_of M ?qs" by (rule blocks_of_by_nodes [OF Bp d])
  have set: "set ?qs = set (pairs ys)" using cover unfolding set_by_nodes by fast
  have same: "map_of ?qs = map_of (pairs ys)"
    using Bp Bq set by (intro map_of_same_set) (auto simp: blocks_of_def)
  have free: "\<forall>b \<in> fst ` set ?qs. g b = None" unfolding set using L(2) f(2) by auto
  have words: "lock_word M (mem w) b = lock_word M m0 b" if "b \<in> fst ` set ?qs" for b
  proof -
    have "is_block M b" using Bq that by (auto simp: blocks_of_def)
    from locks_set_lock_word [OF L(1) this] free that show ?thesis by simp
  qed
  have ref: "refused M (mem w) ?qs = refused M m0 ?qs" by (rule refused_cong) (rule words)
  have "((2 * maxr + 2) * 8 - 16) div 16 = maxr" by simp
  from send_requests_rep [OF Q Bp maxr(2) this d, of "tx\<lparr>rlNodes := 0\<rparr>" w] R obtain t where
    "send_requests G M ((2 * maxr + 2) * 8) arrs (tx\<lparr>rlNodes := 0\<rparr>, w) =
      Some (Ok (), tx\<lparr>rlNodes := length arrs, rlChangedObjects := map fst (refused M m0 ?qs)\<rparr>,
        w\<lparr>mem := take_locks M ?qs (mem w), tick := t\<rparr>)"
    using tx(2) by (auto simp: ref)
  moreover have "set (map fst (refused M m0 ?qs)) = fst ` set (refused M m0 (pairs ys))"
    using set by (simp add: refused_def)
  moreover have "locks_set M (g ++ lock_map M m0 (pairs ys)) m0 (take_locks M ?qs (mem w))"
    using locks_set_take_locks [OF L(1) Bq free] lock_map_same [OF same] by simp
  ultimately show ?thesis using f(1,2) by blast
qed

subsection \<open>The whole write set\<close>

text \<open>What is left in the lock words after a refusal: what the entries had read.\<close>

definition restore_map :: "memmgr \<Rightarrow> memory \<Rightarrow> (u64 \<times> entry) list \<Rightarrow> u64 \<Rightarrow> u64 option" where
  "restore_map M m0 ws b = (case map_of ws b of None \<Rightarrow> None
     | Some e \<Rightarrow> if lock_word M m0 b > ent_ts e then None else Some (ent_ts e))"

lemma map_of_pairs: "map_of (pairs ws) b = map_option ent_ts (map_of ws b)"
  by (induction ws) (auto simp: pairs_def)

lemma lock_map_append:
  "fst ` set xs \<inter> fst ` set ys = {} \<Longrightarrow>
   lock_map M m0 (pairs xs) ++ lock_map M m0 (pairs ys) = lock_map M m0 (pairs (xs @ ys))"
proof
  fix b assume d: "fst ` set xs \<inter> fst ` set ys = {}"
  show "(lock_map M m0 (pairs xs) ++ lock_map M m0 (pairs ys)) b = lock_map M m0 (pairs (xs @ ys)) b"
  proof (cases "b \<in> fst ` set ys")
    case True
    with d have "map_of xs b = None" by (auto simp: map_of_eq_None_iff)
    then show ?thesis by (auto simp: lock_map_def map_add_def map_of_pairs split: option.splits)
  next
    case False
    then have "map_of ys b = None" by (simp add: map_of_eq_None_iff)
    then show ?thesis by (auto simp: lock_map_def map_add_def map_of_pairs split: option.splits)
  qed
qed

lemma release_restores:
  assumes ch: "set changed = fst ` set (refused M m0 (pairs ws))" and B: "blocks_of M ws"
  shows "lock_map M m0 (pairs ws) ++ release_map changed ws = restore_map M m0 ws"
proof
  fix b
  show "(lock_map M m0 (pairs ws) ++ release_map changed ws) b = restore_map M m0 ws b"
  proof (cases "map_of ws b")
    case None
    then show ?thesis by (simp add: lock_map_def release_map_def restore_map_def map_add_def map_of_pairs)
  next
    case (Some e)
    have "b \<in> set changed \<longleftrightarrow> lock_word M m0 b > ent_ts e"
    proof -
      have "b \<in> set changed \<longleftrightarrow> (\<exists>v. (b, v) \<in> set (pairs ws) \<and> lock_word M m0 b > v)"
        using ch by (force simp: refused_def image_iff)
      also have "\<dots> \<longleftrightarrow> (\<exists>v. map_of (pairs ws) b = Some v \<and> lock_word M m0 b > v)"
        using B by (intro ex_cong1) (auto simp: blocks_of_def intro: map_of_is_SomeI dest: map_of_SomeD)
      finally show ?thesis by (simp add: map_of_pairs Some)
    qed
    with Some show ?thesis
      by (simp add: lock_map_def release_map_def restore_map_def map_add_def map_of_pairs)
  qed
qed

text \<open>
  The loop over the write set.  Either every lock is taken, or none is left: the lock words of
  the blocks before the position reached are what the entries had read.
\<close>

lemma get_locks_loop_rep:
  assumes Q: "quiet_api G" and maxr: "0 < maxRequestedLocksPerNode tx" "maxRequestedLocksPerNode tx < 2 ^ 32"
    and "write_set tx = pre @ it" "blocks_of M (pre @ it)" "rlChangedObjects tx = []"
    and "locks_set M (lock_map M m0 (pairs pre)) m0 (mem w)" "refused M m0 (pairs pre) = []"
  shows "\<exists>ok m' t n. get_locks_loop G M it (tx, w) = Some (Ok ok, tx\<lparr>rlNodes := n\<rparr>, w\<lparr>mem := m', tick := t\<rparr>) \<and>
    (if refused M m0 (pairs (pre @ it)) = []
     then ok \<and> locks_set M (lock_map M m0 (pairs (pre @ it))) m0 m'
     else \<not> ok \<and> (\<exists>ys zs. pre @ it = ys @ zs \<and> locks_set M (restore_map M m0 ys) m0 m'))"
  using assms(2-8)
proof (induction "length it" arbitrary: pre it tx w rule: less_induct)
  case less
  let ?maxr = "maxRequestedLocksPerNode tx"
  show ?case
  proof (cases it)
    case Nil
    then show ?thesis using less.prems
      by (intro exI [of _ True] exI [of _ "mem w"] exI [of _ "tick w"] exI [of _ "rlNodes tx"]) simp
  next
    case (Cons x xs)
    have dis: "fst ` set pre \<inter> fst ` set it = {}" using less.prems(4) by simp
    have free: "\<forall>b \<in> fst ` set it. lock_map M m0 (pairs pre) b = None"
    proof
      fix b assume "b \<in> fst ` set it"
      with dis have "map_of pre b = None" by (auto simp: map_of_eq_None_iff)
      then show "lock_map M m0 (pairs pre) b = None" by (simp add: lock_map_def map_of_pairs)
    qed
    have Bit: "blocks_of M it" "it \<noteq> []" using less.prems(4) Cons by simp_all
    from round_rep [OF Q Bit less.prems(1,2) less.prems(6) free refl less.prems(5)] obtain arrs ys it' m' t changed where
      f: "fill_requests ?maxr (descr tx) it [] = Some (arrs, it')" "it = ys @ it'"
      and s: "send_requests G M ((2 * ?maxr + 2) * 8) arrs (tx\<lparr>rlNodes := 0\<rparr>, w) =
        Some (Ok (), tx\<lparr>rlNodes := length arrs, rlChangedObjects := changed\<rparr>, w\<lparr>mem := m', tick := t\<rparr>)"
      and ch: "set changed = fst ` set (refused M m0 (pairs ys))"
      and L: "locks_set M (lock_map M m0 (pairs pre) ++ lock_map M m0 (pairs ys)) m0 m'"
      by (elim exE conjE) (rule that; assumption)
    have dys: "fst ` set pre \<inter> fst ` set ys = {}" using dis f(2) by auto
    note L' = L [unfolded lock_map_append [OF dys]]
    have shorter: "length it' < length it"
      using fill_requests_shorter [of ?maxr "descr tx" x xs "[]"] f(1) Cons by simp
    let ?tx = "tx\<lparr>rlNodes := length arrs, rlChangedObjects := changed\<rparr>" and ?w = "w\<lparr>mem := m', tick := t\<rparr>"
    have ref: "refused M m0 (pairs (pre @ ys)) = refused M m0 (pairs ys)" using less.prems(7) by simp
    show ?thesis
    proof (cases "changed = []")
      case True
      then have none: "refused M m0 (pairs (pre @ ys)) = []" using ch ref by auto
      have step: "get_locks_loop G M it (tx, w) = get_locks_loop G M it' (tx\<lparr>rlNodes := length arrs, rlChangedObjects := []\<rparr>, ?w)"
        using f(1) s True Cons by simp
      have txe: "tx\<lparr>rlNodes := length arrs, rlChangedObjects := []\<rparr> = tx\<lparr>rlNodes := length arrs\<rparr>"
        using less.prems(5) by simp
      from less.hyps [OF shorter, of "tx\<lparr>rlNodes := length arrs\<rparr>" "pre @ ys" ?w] less.prems(1-5) f(2) L' none
      obtain ok m'' t' n where r:
        "get_locks_loop G M it' (tx\<lparr>rlNodes := length arrs\<rparr>, ?w) = Some (Ok ok, tx\<lparr>rlNodes := n\<rparr>, w\<lparr>mem := m'', tick := t'\<rparr>)"
        "if refused M m0 (pairs ((pre @ ys) @ it')) = []
         then ok \<and> locks_set M (lock_map M m0 (pairs ((pre @ ys) @ it'))) m0 m''
         else \<not> ok \<and> (\<exists>zs us. (pre @ ys) @ it' = zs @ us \<and> locks_set M (restore_map M m0 zs) m0 m'')"
        by auto
      with step txe show ?thesis using f(2) by (metis append_assoc)
    next
      case False
      have BP: "blocks_of M (pre @ ys)" using less.prems(4) f(2) dys by simp
      have ch': "set changed = fst ` set (refused M m0 (pairs (pre @ ys)))" using ch ref by simp
      have take: "take (length (write_set ?tx) - length it') (write_set ?tx) = pre @ ys"
        using less.prems(3) f(2) by simp
      from release_objects_quiet [OF Q BP, of "lock_map M m0 (pairs (pre @ ys))" m0 ?w changed] L' obtain m'' t' where r:
        "release_objects G M changed (pre @ ys) ?w = (Ok (), w\<lparr>mem := m'', tick := t'\<rparr>)"
        "locks_set M (lock_map M m0 (pairs (pre @ ys)) ++ release_map changed (pre @ ys)) m0 m''"
        by auto
      have "get_locks_loop G M it (tx, w) =
          Some (Ok False, tx\<lparr>rlNodes := length arrs, rlChangedObjects := []\<rparr>, w\<lparr>mem := m'', tick := t'\<rparr>)"
        using f(1) s False Cons take r(1)
        by (simp add: bnd_def releaseLocks_def get_tx_def on_tx_def ret_def)
      moreover have txe: "tx\<lparr>rlNodes := length arrs, rlChangedObjects := []\<rparr> = tx\<lparr>rlNodes := length arrs\<rparr>"
        using less.prems(5) by simp
      ultimately have res: "get_locks_loop G M it (tx, w) =
          Some (Ok False, tx\<lparr>rlNodes := length arrs\<rparr>, w\<lparr>mem := m'', tick := t'\<rparr>)" by (simp only:)
      have "locks_set M (restore_map M m0 (pre @ ys)) m0 m''" "pre @ it = (pre @ ys) @ it'"
        using r(2) release_restores [OF ch' BP] f(2) by simp_all
      then have ex: "\<exists>ys zs. pre @ it = ys @ zs \<and> locks_set M (restore_map M m0 ys) m0 m''" by blast
      have "refused M m0 (pairs (pre @ it)) \<noteq> []" using False ch ref f(2) by auto
      with res ex show ?thesis
        by (intro exI [of _ False] exI [of _ m''] exI [of _ t'] exI [of _ "length arrs"]) (simp only: if_False not_False_eq_True simp_thms)
    qed
  qed
qed

end
