(* ===== verification/Commit_Correct.thy ===== *)
theory Commit_Correct
  imports Tx_Commit
begin

text \<open>
  The commit of a transaction when no other thread interferes: validation of the read set,
  write-back, release with the new version, and the whole of \<^verbatim>\<open>commit\<close>.
\<close>

subsection \<open>Validation\<close>

text \<open>An entry is current when its block is unlocked and no newer than the copy.\<close>

definition current :: "memmgr \<Rightarrow> memory \<Rightarrow> u64 \<times> entry \<Rightarrow> bool" where
  "current M m p \<longleftrightarrow> \<not> locked (lock_word M m (fst p)) \<and> \<not> isTimestampGreater (lock_word M m (fst p)) (ent_ts (snd p))"

text \<open>The versions the node has cached are none that the lock words have not reached.\<close>

definition cache_below :: "platform \<Rightarrow> memmgr \<Rightarrow> dstm_cache \<Rightarrow> memory \<Rightarrow> bool" where
  "cache_below G M c m \<longleftrightarrow> (CACHE G \<longrightarrow> (\<forall>b. is_block M b \<longrightarrow> \<not> locked (getCachedVersion b c) \<and>
     \<not> isTimestampGreater (getCachedVersion b c) (lock_word M m b)))"

lemma addVersion_lookup:
  "getCachedVersion b (addVersionToCache a v c) =
     (if b = a \<and> \<not> locked v \<and> (map_of (i_map c) a = None \<or> isTimestampGreater v (getCachedVersion a c))
      then v else getCachedVersion b c)"
  by (auto simp: addVersionToCache_def getCachedVersion_def split: option.splits)

lemma addVersion_line [simp]: "cl_pow (addVersionToCache a v c) = cl_pow c"
  by (auto simp: addVersionToCache_def split: option.splits)

lemma cache_below_add:
  assumes "cache_below G M c m" "is_block M a \<Longrightarrow> \<not> isTimestampGreater v (lock_word M m a)"
  shows "cache_below G M (addVersionToCache a v c) m"
  using assms unfolding cache_below_def addVersion_lookup by simp

lemma getVersion_block:
  assumes "quiet_api G" "is_block M b" "getObjectLockAddr M b = Some l"
  shows "getVersion G l w = (lock_word M (mem w) b, w\<lparr>tick := Suc (tick w)\<rparr>)"
  using assms(3) is_blockD(3) [OF assms(2)] gasnet_api.gasnet_get [OF quiet_api.axioms(1) [OF assms(1)]]
  by (auto simp: getVersion_def quiet_api.sync_quiet [OF assms(1)] lock_word_def load64_def bnode_def)

lemma cache_add_quiet:
  "quiet_api G \<Longrightarrow> cache_add G a v w = w\<lparr>globalCache := addVersionToCache a v (globalCache w), tick := Suc (tick w)\<rparr>"
  by (simp add: cache_add_def quiet_api.sync_quiet)

lemma cache_get_quiet:
  "quiet_api G \<Longrightarrow> cache_get G a w = (getCachedVersion a (globalCache w), w\<lparr>tick := Suc (tick w)\<rparr>)"
  by (simp add: cache_get_def quiet_api.sync_quiet)

lemma check_object_quiet:
  assumes Q: "quiet_api G" and V: "\<not> VARIANT3 G" and b: "is_block M (fst p)"
  shows "\<exists>r c t. check_object G M (fst p) (ent_ts (snd p)) (lc, w) = (Ok r, lc, w\<lparr>globalCache := c, tick := t\<rparr>) \<and>
    cl_pow c = cl_pow (globalCache w) \<and> (r \<longrightarrow> current M (mem w) p) \<and>
    (cache_below G M (globalCache w) (mem w) \<longrightarrow> cache_below G M c (mem w) \<and> (current M (mem w) p \<longrightarrow> r))"
proof -
  obtain l where l: "getObjectLockAddr M (fst p) = Some l" using is_blockD(3) [OF b] by blast
  have w: "w\<lparr>globalCache := globalCache w, tick := t\<rparr> = w\<lparr>tick := t\<rparr>" for t by simp
  note q = cache_get_quiet [OF Q] cache_add_quiet [OF Q] getVersion_block [OF Q b l]
  let ?old = "getCachedVersion (fst p) (globalCache w)" and ?lw = "lock_word M (mem w) (fst p)"
  consider (hit) "CACHE G" "locked ?old \<or> isTimestampGreater ?old (ent_ts (snd p))"
    | (look) "\<not> (CACHE G \<and> (locked ?old \<or> isTimestampGreater ?old (ent_ts (snd p))))" by blast
  then show ?thesis
  proof cases
    case hit
    then have "check_object G M (fst p) (ent_ts (snd p)) (lc, w) = (Ok False, lc, w\<lparr>tick := Suc (tick w)\<rparr>)"
      by (simp add: check_object_def q)
    moreover have "\<not> current M (mem w) p" if "cache_below G M (globalCache w) (mem w)"
      using that hit b by (auto simp: cache_below_def current_def isTimestampGreater_def split: if_splits)
    ultimately show ?thesis
      by (intro exI [of _ False] exI [of _ "globalCache w"] exI [of _ "Suc (tick w)"]) (simp add: w)
  next
    case look
    let ?c = "if CACHE G \<and> \<not> current M (mem w) p then addVersionToCache (fst p) ?lw (globalCache w) else globalCache w"
    have r: "\<exists>t. check_object G M (fst p) (ent_ts (snd p)) (lc, w) =
        (Ok (current M (mem w) p), lc, w\<lparr>globalCache := ?c, tick := t\<rparr>)"
      using look V l by (auto simp: check_object_def q current_def w Let_def)
    have below: "cache_below G M ?c (mem w)" if "cache_below G M (globalCache w) (mem w)"
      using cache_below_add [OF that, of "fst p" ?lw] that by (simp add: isTimestampGreater_def)
    show ?thesis using r below by (elim exE) (intro exI conjI, assumption, simp_all)
  qed
qed

lemma check_set_quiet:
  assumes Q: "quiet_api G" and V: "\<not> VARIANT3 G"
  shows "\<forall>p \<in> set es. is_block M (fst p) \<Longrightarrow>
    \<exists>r c t. check_set G M guard es (lc, w) = (Ok r, lc, w\<lparr>globalCache := c, tick := t\<rparr>) \<and>
      cl_pow c = cl_pow (globalCache w) \<and>
      (r \<longrightarrow> (\<forall>p \<in> set es. guard (ent_ts (snd p)) \<longrightarrow> current M (mem w) p)) \<and>
      (cache_below G M (globalCache w) (mem w) \<longrightarrow> cache_below G M c (mem w) \<and>
        ((\<forall>p \<in> set es. guard (ent_ts (snd p)) \<longrightarrow> current M (mem w) p) \<longrightarrow> r))"
proof (induction es arbitrary: w)
  case Nil
  then show ?case by (intro exI [of _ True] exI [of _ "globalCache w"] exI [of _ "tick w"]) simp
next
  case (Cons p es)
  have p: "p = (fst p, snd p)" by simp
  show ?case
  proof (cases "guard (ent_ts (snd p))")
    case False
    then have "check_set G M guard (p # es) (lc, w) = check_set G M guard es (lc, w)"
      by (subst p) (simp only: check_set.simps if_False)
    moreover have "(\<forall>q \<in> set (p # es). guard (ent_ts (snd q)) \<longrightarrow> current M (mem w) q) \<longleftrightarrow>
        (\<forall>q \<in> set es. guard (ent_ts (snd q)) \<longrightarrow> current M (mem w) q)" using False by simp
    moreover have "\<forall>q \<in> set es. is_block M (fst q)" using Cons.prems by simp
    ultimately show ?thesis using Cons.IH [of w] by (simp only:)
  next
    case True
    from check_object_quiet [OF Q V, of M p lc w] Cons.prems obtain r c t where o:
      "check_object G M (fst p) (ent_ts (snd p)) (lc, w) = (Ok r, lc, w\<lparr>globalCache := c, tick := t\<rparr>)"
      "cl_pow c = cl_pow (globalCache w)" "r \<longrightarrow> current M (mem w) p"
      "cache_below G M (globalCache w) (mem w) \<longrightarrow> cache_below G M c (mem w) \<and> (current M (mem w) p \<longrightarrow> r)" by auto
    show ?thesis
    proof (cases r)
      case r: False
      have "check_set G M guard (p # es) (lc, w) = (Ok False, lc, w\<lparr>globalCache := c, tick := t\<rparr>)"
        using o(1) True r by (subst p) (simp only: check_set.simps if_True outcome.case prod.case bool.case)
      then show ?thesis using o(2,4) True r
        by (intro exI [of _ False] exI [of _ c] exI [of _ t]) auto
    next
      case r: True
      have step: "check_set G M guard (p # es) (lc, w) = check_set G M guard es (lc, w\<lparr>globalCache := c, tick := t\<rparr>)"
        using o(1) True r by (subst p) (simp only: check_set.simps if_True outcome.case prod.case bool.case)
      from Cons.IH [of "w\<lparr>globalCache := c, tick := t\<rparr>"] Cons.prems obtain r' c' t' where R:
        "check_set G M guard es (lc, w\<lparr>globalCache := c, tick := t\<rparr>) = (Ok r', lc, w\<lparr>globalCache := c', tick := t'\<rparr>)"
        "cl_pow c' = cl_pow c" "r' \<longrightarrow> (\<forall>p \<in> set es. guard (ent_ts (snd p)) \<longrightarrow> current M (mem w) p)"
        "cache_below G M c (mem w) \<longrightarrow> cache_below G M c' (mem w) \<and>
          ((\<forall>p \<in> set es. guard (ent_ts (snd p)) \<longrightarrow> current M (mem w) p) \<longrightarrow> r')" by auto
      show ?thesis using R o(2-4) r step
        by (intro exI [of _ r'] exI [of _ c'] exI [of _ t']) simp
    qed
  qed
qed

lemma validateAll_quiet:
  assumes Q: "quiet_api G" and V: "\<not> VARIANT3 G" and B: "blocks_of M (read_set tx)"
  shows "\<exists>r c t. validateAll G M (tx, w) = Some (Ok r, tx, w\<lparr>globalCache := c, tick := t\<rparr>) \<and>
    cl_pow c = cl_pow (globalCache w) \<and> (r \<longrightarrow> (\<forall>p \<in> set (read_set tx). current M (mem w) p)) \<and>
    (cache_below G M (globalCache w) (mem w) \<longrightarrow> cache_below G M c (mem w) \<and>
      ((\<forall>p \<in> set (read_set tx). current M (mem w) p) \<longrightarrow> r))"
proof -
  have "\<forall>p \<in> set (read_set tx). is_block M (fst p)" using B by (auto simp: blocks_of_def)
  from check_set_quiet [OF Q V this, of "\<lambda>_. True" "lc_setCacheLine 4 locks_cache_new" w] obtain r c t where
    "check_set G M (\<lambda>_. True) (read_set tx) (lc_setCacheLine 4 locks_cache_new, w) =
      (Ok r, lc_setCacheLine 4 locks_cache_new, w\<lparr>globalCache := c, tick := t\<rparr>)"
    and R: "cl_pow c = cl_pow (globalCache w)" "r \<longrightarrow> (\<forall>p \<in> set (read_set tx). current M (mem w) p)"
      "cache_below G M (globalCache w) (mem w) \<longrightarrow> cache_below G M c (mem w) \<and>
        ((\<forall>p \<in> set (read_set tx). current M (mem w) p) \<longrightarrow> r)" by (simp only: simp_thms) blast
  then have "validateAll G M (tx, w) = Some (Ok r, tx, w\<lparr>globalCache := c, tick := t\<rparr>)"
    by (simp add: validateAll_def)
  with R show ?thesis by blast
qed

subsection \<open>Write-back and release\<close>

text \<open>The memory in which the blocks of \<open>ws\<close> hold the data of their entries.\<close>

definition contents_set :: "(u64 \<times> entry) list \<Rightarrow> memory \<Rightarrow> memory" where
  "contents_set ws m = fold (\<lambda>p m. set_content m (fst p) (ent_data (snd p))) ws m"

definition locks_all :: "memmgr \<Rightarrow> u64 \<Rightarrow> (u64 \<times> entry) list \<Rightarrow> memory \<Rightarrow> memory" where
  "locks_all M v ws m = fold (\<lambda>p m. set_lock M m (fst p) v) ws m"

abbreviation full_entries :: "(u64 \<times> entry) list \<Rightarrow> bool" where
  "full_entries ws \<equiv> \<forall>p \<in> set ws. length (ent_data (snd p)) = 64"

lemma contents_set_simps [simp]:
  "contents_set [] m = m" "contents_set (p # ws) m = contents_set ws (set_content m (fst p) (ent_data (snd p)))"
  "locks_all M v [] m = m" "locks_all M v (p # ws) m = locks_all M v ws (set_lock M m (fst p) v)"
  by (simp_all add: contents_set_def locks_all_def)

lemma contents_set_memory:
  "blocks_of M ws \<Longrightarrow> full_entries ws \<Longrightarrow> is_block M b \<Longrightarrow>
     content (contents_set ws m) b = (case map_of ws b of Some e \<Rightarrow> ent_data e | None \<Rightarrow> content m b) \<and>
     lock_word M (contents_set ws m) b = lock_word M m b"
proof (induction ws arbitrary: m)
  case (Cons p ws)
  have n: "map_of ws (fst p) = None" using Cons.prems(1) by (simp add: map_of_eq_None_iff)
  show ?case using Cons n by (cases p) (auto simp: memory_simps split: option.splits)
qed simp

lemma locks_all_memory:
  "blocks_of M ws \<Longrightarrow> is_block M b \<Longrightarrow>
     content (locks_all M v ws m) b = content m b \<and>
     lock_word M (locks_all M v ws m) b = (if b \<in> fst ` set ws then v else lock_word M m b)"
  by (induction ws arbitrary: m) (auto simp: memory_simps)

lemma commitWriteSetValues_quiet:
  assumes Q: "quiet_api G"
  shows "full_entries ws \<Longrightarrow> \<exists>t. commitWriteSetValues G ws w = w\<lparr>mem := contents_set ws (mem w), tick := t\<rparr>"
proof (induction ws arbitrary: w)
  case Nil
  show ?case by (intro exI [of _ "tick w"]) simp
next
  case (Cons p ws)
  obtain b e where p: "p = (b, e)" by force
  let ?w = "w\<lparr>mem := set_content (mem w) b (ent_data e), tick := Suc (tick w)\<rparr>"
  have "commitWriteSetValues G (p # ws) w = commitWriteSetValues G ws ?w"
    using Cons.prems by (simp add: p glue_put_quiet [OF Q] CDU_SIZE_def set_content_def bnode_def)
  moreover from Cons.IH [of ?w] Cons.prems obtain t where
    "commitWriteSetValues G ws ?w = ?w\<lparr>mem := contents_set ws (mem ?w), tick := t\<rparr>" by auto
  ultimately show ?case by (intro exI [of _ t]) (simp add: p)
qed

text \<open>The loop of the release keeps the cached versions below the lock words it has written.\<close>

lemma not_greater_trans:
  "\<not> isTimestampGreater x y \<Longrightarrow> \<not> isTimestampGreater y z \<Longrightarrow> \<not> isTimestampGreater x z"
  by (auto simp: isTimestampGreater_def split: if_splits)

lemma not_greater_refl [simp]: "\<not> isTimestampGreater x x"
  by (simp add: isTimestampGreater_def)

lemma cache_below_lock:
  assumes "cache_below G M c m" "is_block M b" "\<not> isTimestampGreater (lock_word M m b) v"
  shows "cache_below G M c (set_lock M m b v)"
  using assms unfolding cache_below_def by (auto simp: lock_word_set_lock dest: not_greater_trans)

lemma release_with_version_quiet:
  assumes Q: "quiet_api G"
  shows "blocks_of M ws \<Longrightarrow>
    \<exists>c t. release_with_version G M v ws w = (Ok (), w\<lparr>mem := locks_all M v ws (mem w), globalCache := c, tick := t\<rparr>) \<and>
      cl_pow c = cl_pow (globalCache w) \<and>
      (cache_below G M (globalCache w) (mem w) \<and> (\<forall>p \<in> set ws. \<not> isTimestampGreater (lock_word M (mem w) (fst p)) v)
        \<longrightarrow> cache_below G M c (locks_all M v ws (mem w)))"
proof (induction ws arbitrary: w)
  case Nil
  show ?case by (intro exI [of _ "globalCache w"] exI [of _ "tick w"]) simp
next
  case (Cons p ws)
  obtain b e where p: "p = (b, e)" by force
  have b: "is_block M b" "blocks_of M ws" "b \<notin> fst ` set ws" using Cons.prems by (auto simp: p)
  obtain l where l: "getObjectLockAddr M b = Some l"
    "glue_put G (unat (NODE_FROM_ADDRESS b)) (ADDR_FROM_ADDRESS l) (bytes_of_u64 v) w =
      w\<lparr>mem := set_lock M (mem w) b v, tick := Suc (tick w)\<rparr>" (is "_ = ?w1")
    using glue_put_lock [OF Q b(1)] by blast
  let ?w2 = "if CACHE G then cache_add G b v ?w1 else ?w1"
  have w2: "mem ?w2 = set_lock M (mem w) b v" "cl_pow (globalCache ?w2) = cl_pow (globalCache w)"
    "?w2\<lparr>mem := m, globalCache := c, tick := t\<rparr> = w\<lparr>mem := m, globalCache := c, tick := t\<rparr>" for m c t
    by (simp_all add: cache_add_quiet [OF Q])
  from Cons.IH [OF b(2), of ?w2] obtain c t where R:
    "release_with_version G M v ws ?w2 = (Ok (), ?w2\<lparr>mem := locks_all M v ws (mem ?w2), globalCache := c, tick := t\<rparr>)"
    "cl_pow c = cl_pow (globalCache ?w2)"
    "cache_below G M (globalCache ?w2) (mem ?w2) \<and> (\<forall>p \<in> set ws. \<not> isTimestampGreater (lock_word M (mem ?w2) (fst p)) v)
      \<longrightarrow> cache_below G M c (locks_all M v ws (mem ?w2))" by blast
  have step: "release_with_version G M v (p # ws) w = release_with_version G M v ws ?w2"
    using l by (simp add: p)
  have below: "cache_below G M c (locks_all M v (p # ws) (mem w))"
    if "cache_below G M (globalCache w) (mem w)" "\<forall>p \<in> set (p # ws). \<not> isTimestampGreater (lock_word M (mem w) (fst p)) v"
  proof -
    have "cache_below G M (globalCache w) (set_lock M (mem w) b v)"
      using cache_below_lock [OF that(1) b(1)] that(2) by (simp add: p)
    then have "cache_below G M (globalCache ?w2) (mem ?w2)"
      using cache_below_add [of G M "globalCache w" "set_lock M (mem w) b v" b v]
      by (simp add: cache_add_quiet [OF Q] lock_word_set_lock)
    moreover have "\<not> isTimestampGreater (lock_word M (mem ?w2) (fst q)) v" if q: "q \<in> set ws" for q
    proof -
      have "is_block M (fst q)" "fst q \<noteq> b" using q b(2,3) by (auto simp: blocks_of_def)
      with \<open>\<forall>p \<in> set (p # ws). _\<close> q b(1) show ?thesis unfolding w2(1) by (simp add: lock_word_set_lock)
    qed
    ultimately show ?thesis using R(3) w2(1) by (simp add: p)
  qed
  show ?case
    using R(1,2) step below w2 by (intro exI [of _ c] exI [of _ t]) (simp add: p)
qed

subsection \<open>The whole commit\<close>

definition tx_current :: "memmgr \<Rightarrow> memory \<Rightarrow> tx \<Rightarrow> bool" where
  "tx_current M m tx \<longleftrightarrow> (\<forall>p \<in> set (read_set tx). current M m p) \<and>
     (\<forall>p \<in> set (write_set tx). lock_word M m (fst p) = ent_ts (snd p) \<and> \<not> locked (ent_ts (snd p)))"

text \<open>What a transaction needs to commit: block copies of distinct blocks, of full size.\<close>

definition tx_wf :: "memmgr \<Rightarrow> tx \<Rightarrow> bool" where
  "tx_wf M tx \<longleftrightarrow> blocks_of M (read_set tx) \<and> blocks_of M (write_set tx) \<and> full_entries (write_set tx) \<and>
     rlChangedObjects tx = [] \<and> 0 < maxRequestedLocksPerNode tx \<and> maxRequestedLocksPerNode tx < 2 ^ 32"

lemma getLocks_quiet:
  assumes Q: "quiet_api G" and W: "tx_wf M tx"
  shows "\<exists>ok m' t n. getLocks G M (tx, w) = Some (Ok ok, tx\<lparr>rlNodes := n\<rparr>, w\<lparr>mem := m', tick := t\<rparr>) \<and>
    (if refused M (mem w) (pairs (write_set tx)) = []
     then ok \<and> locks_set M (lock_map M (mem w) (pairs (write_set tx))) (mem w) m'
     else \<not> ok \<and> (\<exists>ys zs. write_set tx = ys @ zs \<and> locks_set M (restore_map M (mem w) ys) (mem w) m'))"
proof -
  have W': "0 < maxRequestedLocksPerNode tx" "maxRequestedLocksPerNode tx < 2 ^ 32" "write_set tx = [] @ write_set tx"
    "blocks_of M ([] @ write_set tx)" "rlChangedObjects tx = []" using W by (simp_all add: tx_wf_def)
  have "locks_set M (lock_map M (mem w) (pairs [])) (mem w) (mem w)"
    using locks_set_empty by (simp add: lock_map_def [abs_def])
  moreover have "refused M (mem w) (pairs []) = []" by simp
  ultimately show ?thesis
    using get_locks_loop_rep [OF Q W', of "mem w" w] by (simp only: getLocks_def fst_conv append_Nil simp_thms)
qed

text \<open>The lock phase of \<open>commit\<close>, also for an empty write set, and its effect on the cache.\<close>

lemma lock_phase_current:
  assumes "refused M m (pairs ws) = []" "locks_set M (lock_map M m (pairs ws)) m m'" "blocks_of M ws" "is_block M b"
  shows "lock_word M m' b = (case map_of ws b of None \<Rightarrow> lock_word M m b | Some e \<Rightarrow> ent_ts e OR LOCK_BIT)"
proof (cases "map_of ws b")
  case None
  then have "lock_map M m (pairs ws) b = None" by (simp add: lock_map_def map_of_pairs)
  with locks_set_lock_word [OF assms(2,4)] None show ?thesis by simp
next
  case (Some e)
  then have "(b, ent_ts e) \<in> set (pairs ws)" by (auto simp: pairs_def dest: map_of_SomeD)
  with assms(1) have "\<not> lock_word M m b > ent_ts e" unfolding refused_def filter_empty_conv by force
  with Some have "lock_map M m (pairs ws) b = Some (ent_ts e OR LOCK_BIT)" by (simp add: lock_map_def map_of_pairs)
  with locks_set_lock_word [OF assms(2,4)] Some show ?thesis by simp
qed

text \<open>
  The lock phase of \<open>commit\<close>.  It hands on the descriptor and a memory in which all locks of the
  write set are held, or aborts with lock words set to what the entries had read.
\<close>

definition aborted_tx :: "u64 \<Rightarrow> tx \<Rightarrow> tx" where
  "aborted_tx reason tx = tx\<lparr>stats := count_abort reason (stats tx), write_set := [], read_set := [], status := TX_ABORTED\<rparr>"

lemma tx_abort_eq: "tx_abort reason (tx, w) = Some (Aborted reason, aborted_tx reason tx, w)"
  by (simp add: tx_abort_def aborted_tx_def clearReadSet_def clearWriteSet_def Let_def)

definition lock_phase :: "platform \<Rightarrow> memmgr \<Rightarrow> (u64 \<times> entry) list \<Rightarrow> unit comp" where
  "lock_phase G M ws = (if ws \<noteq> []
     then bnd (getLocks G M) (\<lambda>ok. if \<not> ok then tx_abort ABORT_GRABBING_LOCKS else ret ()) else ret ())"

definition unlock_phase :: "platform \<Rightarrow> memmgr \<Rightarrow> (u64 \<times> entry) list \<Rightarrow> unit comp" where
  "unlock_phase G M ws = (if ws \<noteq> [] then releaseLocks G M ws else ret ())"

lemma lock_phase_quiet:
  assumes Q: "quiet_api G" and W: "tx_wf M tx"
  shows "\<exists>m' t n. if refused M (mem w) (pairs (write_set tx)) = []
     then lock_phase G M (write_set tx) (tx, w) = Some (Ok (), tx\<lparr>rlNodes := n\<rparr>, w\<lparr>mem := m', tick := t\<rparr>) \<and>
       locks_set M (lock_map M (mem w) (pairs (write_set tx))) (mem w) m'
     else lock_phase G M (write_set tx) (tx, w) = Some (Aborted ABORT_GRABBING_LOCKS, aborted_tx ABORT_GRABBING_LOCKS (tx\<lparr>rlNodes := n\<rparr>), w\<lparr>mem := m', tick := t\<rparr>) \<and>
       (\<exists>ys zs. write_set tx = ys @ zs \<and> locks_set M (restore_map M (mem w) ys) (mem w) m')"
proof (cases "write_set tx = []")
  case True
  then show ?thesis
    using locks_set_empty
    by (intro exI [of _ "mem w"] exI [of _ "tick w"] exI [of _ "rlNodes tx"])
      (simp add: lock_phase_def ret_def lock_map_def [abs_def])
next
  case False
  from getLocks_quiet [OF Q W, of w] obtain ok m' t n where g:
    "getLocks G M (tx, w) = Some (Ok ok, tx\<lparr>rlNodes := n\<rparr>, w\<lparr>mem := m', tick := t\<rparr>)"
    "if refused M (mem w) (pairs (write_set tx)) = []
     then ok \<and> locks_set M (lock_map M (mem w) (pairs (write_set tx))) (mem w) m'
     else \<not> ok \<and> (\<exists>ys zs. write_set tx = ys @ zs \<and> locks_set M (restore_map M (mem w) ys) (mem w) m')" by blast
  then have "lock_phase G M (write_set tx) (tx, w) = (if ok then Some (Ok (), tx\<lparr>rlNodes := n\<rparr>, w\<lparr>mem := m', tick := t\<rparr>)
      else Some (Aborted ABORT_GRABBING_LOCKS, aborted_tx ABORT_GRABBING_LOCKS (tx\<lparr>rlNodes := n\<rparr>), w\<lparr>mem := m', tick := t\<rparr>))"
    using False by (simp add: lock_phase_def bnd_def ret_def tx_abort_eq)
  with g(2) show ?thesis by (intro exI [of _ m'] exI [of _ t] exI [of _ n]) (auto split: if_splits)
qed

text \<open>After a failed validation every lock word is what its entry had read.\<close>

lemma release_after_validation:
  assumes Q: "quiet_api G" and W: "tx_wf M tx" and "refused M m0 (pairs (write_set tx)) = []"
    and L: "locks_set M (lock_map M m0 (pairs (write_set tx))) m0 (mem w)"
  shows "\<exists>m' t. unlock_phase G M (write_set tx) (tx, w) =
      Some (Ok (), tx, w\<lparr>mem := m', tick := t\<rparr>) \<and> locks_set M (restore_map M m0 (write_set tx)) m0 m'"
proof (cases "write_set tx = []")
  case True
  then show ?thesis
    using L by (intro exI [of _ "mem w"] exI [of _ "tick w"])
      (simp add: unlock_phase_def ret_def lock_map_def [abs_def] restore_map_def [abs_def])
next
  case False
  have B: "blocks_of M (write_set tx)" and c: "rlChangedObjects tx = []" using W by (simp_all add: tx_wf_def)
  from release_objects_quiet [OF Q B L, of "[]"] obtain m' t where
    "release_objects G M [] (write_set tx) w = (Ok (), w\<lparr>mem := m', tick := t\<rparr>)"
    "locks_set M (lock_map M m0 (pairs (write_set tx)) ++ release_map [] (write_set tx)) m0 m'" by blast
  moreover have "tx\<lparr>rlChangedObjects := []\<rparr> = tx" using c by simp
  moreover have "lock_map M m0 (pairs (write_set tx)) ++ release_map [] (write_set tx) = restore_map M m0 (write_set tx)"
    by (rule release_restores [OF _ B]) (simp add: assms(3))
  ultimately show ?thesis using False c
    by (intro exI [of _ m'] exI [of _ t]) (simp add: unlock_phase_def releaseLocks_def)
qed

lemma cache_below_cong:
  assumes "\<And>b. is_block M b \<Longrightarrow> VERSION_TS (lock_word M m' b) = VERSION_TS (lock_word M m b)"
  shows "cache_below G M c m' \<longleftrightarrow> cache_below G M c m"
  using assms by (simp add: cache_below_def isTimestampGreater_def)

lemma cache_below_locked:
  assumes "tx_current M m tx" "tx_wf M tx" "refused M m (pairs (write_set tx)) = []"
    "locks_set M (lock_map M m (pairs (write_set tx))) m m'"
  shows "cache_below G M c m' \<longleftrightarrow> cache_below G M c m"
proof (rule cache_below_cong)
  fix b assume b: "is_block M b"
  have "blocks_of M (write_set tx)" using assms(2) by (simp add: tx_wf_def)
  note L = lock_phase_current [OF assms(3,4) this b]
  show "VERSION_TS (lock_word M m' b) = VERSION_TS (lock_word M m b)"
  proof (cases "map_of (write_set tx) b")
    case None
    with L show ?thesis by simp
  next
    case (Some e)
    then have "lock_word M m b = ent_ts e" using assms(1) by (force simp: tx_current_def dest: map_of_SomeD)
    with L Some show ?thesis by (simp only: option.case VERSION_lock)
  qed
qed

lemma reads_stay_current:
  assumes "tx_current M m tx" "tx_wf M tx" "refused M m (pairs (write_set tx)) = []"
    "locks_set M (lock_map M m (pairs (write_set tx))) m m'"
    and "fst ` set (read_set tx) \<inter> fst ` set (write_set tx) = {}" "p \<in> set (read_set tx)"
  shows "current M m' p"
proof -
  have B: "blocks_of M (write_set tx)" "is_block M (fst p)" using assms(2,6) by (auto simp: tx_wf_def blocks_of_def)
  have "fst p \<notin> fst ` set (write_set tx)" using assms(5,6) by auto
  then have "map_of (write_set tx) (fst p) = None" by (simp add: map_of_eq_None_iff)
  with lock_phase_current [OF assms(3,4) B] assms(1,6) show ?thesis by (simp add: current_def tx_current_def)
qed

text \<open>The version a commit gives the blocks it writes.\<close>

definition next_version :: "platform \<Rightarrow> world \<Rightarrow> u64" where
  "next_version G w = TO_NODE_TS (of_nat (gasnet_mynode G)) OR (LOCAL_CLOCK w + 1)"

lemma next_version_fields:
  assumes "unat (LOCAL_CLOCK w) + 1 < 2 ^ 48" "gasnet_mynode G < 2 ^ 15"
  shows "\<not> locked (next_version G w)" "unat (NODE_TS (next_version G w)) = gasnet_mynode G"
    "unat (VERSION_TS (next_version G w)) = unat (LOCAL_CLOCK w) + 1"
proof -
  have "unat (LOCAL_CLOCK w + 1) = unat (LOCAL_CLOCK w) + 1"
    using assms(1) by (subst unat_plus_simple) auto
  moreover from this have "take_bit 48 (LOCAL_CLOCK w + 1) = LOCAL_CLOCK w + 1"
    using assms(1) by (simp add: take_bit_word_self_iff)
  ultimately show "\<not> locked (next_version G w)" "unat (VERSION_TS (next_version G w)) = unat (LOCAL_CLOCK w) + 1"
    using locked_pack [of "of_nat (gasnet_mynode G)" "LOCAL_CLOCK w + 1"] VERSION_pack [of "of_nat (gasnet_mynode G)" "LOCAL_CLOCK w + 1"]
    by (simp_all add: next_version_def)
  have "unat (of_nat (gasnet_mynode G) :: u64) = gasnet_mynode G" using assms(2) by (intro unat_of_nat_small) simp
  moreover from this assms(2) have "take_bit 15 (of_nat (gasnet_mynode G) :: u64) = of_nat (gasnet_mynode G)"
    by (simp add: take_bit_word_self_iff)
  ultimately show "unat (NODE_TS (next_version G w)) = gasnet_mynode G"
    using NODE_pack [of "of_nat (gasnet_mynode G)" "LOCAL_CLOCK w + 1"] \<open>take_bit 48 (LOCAL_CLOCK w + 1) = LOCAL_CLOCK w + 1\<close>
    by (simp add: next_version_def)
qed

lemma commit_tail:
  assumes Q: "quiet_api G" and W: "tx_wf M tx"
  shows "\<exists>c t. bnd (on_world (\<lambda>w. Some ((), commitWriteSetValues G (write_set tx) w))) (\<lambda>_.
          bnd (releaseLocksWithNewClock G M) (\<lambda>_.
          bnd (on_tx (\<lambda>tx. (clearReadSet (clearWriteSet tx))\<lparr>status := TX_COMMITTED\<rparr>)) (\<lambda>_.
          ret True))) (tx, w) =
      Some (Ok True, tx\<lparr>write_set := [], read_set := [], status := TX_COMMITTED\<rparr>,
        \<lparr>mem = locks_all M (next_version G w) (write_set tx) (contents_set (write_set tx) (mem w)), LOCAL_CLOCK = LOCAL_CLOCK w + 1,
         globalCache = c, tick = t\<rparr>) \<and> cl_pow c = cl_pow (globalCache w) \<and>
      (cache_below G M (globalCache w) (mem w) \<and>
        (\<forall>p \<in> set (write_set tx). \<not> isTimestampGreater (lock_word M (mem w) (fst p)) (next_version G w)) \<longrightarrow>
        cache_below G M c (locks_all M (next_version G w) (write_set tx) (contents_set (write_set tx) (mem w))))"
proof -
  have B: "blocks_of M (write_set tx)" and F: "full_entries (write_set tx)" using W by (simp_all add: tx_wf_def)
  obtain t1 where t1: "commitWriteSetValues G (write_set tx) w = w\<lparr>mem := contents_set (write_set tx) (mem w), tick := t1\<rparr>"
    using commitWriteSetValues_quiet [OF Q F] by blast
  let ?m = "contents_set (write_set tx) (mem w)"
  let ?w = "w\<lparr>mem := ?m, LOCAL_CLOCK := LOCAL_CLOCK w + 1, tick := Suc (Suc t1)\<rparr>"
  note words = contents_set_memory [OF B F, THEN conjunct2]
  from release_with_version_quiet [OF Q B, of "next_version G w" ?w] obtain c t where r:
    "release_with_version G M (next_version G w) (write_set tx) ?w = (Ok (), ?w\<lparr>mem := locks_all M (next_version G w) (write_set tx) ?m, globalCache := c, tick := t\<rparr>)"
    "cl_pow c = cl_pow (globalCache w)"
    "cache_below G M (globalCache w) ?m \<and> (\<forall>p \<in> set (write_set tx). \<not> isTimestampGreater (lock_word M ?m (fst p)) (next_version G w))
      \<longrightarrow> cache_below G M c (locks_all M (next_version G w) (write_set tx) ?m)" by auto
  have same: "cache_below G M (globalCache w) ?m \<longleftrightarrow> cache_below G M (globalCache w) (mem w)"
    by (rule cache_below_cong) (simp add: words)
  have "lock_word M ?m (fst p) = lock_word M (mem w) (fst p)" if "p \<in> set (write_set tx)" for p
    using words B that by (auto simp: blocks_of_def)
  with r(3) same have below: "cache_below G M (globalCache w) (mem w) \<and>
      (\<forall>p \<in> set (write_set tx). \<not> isTimestampGreater (lock_word M (mem w) (fst p)) (next_version G w)) \<longrightarrow>
      cache_below G M c (locks_all M (next_version G w) (write_set tx) ?m)" by simp
  have "releaseLocksWithNewClock G M (tx, w\<lparr>mem := ?m, tick := t1\<rparr>) =
      Some (Ok (), tx, ?w\<lparr>mem := locks_all M (next_version G w) (write_set tx) ?m, globalCache := c, tick := t\<rparr>)"
    using r(1) by (simp add: releaseLocksWithNewClock_def getNextClock_quiet [OF Q] next_version_def)
  then show ?thesis using t1 r(2) below
    by (intro exI [of _ c] exI [of _ t]) (simp add: bnd_def on_world_def on_tx_def ret_def clearReadSet_def clearWriteSet_def)
qed

lemma bnd_rules:
  "m s = Some (Ok a, s') \<Longrightarrow> bnd m f s = f a s'"
  "m s = Some (Aborted r, s') \<Longrightarrow> bnd m f s = Some (Aborted r, s')"
  "bnd (get_tx g) f (tx, w) = f (g tx) (tx, w)"
  by (simp_all add: bnd_def get_tx_def)

lemma tx_commit_phases:
  "tx_commit G M =
     bnd (get_tx write_set) (\<lambda>ws.
     bnd (lock_phase G M ws) (\<lambda>_.
     bnd (validateAll G M) (\<lambda>valid.
     if \<not> valid then bnd (unlock_phase G M ws) (\<lambda>_. tx_abort ABORT_READSET_VAL)
     else bnd (on_world (\<lambda>w. Some ((), commitWriteSetValues G ws w))) (\<lambda>_.
          bnd (releaseLocksWithNewClock G M) (\<lambda>_.
          bnd (on_tx (\<lambda>tx. (clearReadSet (clearWriteSet tx))\<lparr>status := TX_COMMITTED\<rparr>)) (\<lambda>_.
          ret True))))))"
  by (simp only: tx_commit_def lock_phase_def unlock_phase_def)

text \<open>The two ends of a commit: everything written, or nothing but restored lock words.\<close>

definition commits :: "platform \<Rightarrow> memmgr \<Rightarrow> tx \<Rightarrow> world \<Rightarrow> bool" where
  "commits G M tx w \<longleftrightarrow> (\<exists>n c t m'.
     tx_commit G M (tx, w) = Some (Ok True, tx\<lparr>rlNodes := n, write_set := [], read_set := [], status := TX_COMMITTED\<rparr>,
       \<lparr>mem = locks_all M (next_version G w) (write_set tx) (contents_set (write_set tx) m'),
        LOCAL_CLOCK = LOCAL_CLOCK w + 1, globalCache = c, tick = t\<rparr>) \<and>
     cl_pow c = cl_pow (globalCache w) \<and> refused M (mem w) (pairs (write_set tx)) = [] \<and>
     locks_set M (lock_map M (mem w) (pairs (write_set tx))) (mem w) m' \<and>
     (\<forall>p \<in> set (read_set tx). current M m' p) \<and>
     (cache_below G M (globalCache w) (mem w) \<and> tx_current M (mem w) tx \<and>
       (\<forall>p \<in> set (write_set tx). \<not> isTimestampGreater (ent_ts (snd p)) (next_version G w)) \<longrightarrow>
       cache_below G M c (locks_all M (next_version G w) (write_set tx) (contents_set (write_set tx) m'))))"

definition aborts :: "platform \<Rightarrow> memmgr \<Rightarrow> tx \<Rightarrow> world \<Rightarrow> bool" where
  "aborts G M tx w \<longleftrightarrow> (\<exists>reason n c t m'.
     tx_commit G M (tx, w) = Some (Aborted reason, aborted_tx reason (tx\<lparr>rlNodes := n\<rparr>),
       w\<lparr>mem := m', globalCache := c, tick := t\<rparr>) \<and>
     reason \<in> {ABORT_GRABBING_LOCKS, ABORT_READSET_VAL} \<and> cl_pow c = cl_pow (globalCache w) \<and>
     (\<exists>ys zs. write_set tx = ys @ zs \<and> locks_set M (restore_map M (mem w) ys) (mem w) m') \<and>
     \<not> (tx_current M (mem w) tx \<and> fst ` set (read_set tx) \<inter> fst ` set (write_set tx) = {} \<and>
        cache_below G M (globalCache w) (mem w)))"

lemma current_not_refused:
  assumes "tx_current M m tx"
  shows "refused M m (pairs (write_set tx)) = []"
  using assms unfolding refused_def filter_empty_conv by (auto simp: tx_current_def pairs_def)

lemma tx_commit_quiet:
  assumes Q: "quiet_api G" and V: "\<not> VARIANT3 G" and W: "tx_wf M tx"
  shows "commits G M tx w \<or> aborts G M tx w"
proof (cases "refused M (mem w) (pairs (write_set tx)) = []")
  case False
  from lock_phase_quiet [OF Q W, of w] False obtain m' t n where p:
    "lock_phase G M (write_set tx) (tx, w) =
      Some (Aborted ABORT_GRABBING_LOCKS, aborted_tx ABORT_GRABBING_LOCKS (tx\<lparr>rlNodes := n\<rparr>), w\<lparr>mem := m', tick := t\<rparr>)"
    "\<exists>ys zs. write_set tx = ys @ zs \<and> locks_set M (restore_map M (mem w) ys) (mem w) m'"
    by (simp only: if_False) blast
  have "tx_commit G M (tx, w) = Some (Aborted ABORT_GRABBING_LOCKS, aborted_tx ABORT_GRABBING_LOCKS (tx\<lparr>rlNodes := n\<rparr>),
      w\<lparr>mem := m', globalCache := globalCache w, tick := t\<rparr>)"
    unfolding tx_commit_phases bnd_rules(3)
    using bnd_rules(2) [of "lock_phase G M (write_set tx)" "(tx, w)", OF p(1)] by simp
  moreover have "\<not> tx_current M (mem w) tx" using False current_not_refused by blast
  ultimately have "aborts G M tx w" unfolding aborts_def using p(2) by blast
  then show ?thesis ..
next
  case True
  from lock_phase_quiet [OF Q W, of w] True obtain m' t n where p:
    "lock_phase G M (write_set tx) (tx, w) =
      Some (Ok (), tx\<lparr>rlNodes := n\<rparr>, w\<lparr>mem := m', tick := t\<rparr>)"
    "locks_set M (lock_map M (mem w) (pairs (write_set tx))) (mem w) m'"
    unfolding if_P [OF True] by blast
  let ?tx = "tx\<lparr>rlNodes := n\<rparr>" and ?w = "w\<lparr>mem := m', tick := t\<rparr>"
  have W': "tx_wf M ?tx" using W by (simp add: tx_wf_def)
  then have Br: "blocks_of M (read_set ?tx)" by (simp add: tx_wf_def)
  from validateAll_quiet [OF Q V Br, of ?w] obtain r c t' where v:
    "validateAll G M (?tx, ?w) = Some (Ok r, ?tx, w\<lparr>mem := m', globalCache := c, tick := t'\<rparr>)"
    "cl_pow c = cl_pow (globalCache w)" "r \<longrightarrow> (\<forall>p \<in> set (read_set tx). current M m' p)"
    "cache_below G M (globalCache w) m' \<longrightarrow> cache_below G M c m' \<and> ((\<forall>p \<in> set (read_set tx). current M m' p) \<longrightarrow> r)"
    by auto
  let ?v = "w\<lparr>mem := m', globalCache := c, tick := t'\<rparr>"
  note below = cache_below_locked [OF _ W True p(2)]
  show ?thesis
  proof (cases r)
    case r: True
    from commit_tail [OF Q W', of ?v] obtain c' t'' where C:
      "bnd (on_world (\<lambda>w. Some ((), commitWriteSetValues G (write_set ?tx) w))) (\<lambda>_.
          bnd (releaseLocksWithNewClock G M) (\<lambda>_.
          bnd (on_tx (\<lambda>tx. (clearReadSet (clearWriteSet tx))\<lparr>status := TX_COMMITTED\<rparr>)) (\<lambda>_. ret True))) (?tx, ?v) =
       Some (Ok True, ?tx\<lparr>write_set := [], read_set := [], status := TX_COMMITTED\<rparr>,
        \<lparr>mem = locks_all M (next_version G ?v) (write_set ?tx) (contents_set (write_set ?tx) (mem ?v)),
         LOCAL_CLOCK = LOCAL_CLOCK ?v + 1, globalCache = c', tick = t''\<rparr>)" "cl_pow c' = cl_pow (globalCache ?v)"
      "cache_below G M (globalCache ?v) (mem ?v) \<and>
        (\<forall>p \<in> set (write_set ?tx). \<not> isTimestampGreater (lock_word M (mem ?v) (fst p)) (next_version G ?v)) \<longrightarrow>
        cache_below G M c' (locks_all M (next_version G ?v) (write_set ?tx) (contents_set (write_set ?tx) (mem ?v)))"
      by blast
    have nv: "next_version G ?v = next_version G w" by (simp add: next_version_def)
    have run: "tx_commit G M (tx, w) = Some (Ok True, tx\<lparr>rlNodes := n, write_set := [], read_set := [], status := TX_COMMITTED\<rparr>,
        \<lparr>mem = locks_all M (next_version G w) (write_set tx) (contents_set (write_set tx) m'),
         LOCAL_CLOCK = LOCAL_CLOCK w + 1, globalCache = c', tick = t''\<rparr>)"
      unfolding tx_commit_phases bnd_rules(3) bnd_rules(1) [of "lock_phase G M (write_set tx)" "(tx, w)", OF p(1)]
        bnd_rules(1) [of "validateAll G M" "(?tx, ?w)", OF v(1)]
      using C(1) r by (simp add: nv)
    have words: "\<not> isTimestampGreater (lock_word M m' (fst q)) (next_version G w)"
      if "q \<in> set (write_set tx)" "\<forall>p \<in> set (write_set tx). \<not> isTimestampGreater (ent_ts (snd p)) (next_version G w)" for q
    proof -
      have B: "blocks_of M (write_set tx)" using W by (simp add: tx_wf_def)
      then have q: "is_block M (fst q)" "map_of (write_set tx) (fst q) = Some (snd q)"
        using that(1) by (auto simp: blocks_of_def intro: map_of_is_SomeI)
      from lock_phase_current [OF True p(2) B q(1)] q(2) have "lock_word M m' (fst q) = ent_ts (snd q) OR LOCK_BIT"
        by (simp only: option.case)
      with that show ?thesis by (simp only: isTimestampGreater_def VERSION_lock) blast
    qed
    have "cache_below G M c' (locks_all M (next_version G w) (write_set tx) (contents_set (write_set tx) m'))"
      if "cache_below G M (globalCache w) (mem w)" "tx_current M (mem w) tx"
        "\<forall>p \<in> set (write_set tx). \<not> isTimestampGreater (ent_ts (snd p)) (next_version G w)"
      using C(3) v(4) below [OF that(2)] that(1) words [OF _ that(3)] by (simp add: nv)
    moreover have "cl_pow c' = cl_pow (globalCache w)" using C(2) v(2) by simp
    moreover have "\<forall>p \<in> set (read_set tx). current M m' p" using v(3) r by simp
    ultimately have "commits G M tx w" unfolding commits_def using run True p(2) by blast
    then show ?thesis ..
  next
    case False
    have "refused M (mem w) (pairs (write_set ?tx)) = []" "locks_set M (lock_map M (mem w) (pairs (write_set ?tx))) (mem w) (mem ?v)"
      using True p(2) by simp_all
    from release_after_validation [OF Q W' this] obtain m'' t'' where
      "unlock_phase G M (write_set ?tx) (?tx, ?v) = Some (Ok (), ?tx, ?v\<lparr>mem := m'', tick := t''\<rparr>)"
      "locks_set M (restore_map M (mem w) (write_set ?tx)) (mem w) m''" by blast
    then have rel: "unlock_phase G M (write_set tx) (?tx, ?v) = Some (Ok (), ?tx, w\<lparr>mem := m'', globalCache := c, tick := t''\<rparr>)"
      "locks_set M (restore_map M (mem w) (write_set tx)) (mem w) m''" by simp_all
    have run: "tx_commit G M (tx, w) = Some (Aborted ABORT_READSET_VAL, aborted_tx ABORT_READSET_VAL ?tx,
        w\<lparr>mem := m'', globalCache := c, tick := t''\<rparr>)"
      unfolding tx_commit_phases bnd_rules(3) bnd_rules(1) [of "lock_phase G M (write_set tx)" "(tx, w)", OF p(1)]
        bnd_rules(1) [of "validateAll G M" "(?tx, ?w)", OF v(1)]
      using False by (simp only: if_True not_False_eq_True bnd_rules(1) [of "unlock_phase G M (write_set tx)" "(?tx, ?v)", OF rel(1)] tx_abort_eq)
    have "\<not> (tx_current M (mem w) tx \<and> fst ` set (read_set tx) \<inter> fst ` set (write_set tx) = {} \<and>
        cache_below G M (globalCache w) (mem w))"
      using v(4) below False reads_stay_current [OF _ W True p(2)] by blast
    moreover have "\<exists>ys zs. write_set tx = ys @ zs \<and> locks_set M (restore_map M (mem w) ys) (mem w) m''"
      using rel(2) by (intro exI [of _ "write_set tx"] exI [of _ "[]"]) simp
    ultimately have "aborts G M tx w"
      unfolding aborts_def using run v(2) by blast
    then show ?thesis ..
  qed
qed

subsection \<open>All of the writes or none\<close>

lemma committed_memory:
  assumes W: "tx_wf M tx" and R: "refused M m (pairs (write_set tx)) = []"
    and L: "locks_set M (lock_map M m (pairs (write_set tx))) m m'" and b: "is_block M b"
    and m'': "m'' = locks_all M v (write_set tx) (contents_set (write_set tx) m')"
  shows "case map_of (write_set tx) b of
      Some e \<Rightarrow> content m'' b = ent_data e \<and> lock_word M m'' b = v \<and> lock_word M m b \<le> ent_ts e
    | None \<Rightarrow> content m'' b = content m b \<and> lock_word M m'' b = lock_word M m b"
proof -
  have B: "blocks_of M (write_set tx)" and F: "full_entries (write_set tx)" using W by (simp_all add: tx_wf_def)
  note mem = locks_all_memory [OF B b, of v "contents_set (write_set tx) m'"] contents_set_memory [OF B F b, of m']
  show ?thesis
  proof (cases "map_of (write_set tx) b")
    case None
    then have "b \<notin> fst ` set (write_set tx)" by (simp add: map_of_eq_None_iff)
    with None mem locks_set_content [OF L b] lock_phase_current [OF R L B b] show ?thesis by (simp add: m'')
  next
    case (Some e)
    then have e: "(b, e) \<in> set (write_set tx)" by (rule map_of_SomeD)
    then have "(b, ent_ts e) \<in> set (pairs (write_set tx))" by (auto simp: pairs_def)
    with R have "\<not> lock_word M m b > ent_ts e" unfolding refused_def filter_empty_conv by force
    moreover have "b \<in> fst ` set (write_set tx)" using e by force
    ultimately show ?thesis using Some mem by (simp add: m'' not_less)
  qed
qed

lemma current_before:
  assumes W: "tx_wf M tx" and R: "refused M m (pairs (write_set tx)) = []"
    and L: "locks_set M (lock_map M m (pairs (write_set tx))) m m'" and p: "p \<in> set (read_set tx)" "current M m' p"
  shows "current M m p"
proof -
  have B: "blocks_of M (write_set tx)" "is_block M (fst p)" using W p(1) by (auto simp: tx_wf_def blocks_of_def)
  note C = lock_phase_current [OF R L B]
  show ?thesis
  proof (cases "map_of (write_set tx) (fst p)")
    case None
    with C p(2) show ?thesis by (simp add: current_def)
  next
    case (Some e)
    with C have "locked (lock_word M m' (fst p))" by (simp only: option.case locked_lock not_False_eq_True)
    with p(2) show ?thesis by (simp add: current_def)
  qed
qed

lemma aborted_memory:
  assumes "write_set tx = ys @ zs" "locks_set M (restore_map M m ys) m m'" "tx_wf M tx"
  shows "is_block M b \<Longrightarrow> content m' b = content m b"
    and "is_block M b \<Longrightarrow> lock_word M m' b = lock_word M m b \<or>
      (\<exists>e. map_of (write_set tx) b = Some e \<and> lock_word M m b \<le> ent_ts e \<and> lock_word M m' b = ent_ts e)"
    and "\<forall>p \<in> set (write_set tx). ent_ts (snd p) \<le> lock_word M m (fst p) \<Longrightarrow> m' = m"
proof -
  show "content m' b = content m b" if "is_block M b" by (rule locks_set_content [OF assms(2) that])
  have sub: "map_of (write_set tx) c = Some e" if "map_of ys c = Some e" for c e
    using that by (simp add: assms(1))
  show "lock_word M m' b = lock_word M m b \<or>
      (\<exists>e. map_of (write_set tx) b = Some e \<and> lock_word M m b \<le> ent_ts e \<and> lock_word M m' b = ent_ts e)"
    if "is_block M b"
  proof (cases "map_of ys b")
    case None
    then show ?thesis using locks_set_lock_word [OF assms(2) that] by (simp add: restore_map_def)
  next
    case (Some e)
    then show ?thesis using locks_set_lock_word [OF assms(2) that] sub [OF Some]
      by (simp add: restore_map_def not_less split: if_splits)
  qed
  show "m' = m" if "\<forall>p \<in> set (write_set tx). ent_ts (snd p) \<le> lock_word M m (fst p)"
  proof (rule locks_set_restore [OF assms(2)], intro allI impI)
    fix c v assume v: "restore_map M m ys c = Some v"
    show "v = lock_word M m c"
    proof (cases "map_of ys c")
      case None
      with v show ?thesis by (simp add: restore_map_def)
    next
      case (Some e)
      with v have "lock_word M m c \<le> ent_ts e" "v = ent_ts e" by (simp_all add: restore_map_def not_less split: if_splits)
      moreover have "(c, e) \<in> set (write_set tx)" by (rule map_of_SomeD [OF sub [OF Some]])
      ultimately show ?thesis using bspec [OF that] by fastforce
    qed
  qed
qed

text \<open>
  C1. A commit is all or nothing, in a build without \<^verbatim>\<open>VARIANT3\<close> and while no other thread or node
  changes the memory or the clock, for a transaction whose sets have full copies of distinct
  blocks.  It always ends, and never outside the tables and arrays.
  When it succeeds, every block of the read set was unlocked and no newer than its copy, every
  block of the write set holds its copy and the word of the new version (the node's number over
  the next value of its clock), and every other block is as before.  If the next value of the
  clock is below \<open>2 ^ 48\<close> and the number of the node below \<open>2 ^ 15\<close>, that word is unlocked and its
  fields are that node and that version; beyond these bounds the word can carry other fields.
  When it aborts, no content has changed, and a lock word has only changed to the version its
  entry had read, if this is the larger word; where the lock words are at least what was read,
  the memory is the old one byte for byte.
\<close>

theorem commit_all_or_nothing:
  assumes "quiet_api G" "\<not> VARIANT3 G" "tx_wf M tx"
  shows "\<exists>out tx' w'. tx_commit G M (tx, w) = Some (out, tx', w') \<and> read_set tx' = [] \<and> write_set tx' = [] \<and>
    (case out of
       Ok r \<Rightarrow> r \<and> (\<forall>p \<in> set (read_set tx). current M (mem w) p) \<and>
         (\<forall>b. is_block M b \<longrightarrow>
           (case map_of (write_set tx) b of
              Some e \<Rightarrow> content (mem w') b = ent_data e \<and> lock_word M (mem w') b = next_version G w \<and>
                lock_word M (mem w) b \<le> ent_ts e
            | None \<Rightarrow> content (mem w') b = content (mem w) b \<and> lock_word M (mem w') b = lock_word M (mem w) b)) \<and>
         (unat (LOCAL_CLOCK w) + 1 < 2 ^ 48 \<and> gasnet_mynode G < 2 ^ 15 \<longrightarrow>
           (\<forall>b \<in> fst ` set (write_set tx). \<not> locked (lock_word M (mem w') b) \<and>
              unat (NODE_TS (lock_word M (mem w') b)) = gasnet_mynode G \<and>
              unat (VERSION_TS (lock_word M (mem w') b)) = unat (LOCAL_CLOCK w) + 1))
     | Aborted reason \<Rightarrow>
         (\<forall>b. is_block M b \<longrightarrow> content (mem w') b = content (mem w) b \<and>
           (lock_word M (mem w') b = lock_word M (mem w) b \<or>
            (\<exists>e. map_of (write_set tx) b = Some e \<and> lock_word M (mem w) b \<le> ent_ts e \<and> lock_word M (mem w') b = ent_ts e))) \<and>
         ((\<forall>p \<in> set (write_set tx). ent_ts (snd p) \<le> lock_word M (mem w) (fst p)) \<longrightarrow> mem w' = mem w)
     | Fault \<Rightarrow> False)"
  using tx_commit_quiet [OF assms, of w]
proof
  assume "commits G M tx w"
  then obtain n c t m' where C: "tx_commit G M (tx, w) = Some (Ok True, tx\<lparr>rlNodes := n, write_set := [], read_set := [], status := TX_COMMITTED\<rparr>,
       \<lparr>mem = locks_all M (next_version G w) (write_set tx) (contents_set (write_set tx) m'),
        LOCAL_CLOCK = LOCAL_CLOCK w + 1, globalCache = c, tick = t\<rparr>)"
    and R: "refused M (mem w) (pairs (write_set tx)) = []"
    and L: "locks_set M (lock_map M (mem w) (pairs (write_set tx))) (mem w) m'"
    and cur: "\<forall>p \<in> set (read_set tx). current M m' p" unfolding commits_def by blast
  let ?m = "locks_all M (next_version G w) (write_set tx) (contents_set (write_set tx) m')"
  have X: "\<forall>b. is_block M b \<longrightarrow> (case map_of (write_set tx) b of
      Some e \<Rightarrow> content ?m b = ent_data e \<and> lock_word M ?m b = next_version G w \<and> lock_word M (mem w) b \<le> ent_ts e
    | None \<Rightarrow> content ?m b = content (mem w) b \<and> lock_word M ?m b = lock_word M (mem w) b)"
    using committed_memory [OF assms(3) R L _ refl] by blast
  have Y: "\<forall>p \<in> set (read_set tx). current M (mem w) p" using current_before [OF assms(3) R L] cur by blast
  have Z: "unat (LOCAL_CLOCK w) + 1 < 2 ^ 48 \<and> gasnet_mynode G < 2 ^ 15 \<longrightarrow>
    (\<forall>b \<in> fst ` set (write_set tx). \<not> locked (lock_word M ?m b) \<and> unat (NODE_TS (lock_word M ?m b)) = gasnet_mynode G \<and>
      unat (VERSION_TS (lock_word M ?m b)) = unat (LOCAL_CLOCK w) + 1)"
  proof (intro impI ballI)
    fix b
    assume n: "unat (LOCAL_CLOCK w) + 1 < 2 ^ 48 \<and> gasnet_mynode G < 2 ^ 15" and b: "b \<in> fst ` set (write_set tx)"
    from b obtain e where "map_of (write_set tx) b = Some e" using weak_map_of_SomeI by fastforce
    moreover have "is_block M b" using b assms(3) by (auto simp: tx_wf_def blocks_of_def)
    ultimately have w: "lock_word M ?m b = next_version G w" using X by fastforce
    show "\<not> locked (lock_word M ?m b) \<and> unat (NODE_TS (lock_word M ?m b)) = gasnet_mynode G \<and>
      unat (VERSION_TS (lock_word M ?m b)) = unat (LOCAL_CLOCK w) + 1"
      unfolding w using next_version_fields [of w G] n by blast
  qed
  from C obtain tx' w' where E:
    "tx_commit G M (tx, w) = Some (Ok True, tx', w')" "mem w' = ?m" "read_set tx' = []" "write_set tx' = []" by simp
  show ?thesis
    by (intro exI conjI, rule E(1), rule E(3), rule E(4), unfold outcome.case) (intro conjI TrueI Y X [folded E(2)] Z [folded E(2)])
next
  assume "aborts G M tx w"
  then obtain reason n c t m' ys zs where A: "tx_commit G M (tx, w) = Some (Aborted reason, aborted_tx reason (tx\<lparr>rlNodes := n\<rparr>),
       w\<lparr>mem := m', globalCache := c, tick := t\<rparr>)" "write_set tx = ys @ zs" "locks_set M (restore_map M (mem w) ys) (mem w) m'"
    unfolding aborts_def by blast
  note mem = aborted_memory [OF A(2,3) assms(3)]
  show ?thesis using mem by (subst A(1)) (simp add: aborted_tx_def)
qed

text \<open>
  C5. In a build without \<^verbatim>\<open>VARIANT3\<close>, and while no other thread or node changes the memory or the
  clock during the commit, a transaction that is still current commits, and the clock advances by
  one.  Its sets have full copies of distinct blocks; none of these blocks has been locked or
  changed since it was read, no block is in both sets, and no cached version
  is locked or newer than its block.
\<close>

theorem commit_succeeds:
  assumes "quiet_api G" "\<not> VARIANT3 G" "tx_wf M tx" "tx_current M (mem w) tx"
    and "fst ` set (read_set tx) \<inter> fst ` set (write_set tx) = {}" "cache_below G M (globalCache w) (mem w)"
  shows "\<exists>tx' w'. tx_commit G M (tx, w) = Some (Ok True, tx', w') \<and> LOCAL_CLOCK w' = LOCAL_CLOCK w + 1"
proof -
  have "\<not> aborts G M tx w" using assms(4-6) unfolding aborts_def by blast
  then have "commits G M tx w" using tx_commit_quiet [OF assms(1-3)] by blast
  then show ?thesis unfolding commits_def by force
qed

text \<open>A transaction that has read one block of the own node and written one there and one on node 1.\<close>

definition example_tx :: tx where
  "example_tx = (tx_new (example_platform True False) 7)\<lparr>read_set := [(0x210080, \<lparr>ent_ts = 0, ent_data = replicate 64 0\<rparr>)],
     write_set := [(0x210040, \<lparr>ent_ts = 0, ent_data = replicate 64 1\<rparr>), (0x10000002100c0, \<lparr>ent_ts = 0, ent_data = replicate 64 2\<rparr>)]\<rparr>"

lemma example_blocks: "is_block example_mgr 0x210040" "is_block example_mgr 0x210080" "is_block example_mgr 0x10000002100c0"
  by (simp_all add: is_block_def example_mgr_wf in_objects_def example_mgr_tables LOCKBIT_TS_def NODE_FROM_ADDRESS_def
      NODE_MASK_def ADDR_FROM_ADDRESS_def ADDRESS_MASK_def block_lb_def CDU_SIZE_def Let_def)

lemma example_tx_wf: "tx_wf example_mgr example_tx"
  by (simp add: tx_wf_def example_tx_def tx_new_def example_blocks)

lemma example_words [simp]: "lock_word M (mem (example_world c)) b = 0"
  by (simp add: lock_word_def example_world_def load_zero)

lemma example_tx_current: "tx_current example_mgr (mem (example_world c)) example_tx"
  by (simp add: tx_current_def current_def example_tx_def LOCKBIT_TS_def isTimestampGreater_def)

lemma example_below: "cache_below G M (globalCache (example_world c)) (mem (example_world c))"
  by (simp add: cache_below_def getCachedVersion_def example_world_def LOCKBIT_TS_def isTimestampGreater_def VERSION_TS_def)

theorem commit_succeeds_witness:
  "\<exists>tx' w'. tx_commit (example_platform True False) example_mgr (example_tx, example_world 3) = Some (Ok True, tx', w') \<and>
    LOCAL_CLOCK w' = LOCAL_CLOCK (example_world 3) + 1"
  by (rule commit_succeeds [OF example_quiet _ example_tx_wf example_tx_current _ example_below]) (simp_all add: example_tx_def)

text \<open>The same run through the first theorem: what node 1 and the own node hold afterwards.\<close>

lemma example_commits:
  "\<exists>tx' w'. tx_commit (example_platform True False) example_mgr (example_tx, example_world 3) = Some (Ok True, tx', w')"
proof -
  have "\<not> aborts (example_platform True False) example_mgr example_tx (example_world 3)"
    unfolding aborts_def using example_tx_current example_below by (auto simp: example_tx_def)
  then show ?thesis
    using tx_commit_quiet [OF example_quiet [of True False] _ example_tx_wf, of "example_world 3"]
    unfolding commits_def by force
qed

theorem commit_all_or_nothing_witness:
  "\<exists>tx' w'. tx_commit (example_platform True False) example_mgr (example_tx, example_world 3) = Some (Ok True, tx', w') \<and>
    content (mem w') 0x210040 = replicate 64 1 \<and> content (mem w') 0x10000002100c0 = replicate 64 2 \<and>
    lock_word example_mgr (mem w') 0x10000002100c0 = 4 \<and> lock_word example_mgr (mem w') 0x210080 = 0 \<and>
    unat (VERSION_TS (lock_word example_mgr (mem w') 0x210040)) = 4 \<and> \<not> locked (lock_word example_mgr (mem w') 0x210040)"
proof -
  obtain tx' w' where r: "tx_commit (example_platform True False) example_mgr (example_tx, example_world 3) = Some (Ok True, tx', w')"
    using example_commits by blast
  have nv: "next_version (example_platform True False) (example_world 3) = 4"
    by (simp add: next_version_def example_world_def TO_NODE_TS_def)
  have small: "unat (LOCAL_CLOCK (example_world 3)) + 1 < 2 ^ 48" by (simp add: example_world_def)
  from commit_all_or_nothing [OF example_quiet [of True False] _ example_tx_wf, of "example_world 3"] r small
  have "\<forall>b. is_block example_mgr b \<longrightarrow>
     (case map_of (write_set example_tx) b of
        Some e \<Rightarrow> content (mem w') b = ent_data e \<and>
          lock_word example_mgr (mem w') b = next_version (example_platform True False) (example_world 3) \<and>
          lock_word example_mgr (mem (example_world 3)) b \<le> ent_ts e
      | None \<Rightarrow> content (mem w') b = content (mem (example_world 3)) b \<and>
          lock_word example_mgr (mem w') b = lock_word example_mgr (mem (example_world 3)) b)"
    and f: "\<forall>b \<in> fst ` set (write_set example_tx). \<not> locked (lock_word example_mgr (mem w') b) \<and>
      unat (VERSION_TS (lock_word example_mgr (mem w') b)) = unat (LOCAL_CLOCK (example_world 3)) + 1"
    by simp_all
  from this(1) [rule_format, OF example_blocks(1)] this(1) [rule_format, OF example_blocks(2)]
    this(1) [rule_format, OF example_blocks(3)] f r
  show ?thesis by (simp add: example_tx_def nv) (simp add: example_world_def)
qed

end
