(* ===== verification/Tx_Serial.thy ===== *)
theory Tx_Serial
  imports Commit_Correct
begin

text \<open>
  A transaction that runs alone.  The body of a transaction is a tree of reads and writes; its
  sequential meaning acts on the contents of the blocks at once.  The transaction that runs
  through \<^verbatim>\<open>read\<close>, \<^verbatim>\<open>write\<close> and \<^verbatim>\<open>commit\<close> refines it.
\<close>

subsection \<open>Offsets\<close>

lemma unat_offset: "unat (addr - block_lb addr) = unat addr mod 64"
proof -
  have "block_lb addr \<le> addr" by (simp add: word_le_nat_alt unat_block_lb)
  then have "unat (addr - block_lb addr) = unat addr - unat addr div 64 * 64"
    by (subst unat_minus_simple) (simp_all add: unat_block_lb)
  then show ?thesis by (simp add: minus_div_mult_eq_mod)
qed

lemma block_offset_mod: "block_offset addr = unat addr mod 64"
proof -
  have "unat addr mod 64 < 2 ^ 48" by (rule less_trans [of _ 64]) simp_all
  then show ?thesis by (simp add: block_offset_def unat_ADDR unat_offset del: power_numeral)
qed

lemma read_offset: "unat (ADDR_FROM_ADDRESS addr - block_lb (ADDR_FROM_ADDRESS addr)) = block_offset addr"
  unfolding unat_offset block_offset_mod unat_ADDR
  using mod_mod_cancel [of 64 "2 ^ 48 :: nat" "unat addr"] by simp

subsection \<open>Access to a valid address\<close>

lemma valid_block:
  assumes "wf_mgr M" "in_objects M addr"
  shows "is_block M (block_lb addr)" "bnode (block_lb addr) = unat (NODE_FROM_ADDRESS addr)"
    "\<exists>l. getObjectLockAddr M addr = Some l \<and> getObjectLockAddr M (block_lb addr) = Some l \<and>
      unat (NODE_FROM_ADDRESS l) = bnode (block_lb addr) \<and> ADDR_FROM_ADDRESS l = lock_loc M (block_lb addr)"
proof -
  have v: "wf_mgr M \<and> in_objects M addr" "wf_mgr M \<and> in_objects M (block_lb addr)"
    using assms mgr.valid_block by blast+
  show b: "is_block M (block_lb addr)" using v(2) by (simp add: is_block_def)
  show "bnode (block_lb addr) = unat (NODE_FROM_ADDRESS addr)" by (simp add: bnode_def NODE_block_lb)
  have "getObjectLockAddr M addr = getObjectLockAddr M (block_lb addr)"
    using mgr.lock_of_block [OF v] by simp
  with is_blockD(3) [OF b]
  show "\<exists>l. getObjectLockAddr M addr = Some l \<and> getObjectLockAddr M (block_lb addr) = Some l \<and>
      unat (NODE_FROM_ADDRESS l) = bnode (block_lb addr) \<and> ADDR_FROM_ADDRESS l = lock_loc M (block_lb addr)"
    by (auto simp: bnode_def)
qed

lemma readCell_block:
  assumes Q: "quiet_api G" and v: "wf_mgr M" "in_objects M addr" "getObjectLockAddr M addr = Some l"
    and w: "cl_pow (globalCache w) = 6" "\<not> locked (lock_word M (mem w) (block_lb addr))"
  shows "\<exists>t. readCell G k True addr l w =
    Some ((slice (block_offset addr) k (content (mem w) (block_lb addr)), lock_word M (mem w) (block_lb addr),
      Some \<lparr>ent_ts = lock_word M (mem w) (block_lb addr), ent_data = content (mem w) (block_lb addr)\<rparr>), w\<lparr>tick := t\<rparr>)"
proof -
  obtain l' where "getObjectLockAddr M addr = Some l'" "unat (NODE_FROM_ADDRESS l') = bnode (block_lb addr)"
    "ADDR_FROM_ADDRESS l' = lock_loc M (block_lb addr)" using valid_block(3) [OF v(1,2)] by blast
  then have l: "ADDR_FROM_ADDRESS l = lock_loc M (block_lb addr)" using v(3) by simp
  have e: "lock_word M (mem w) (block_lb addr) = load64 (mem w) (unat (NODE_FROM_ADDRESS addr)) (ADDR_FROM_ADDRESS l)"
    "content (mem w) (block_lb addr) = load_bytes (mem w) (unat (NODE_FROM_ADDRESS addr)) (block_lb (ADDR_FROM_ADDRESS addr)) 64"
    using valid_block(2) [OF v(1,2)] l by (simp_all add: lock_word_def content_def ADDR_block_lb)
  from readCell_quiet [OF Q w(1) refl refl, of k addr l] w(2) show ?thesis unfolding e read_offset by simp
qed

subsection \<open>Validation of current sets\<close>

lemma check_set_current:
  assumes Q: "quiet_api G" and V: "\<not> VARIANT3 G" and C: "\<forall>p \<in> set es. is_block M (fst p) \<and> current M (mem w) p"
    and B: "cache_below G M (globalCache w) (mem w)"
  shows "\<exists>c t. check_set G M guard es (lc, w) = (Ok True, lc, w\<lparr>globalCache := c, tick := t\<rparr>) \<and>
    cl_pow c = cl_pow (globalCache w) \<and> cache_below G M c (mem w)"
proof -
  have b: "\<forall>p \<in> set es. is_block M (fst p)" and c: "\<forall>p \<in> set es. guard (ent_ts (snd p)) \<longrightarrow> current M (mem w) p"
    using C by simp_all
  from check_set_quiet [OF Q V b, of guard lc w] obtain r c t where R:
    "check_set G M guard es (lc, w) = (Ok r, lc, w\<lparr>globalCache := c, tick := t\<rparr>)"
    "cl_pow c = cl_pow (globalCache w)" "cache_below G M c (mem w)" "(\<forall>p \<in> set es. guard (ent_ts (snd p)) \<longrightarrow> current M (mem w) p) \<longrightarrow> r"
    using B by blast
  then have r by (intro mp [OF R(4) c])
  with R(1-3) show ?thesis by (simp only: simp_thms) blast
qed

lemma validate_current:
  assumes Q: "quiet_api G" and V: "\<not> VARIANT3 G"
    and C: "\<forall>p \<in> set (read_set tx) \<union> set (write_set tx). is_block M (fst p) \<and> current M (mem w) p"
    and B: "cache_below G M (globalCache w) (mem w)" and n: "unat (NODE_TS ts) < length (VC tx)"
  shows "\<exists>vc c t. validate G M ts (tx, w) = Some (Ok True, tx\<lparr>VC := vc\<rparr>, w\<lparr>globalCache := c, tick := t\<rparr>) \<and>
    length vc = length (VC tx) \<and> cl_pow c = cl_pow (globalCache w) \<and> cache_below G M c (mem w)"
proof (cases "VERSION_TS ts > VC tx ! unat (NODE_TS ts)")
  case False
  with n have "validate G M ts (tx, w) = Some (Ok True, tx\<lparr>VC := VC tx\<rparr>, w\<lparr>globalCache := globalCache w, tick := tick w\<rparr>)"
    by (simp add: validate_def Let_def)
  with B show ?thesis by blast
next
  case True
  let ?g = "isTimestampGreater ts" and ?lc = "lc_setCacheLine 4 locks_cache_new"
  from check_set_current [OF Q V _ B, of "read_set tx" ?g ?lc] C obtain c t where r:
    "check_set G M ?g (read_set tx) (?lc, w) = (Ok True, ?lc, w\<lparr>globalCache := c, tick := t\<rparr>)"
    "cl_pow c = cl_pow (globalCache w)" "cache_below G M c (mem w)" by blast
  let ?w = "w\<lparr>globalCache := c, tick := t\<rparr>"
  have "\<forall>p \<in> set (write_set tx). is_block M (fst p) \<and> current M (mem ?w) p" "cache_below G M (globalCache ?w) (mem ?w)"
    using C r(3) by simp_all
  from check_set_current [OF Q V this, of ?g ?lc] obtain c' t' where s:
    "check_set G M ?g (write_set tx) (?lc, ?w) = (Ok True, ?lc, ?w\<lparr>globalCache := c', tick := t'\<rparr>)"
    "cl_pow c' = cl_pow (globalCache ?w)" "cache_below G M c' (mem ?w)" by blast
  let ?vc = "(VC tx)[unat (NODE_TS ts) := VERSION_TS ts]"
  have "validate G M ts (tx, w) = Some (Ok True, tx\<lparr>VC := ?vc\<rparr>, w\<lparr>globalCache := c', tick := t'\<rparr>)"
    using True n r(1) s(1) by (simp add: validate_def Let_def)
  then show ?thesis using r(2) s(2,3) by (intro exI [of _ ?vc] exI [of _ c'] exI [of _ t']) simp
qed

subsection \<open>Settled worlds\<close>

text \<open>No block is locked, and no version is newer than \<open>c\<close>: the state between transactions.\<close>

definition settled :: "platform \<Rightarrow> memmgr \<Rightarrow> nat \<Rightarrow> world \<Rightarrow> bool" where
  "settled G M c w \<longleftrightarrow> cl_pow (globalCache w) = 6 \<and> unat (LOCAL_CLOCK w) \<le> c \<and>
     cache_below G M (globalCache w) (mem w) \<and>
     (\<forall>b. is_block M b \<longrightarrow> \<not> locked (lock_word M (mem w) b) \<and>
        unat (NODE_TS (lock_word M (mem w) b)) < gasnet_nodes G \<and> unat (VERSION_TS (lock_word M (mem w) b)) \<le> c)"

definition fresh_entry :: "memmgr \<Rightarrow> memory \<Rightarrow> u64 \<Rightarrow> entry" where
  "fresh_entry M m b = \<lparr>ent_ts = lock_word M m b, ent_data = content m b\<rparr>"

lemma fetch_cell_settled:
  assumes Q: "quiet_api G" and V: "\<not> VARIANT3 G" and v: "wf_mgr M" "in_objects M addr" and S: "settled G M c w" "c < 2 ^ 62"
    and tx': "tx' = add (fresh_entry M (mem w) (block_lb addr)) tx" "length (VC tx') = gasnet_nodes G"
      "\<forall>p \<in> set (read_set tx') \<union> set (write_set tx'). is_block M (fst p) \<and> ent_ts (snd p) = lock_word M (mem w) (fst p)"
  shows "\<exists>vc w'. fetch_cell G M k addr add (tx, w) =
      Some (Ok (slice (block_offset addr) k (content (mem w) (block_lb addr))), tx'\<lparr>VC := vc\<rparr>, w') \<and>
    length vc = gasnet_nodes G \<and> mem w' = mem w \<and> settled G M c w' \<and>
    LOCAL_CLOCK w' = max (VERSION_TS (lock_word M (mem w) (block_lb addr))) (LOCAL_CLOCK w)"
proof -
  let ?b = "block_lb addr"
  let ?lw = "lock_word M (mem w) ?b"
  note b = valid_block(1) [OF v]
  have lw: "\<not> locked ?lw" "unat (NODE_TS ?lw) < length (VC tx')" "unat (VERSION_TS ?lw) \<le> c"
    and w: "cl_pow (globalCache w) = 6" "unat (LOCAL_CLOCK w) \<le> c" "cache_below G M (globalCache w) (mem w)"
    using S(1) b tx'(2) by (simp_all add: settled_def)
  obtain l where l: "getObjectLockAddr M addr = Some l" using valid_block(3) [OF v] by blast
  obtain t where r: "readCell G k True addr l w =
    Some ((slice (block_offset addr) k (content (mem w) ?b), ?lw, Some (fresh_entry M (mem w) ?b)), w\<lparr>tick := t\<rparr>)"
    using readCell_block [OF Q v l w(1) lw(1)] by (auto simp: fresh_entry_def)
  define w1 where "w1 = (if CACHE G then cache_add G ?b ?lw (w\<lparr>tick := t\<rparr>) else w\<lparr>tick := t\<rparr>)"
  have w1: "mem w1 = mem w" "LOCAL_CLOCK w1 = LOCAL_CLOCK w" "cl_pow (globalCache w1) = 6"
    "cache_below G M (globalCache w1) (mem w)"
    using w cache_below_add [OF w(3), of ?b ?lw] by (simp_all add: w1_def cache_add_quiet [OF Q])
  have "unat (VERSION_TS ?lw) < 2 ^ 62" "unat (LOCAL_CLOCK w1) < 2 ^ 62"
    using lw(3) w(2) S(2) by (simp_all add: w1(2))
  from increaseClock_quiet [OF Q this] obtain x t' where i:
    "increaseClock G (VERSION_TS ?lw) w1 = Some (x, w1\<lparr>LOCAL_CLOCK := max (VERSION_TS ?lw) (LOCAL_CLOCK w1), tick := t'\<rparr>)" (is "_ = Some (x, ?w2)")
    by blast
  have "\<forall>p \<in> set (read_set tx') \<union> set (write_set tx'). is_block M (fst p) \<and> current M (mem ?w2) p"
    using tx'(3) S(1) by (auto simp: current_def settled_def w1(1))
  moreover have "cache_below G M (globalCache ?w2) (mem ?w2)" using w1(1,4) by simp
  ultimately obtain vc cc t'' where val: "validate G M ?lw (tx', ?w2) = Some (Ok True, tx'\<lparr>VC := vc\<rparr>, ?w2\<lparr>globalCache := cc, tick := t''\<rparr>)"
    "length vc = length (VC tx')" "cl_pow cc = cl_pow (globalCache ?w2)" "cache_below G M cc (mem ?w2)"
    using validate_current [OF Q V _ _ lw(2), of M ?w2] by blast
  let ?w3 = "?w2\<lparr>globalCache := cc, tick := t''\<rparr>"
  have "fetch_cell G M k addr add (tx, w) =
      Some (Ok (slice (block_offset addr) k (content (mem w) ?b)), tx'\<lparr>VC := vc\<rparr>, ?w3)"
    using l r lw(1) i val(1) tx'(1)
    by (cases "CACHE G") (simp_all add: fetch_cell_def bnd_def ok_or_fault_def ret_def on_world_def on_tx_def w1_def)
  moreover have "settled G M c ?w3"
    using S(1) w1 val(3,4) w(2) lw(3) by (auto simp: settled_def max_def)
  ultimately show ?thesis using val(2) tx'(2) w1(1,2)
    by (intro exI [of _ vc] exI [of _ ?w3]) simp
qed

subsection \<open>The view of a running transaction\<close>

type_synonym contents = "u64 \<Rightarrow> u8 list"

text \<open>What the transaction sees of a block: its own copy if it has written it, else the memory.\<close>

definition view :: "tx \<Rightarrow> memory \<Rightarrow> u64 \<Rightarrow> u8 list" where
  "view tx m b = (case map_of (write_set tx) b of Some e \<Rightarrow> ent_data e | None \<Rightarrow> content m b)"

definition read_ok :: "memmgr \<Rightarrow> world \<Rightarrow> u64 \<times> entry \<Rightarrow> bool" where
  "read_ok M w p \<longleftrightarrow> snd p = fresh_entry M (mem w) (fst p) \<and> VERSION_TS (ent_ts (snd p)) \<le> LOCAL_CLOCK w"

definition write_ok :: "memmgr \<Rightarrow> world \<Rightarrow> u64 \<times> entry \<Rightarrow> bool" where
  "write_ok M w p \<longleftrightarrow> ent_ts (snd p) = lock_word M (mem w) (fst p) \<and> VERSION_TS (ent_ts (snd p)) \<le> LOCAL_CLOCK w"

definition tx_rep :: "platform \<Rightarrow> memmgr \<Rightarrow> tx \<Rightarrow> world \<Rightarrow> contents \<Rightarrow> bool" where
  "tx_rep G M tx w C \<longleftrightarrow> tx_wf M tx \<and> length (VC tx) = gasnet_nodes G \<and>
     fst ` set (read_set tx) \<inter> fst ` set (write_set tx) = {} \<and>
     (\<forall>p \<in> set (read_set tx). read_ok M w p) \<and> (\<forall>p \<in> set (write_set tx). write_ok M w p) \<and>
     (\<forall>b. is_block M b \<longrightarrow> C b = view tx (mem w) b)"

lemma tx_repD:
  assumes "tx_rep G M tx w C"
  shows "blocks_of M (read_set tx)" "blocks_of M (write_set tx)" "full_entries (write_set tx)"
    "\<And>b e. map_of (read_set tx) b = Some e \<Longrightarrow> e = fresh_entry M (mem w) b \<and> map_of (write_set tx) b = None"
    "\<And>p. p \<in> set (read_set tx) \<union> set (write_set tx) \<Longrightarrow> is_block M (fst p) \<and> ent_ts (snd p) = lock_word M (mem w) (fst p)"
    "\<And>b. is_block M b \<Longrightarrow> C b = view tx (mem w) b"
    "\<And>b. is_block M b \<Longrightarrow> length (C b) = 64"
proof -
  show W: "blocks_of M (read_set tx)" "blocks_of M (write_set tx)" "full_entries (write_set tx)"
    using assms by (simp_all add: tx_rep_def tx_wf_def)
  show "e = fresh_entry M (mem w) b \<and> map_of (write_set tx) b = None" if "map_of (read_set tx) b = Some e" for b e
  proof -
    have e: "(b, e) \<in> set (read_set tx)" using that by (rule map_of_SomeD)
    have "fst ` set (read_set tx) \<inter> fst ` set (write_set tx) = {}" "\<forall>p \<in> set (read_set tx). snd p = fresh_entry M (mem w) (fst p)"
      using assms unfolding tx_rep_def read_ok_def by blast+
    with bspec [OF this(2) e] imageI [OF e, of fst] show ?thesis by (auto simp: map_of_eq_None_iff)
  qed
  show "is_block M (fst p) \<and> ent_ts (snd p) = lock_word M (mem w) (fst p)" if "p \<in> set (read_set tx) \<union> set (write_set tx)" for p
    using that assms W(1,2) by (auto simp: tx_rep_def read_ok_def write_ok_def blocks_of_def fresh_entry_def)
  show C: "C b = view tx (mem w) b" if "is_block M b" for b using assms that by (simp add: tx_rep_def)
  show "length (C b) = 64" if "is_block M b" for b
    using C [OF that] W(3) by (auto simp: view_def split: option.splits dest!: map_of_SomeD)
qed

lemma update_new: "b \<notin> fst ` set xs \<Longrightarrow> AList.update b e xs = xs @ [(b, e)]"
  by (induction xs) auto

text \<open>A new entry in one of the sets, with the clock at its version.\<close>

lemma tx_rep_add_read:
  assumes R: "tx_rep G M tx w C" and b: "is_block M b" "map_of (read_set tx) b = None" "map_of (write_set tx) b = None"
    and w': "mem w' = mem w" "LOCAL_CLOCK w' = max (VERSION_TS (lock_word M (mem w) b)) (LOCAL_CLOCK w)" "length vc = gasnet_nodes G"
  shows "tx_rep G M (tx\<lparr>read_set := AList.update b (fresh_entry M (mem w) b) (read_set tx), VC := vc\<rparr>) w' C"
proof -
  have n: "b \<notin> fst ` set (read_set tx)" "b \<notin> fst ` set (write_set tx)" using b(2,3) by (simp_all add: map_of_eq_None_iff)
  have u: "AList.update b e (read_set tx) = read_set tx @ [(b, e)]" for e using n(1) by (rule update_new)
  have le: "x \<le> LOCAL_CLOCK w \<Longrightarrow> x \<le> LOCAL_CLOCK w'" for x unfolding w'(2) by (rule order_trans [OF _ max.cobounded2])
  have v: "VERSION_TS (lock_word M (mem w) b) \<le> LOCAL_CLOCK w'" unfolding w'(2) by (rule max.cobounded1)
  show ?thesis using R b(1) n w'(1,3) le v
    by (auto simp: tx_rep_def tx_wf_def u view_def read_ok_def write_ok_def fresh_entry_def)
qed

lemma tx_rep_add_write:
  assumes R: "tx_rep G M tx w C" and b: "is_block M b" "map_of (read_set tx) b = None" "map_of (write_set tx) b = None"
    and w': "mem w' = mem w" "LOCAL_CLOCK w' = max (VERSION_TS (lock_word M (mem w) b)) (LOCAL_CLOCK w)" "length vc = gasnet_nodes G"
  shows "tx_rep G M (tx\<lparr>write_set := AList.update b (fresh_entry M (mem w) b) (write_set tx), VC := vc\<rparr>) w' C"
proof -
  have n: "b \<notin> fst ` set (read_set tx)" "b \<notin> fst ` set (write_set tx)" using b(2,3) by (simp_all add: map_of_eq_None_iff)
  have u: "AList.update b e (write_set tx) = write_set tx @ [(b, e)]" for e using n(2) by (rule update_new)
  have le: "x \<le> LOCAL_CLOCK w \<Longrightarrow> x \<le> LOCAL_CLOCK w'" for x unfolding w'(2) by (rule order_trans [OF _ max.cobounded2])
  have v: "VERSION_TS (lock_word M (mem w) b) \<le> LOCAL_CLOCK w'" unfolding w'(2) by (rule max.cobounded1)
  have C: "C d = (case map_of (write_set tx @ [(b, fresh_entry M (mem w) b)]) d of Some e \<Rightarrow> ent_data e | None \<Rightarrow> content (mem w) d)"
    if "is_block M d" for d
    using tx_repD(6) [OF R that] b(3) by (auto simp: view_def fresh_entry_def map_add_def split: option.splits)
  show ?thesis using R b(1) n w'(1,3) le v C
    by (auto simp: tx_rep_def tx_wf_def u view_def read_ok_def write_ok_def fresh_entry_def)
qed

lemma tx_rep_move:
  assumes R: "tx_rep G M tx w C" and b: "map_of (read_set tx) b = Some e"
  shows "tx_rep G M (tx\<lparr>write_set := AList.update b e (write_set tx), read_set := AList.delete b (read_set tx)\<rparr>) w C"
proof -
  have e: "e = fresh_entry M (mem w) b" "map_of (write_set tx) b = None" using tx_repD(4) [OF R b] by auto
  then have n: "b \<notin> fst ` set (write_set tx)" by (simp add: map_of_eq_None_iff)
  have m: "(b, e) \<in> set (read_set tx)" using b by (rule map_of_SomeD)
  have u: "AList.update b e (write_set tx) = write_set tx @ [(b, e)]" using n by (rule update_new)
  have d: "set (AList.delete b (read_set tx)) = {p \<in> set (read_set tx). fst p \<noteq> b}" by (auto simp: AList.delete_eq)
  have bb: "is_block M b" using tx_repD(1) [OF R] m by (force simp: blocks_of_def)
  have B: "blocks_of M (AList.delete b (read_set tx))"
    using tx_repD(1) [OF R] by (auto simp: blocks_of_def d AList.delete_eq distinct_map_filter)
  have C: "C x = (case map_of (write_set tx @ [(b, e)]) x of Some e \<Rightarrow> ent_data e | None \<Rightarrow> content (mem w) x)"
    if "is_block M x" for x
    using tx_repD(6) [OF R that] e by (auto simp: view_def fresh_entry_def map_add_def split: option.splits)
  have "\<forall>p \<in> set (read_set tx). read_ok M w p" using R by (simp add: tx_rep_def)
  from bspec [OF this m] have v: "write_ok M w (b, e)" "length (ent_data e) = 64"
    by (simp_all add: read_ok_def write_ok_def e(1) fresh_entry_def)
  have dis: "fst ` set (AList.delete b (read_set tx)) \<inter> fst ` set (write_set tx @ [(b, e)]) = {}"
    using R unfolding d tx_rep_def by auto
  show ?thesis using R B C v bb n dis unfolding tx_rep_def tx_wf_def view_def u by (simp add: d)
qed

lemma store_entry_rep:
  assumes R: "tx_rep G M tx w C" and b: "is_block M (block_lb addr)" "map_of (write_set tx) (block_lb addr) = Some e"
    and len: "block_offset addr + length bs \<le> 64"
  shows "\<exists>tx' d. store_entry addr bs (tx, w) = Some (Ok (), tx', w) \<and>
    splice (block_offset addr) bs (C (block_lb addr)) = Some d \<and> tx_rep G M tx' w (C(block_lb addr := d))"
proof -
  let ?b = "block_lb addr"
  have data: "C ?b = ent_data e" using tx_repD(6) [OF R b(1)] b(2) by (simp add: view_def)
  have l: "length (ent_data e) = 64" using tx_repD(7) [OF R b(1)] data by simp
  then obtain d where d: "splice (block_offset addr) bs (ent_data e) = Some d" "length d = 64"
    using len by (auto simp: splice_def)
  let ?ws = "AList.update ?b (e\<lparr>ent_data := d\<rparr>) (write_set tx)"
  have m: "(?b, e) \<in> set (write_set tx)" using b(2) by (rule map_of_SomeD)
  have dist: "distinct (map fst ?ws)" using tx_repD(2) [OF R] by (simp add: blocks_of_def distinct_update)
  have keys: "fst ` set ?ws = fst ` set (write_set tx)" using imageI [OF m, of fst] by (auto simp: fst_set_update)
  have ent: "p = (?b, e\<lparr>ent_data := d\<rparr>) \<or> p \<in> set (write_set tx)" if "p \<in> set ?ws" for p
  proof -
    have "map_of ?ws (fst p) = Some (snd p)" using that by (intro map_of_is_SomeI [OF dist]) simp
    then show ?thesis by (cases "fst p = ?b") (auto simp: map_of_update prod_eq_iff dest!: map_of_SomeD)
  qed
  have B: "blocks_of M ?ws" using tx_repD(2) [OF R] dist unfolding blocks_of_def keys by simp
  have F: "full_entries ?ws" using ent tx_repD(3) [OF R] d(2) by fastforce
  have ok: "\<forall>p \<in> set (write_set tx). write_ok M w p" using R by (simp add: tx_rep_def)
  have T: "\<forall>p \<in> set ?ws. write_ok M w p"
  proof
    fix p assume "p \<in> set ?ws"
    then consider "p = (?b, e\<lparr>ent_data := d\<rparr>)" | "p \<in> set (write_set tx)" using ent by blast
    then show "write_ok M w p"
    proof cases
      case 1
      have "write_ok M w (?b, e) \<longleftrightarrow> write_ok M w (?b, e\<lparr>ent_data := d\<rparr>)" by (simp add: write_ok_def)
      with bspec [OF ok m] 1 show ?thesis by simp
    next
      case 2
      then show ?thesis using ok by blast
    qed
  qed
  have C: "(C(?b := d)) x = (case map_of ?ws x of Some e \<Rightarrow> ent_data e | None \<Rightarrow> content (mem w) x)" if "is_block M x" for x
    using tx_repD(6) [OF R that] by (auto simp: view_def map_of_update)
  have "tx_rep G M (tx\<lparr>write_set := ?ws\<rparr>) w (C(?b := d))"
    using R B F T C keys unfolding tx_rep_def tx_wf_def view_def by simp
  moreover have "store_entry addr bs (tx, w) = Some (Ok (), tx\<lparr>write_set := ?ws\<rparr>, w)"
    using b(2) d(1) by (simp add: store_entry_def bnd_def get_tx_def ok_or_fault_def ret_def on_tx_def)
  ultimately show ?thesis using d(1) data by (intro exI [of _ "tx\<lparr>write_set := ?ws\<rparr>"] exI [of _ d]) simp
qed

subsection \<open>Reading and writing\<close>

text \<open>An access of \<open>k\<close> bytes inside one block of the objects.\<close>

definition access_ok :: "memmgr \<Rightarrow> u64 \<Rightarrow> nat \<Rightarrow> bool" where
  "access_ok M addr k \<longleftrightarrow> wf_mgr M \<and> in_objects M addr \<and> block_offset addr + k \<le> 64"

lemma access_not_null: "access_ok M addr k \<Longrightarrow> addr \<noteq> 0"
proof
  assume a: "access_ok M addr k" "addr = 0"
  then have z: "NODE_FROM_ADDRESS addr = 0" "ADDR_FROM_ADDRESS addr = 0" by (simp_all add: NODE_FROM_ADDRESS_def ADDR_FROM_ADDRESS_def)
  from a have M: "wf_mgr M" "in_objects M addr" by (simp_all add: access_ok_def)
  from in_objectsD(3) [OF M(2)] wf_mgrD(2) [OF M(1) in_objectsD(2) [OF M(2)]] z show False by simp
qed

lemma tx_read_rep:
  assumes Q: "quiet_api G" and V: "\<not> VARIANT3 G" and S: "settled G M c w" "c < 2 ^ 62"
    and R: "tx_rep G M tx w C" and A: "access_ok M addr k"
  shows "\<exists>tx' w'. tx_read G M k addr (tx, w) = Some (Ok (take k (drop (block_offset addr) (C (block_lb addr)))), tx', w') \<and>
    mem w' = mem w \<and> settled G M c w' \<and> tx_rep G M tx' w' C"
proof -
  let ?b = "block_lb addr"
  have v: "wf_mgr M" "in_objects M addr" "block_offset addr + k \<le> 64" using A by (simp_all add: access_ok_def)
  note b = valid_block(1) [OF v(1,2)]
  note C = tx_repD(6) [OF R b] tx_repD(7) [OF R b]
  have sl: "slice (block_offset addr) k xs = Some (take k (drop (block_offset addr) xs))" if "length xs = 64" for xs :: "u8 list"
    using that v(3) by (simp add: slice_def)
  consider (written) e where "map_of (write_set tx) ?b = Some e"
    | (read) e where "map_of (write_set tx) ?b = None" "map_of (read_set tx) ?b = Some e"
    | (new) "map_of (write_set tx) ?b = None" "map_of (read_set tx) ?b = None" by fastforce
  then show ?thesis
  proof cases
    case written
    then have "ent_data e = C ?b" using C(1) by (simp add: view_def)
    with written C(2) access_not_null [OF A] S(1) R sl [of "C ?b"] show ?thesis
      by (intro exI [of _ tx] exI [of _ w]) (simp add: tx_read_def bnd_def get_tx_def ok_or_fault_def ret_def)
  next
    case read
    then have "ent_data e = C ?b" using C(1) tx_repD(4) [OF R read(2)] by (simp add: view_def fresh_entry_def)
    with read C(2) access_not_null [OF A] S(1) R sl [of "C ?b"] show ?thesis
      by (intro exI [of _ tx] exI [of _ w]) (simp add: tx_read_def bnd_def get_tx_def ok_or_fault_def ret_def)
  next
    case new
    let ?add = "\<lambda>e tx. tx\<lparr>read_set := AList.update ?b e (read_set tx)\<rparr>"
    let ?tx = "?add (fresh_entry M (mem w) ?b) tx"
    have vc: "length (VC ?tx) = gasnet_nodes G" using R by (simp add: tx_rep_def)
    have nb: "?b \<notin> fst ` set (read_set tx)" using new(2) by (simp add: map_of_eq_None_iff)
    have es: "\<forall>p \<in> set (read_set ?tx) \<union> set (write_set ?tx). is_block M (fst p) \<and> ent_ts (snd p) = lock_word M (mem w) (fst p)"
      using tx_repD(5) [OF R] b by (auto simp: update_new [OF nb] fresh_entry_def)
    from fetch_cell_settled [where add = ?add and tx = tx and k = k, OF Q V v(1,2) S refl vc es] obtain nvc w' where f:
      "fetch_cell G M k addr ?add (tx, w) = Some (Ok (slice (block_offset addr) k (content (mem w) ?b)), ?tx\<lparr>VC := nvc\<rparr>, w')"
      "length nvc = gasnet_nodes G" "mem w' = mem w" "settled G M c w'"
      "LOCAL_CLOCK w' = max (VERSION_TS (lock_word M (mem w) ?b)) (LOCAL_CLOCK w)" by blast
    have "C ?b = content (mem w) ?b" using C(1) new by (simp add: view_def)
    with f(1) sl [of "content (mem w) ?b"] new access_not_null [OF A]
    have "tx_read G M k addr (tx, w) = Some (Ok (take k (drop (block_offset addr) (C ?b))), ?tx\<lparr>VC := nvc\<rparr>, w')"
      by (simp add: tx_read_def bnd_def get_tx_def ok_or_fault_def ret_def)
    moreover have "tx_rep G M (?tx\<lparr>VC := nvc\<rparr>) w' C"
      using tx_rep_add_read [OF R b new(2,1) f(3,5,2)] by simp
    ultimately show ?thesis using f(3,4) by blast
  qed
qed

lemma tx_write_rep:
  assumes Q: "quiet_api G" and V: "\<not> VARIANT3 G" and S: "settled G M c w" "c < 2 ^ 62"
    and R: "tx_rep G M tx w C" and A: "access_ok M addr (length bs)"
  shows "\<exists>tx' w' d. tx_write G M addr bs (tx, w) = Some (Ok (), tx', w') \<and> splice (block_offset addr) bs (C (block_lb addr)) = Some d \<and>
    mem w' = mem w \<and> settled G M c w' \<and> tx_rep G M tx' w' (C(block_lb addr := d))"
proof -
  let ?b = "block_lb addr"
  have v: "wf_mgr M" "in_objects M addr" "block_offset addr + length bs \<le> 64" using A by (simp_all add: access_ok_def)
  note b = valid_block(1) [OF v(1,2)]
  have "\<exists>tx' w' e. tx_write G M addr bs (tx, w) = store_entry addr bs (tx', w') \<and> map_of (write_set tx') ?b = Some e \<and>
      mem w' = mem w \<and> settled G M c w' \<and> tx_rep G M tx' w' C"
  proof -
    consider (written) e where "map_of (write_set tx) ?b = Some e"
      | (read) e where "map_of (write_set tx) ?b = None" "map_of (read_set tx) ?b = Some e"
      | (new) "map_of (write_set tx) ?b = None" "map_of (read_set tx) ?b = None" by fastforce
    then show ?thesis
    proof cases
      case written
      with access_not_null [OF A] S(1) R show ?thesis
        by (intro exI [of _ tx] exI [of _ w] exI [of _ e]) (simp add: tx_write_def bnd_def get_tx_def ret_def)
    next
      case read
      let ?tx = "tx\<lparr>write_set := AList.update ?b e (write_set tx), read_set := AList.delete ?b (read_set tx)\<rparr>"
      have "tx_write G M addr bs (tx, w) = store_entry addr bs (?tx, w)"
        using read access_not_null [OF A] by (simp add: tx_write_def bnd_def get_tx_def on_tx_def)
      moreover have "map_of (write_set ?tx) ?b = Some e" by simp
      ultimately show ?thesis using S(1) tx_rep_move [OF R read(2)] by blast
    next
      case new
      let ?add = "\<lambda>e tx. tx\<lparr>write_set := AList.update ?b e (write_set tx)\<rparr>"
      let ?tx = "?add (fresh_entry M (mem w) ?b) tx"
      have vc: "length (VC ?tx) = gasnet_nodes G" using R by (simp add: tx_rep_def)
      have nb: "?b \<notin> fst ` set (write_set tx)" using new(1) by (simp add: map_of_eq_None_iff)
      have es: "\<forall>p \<in> set (read_set ?tx) \<union> set (write_set ?tx). is_block M (fst p) \<and> ent_ts (snd p) = lock_word M (mem w) (fst p)"
        using tx_repD(5) [OF R] b by (auto simp: update_new [OF nb] fresh_entry_def)
      from fetch_cell_settled [where add = ?add and tx = tx and k = "length bs", OF Q V v(1,2) S refl vc es] obtain nvc w' where f:
        "fetch_cell G M (length bs) addr ?add (tx, w) =
          Some (Ok (slice (block_offset addr) (length bs) (content (mem w) ?b)), ?tx\<lparr>VC := nvc\<rparr>, w')"
        "length nvc = gasnet_nodes G" "mem w' = mem w" "settled G M c w'"
        "LOCAL_CLOCK w' = max (VERSION_TS (lock_word M (mem w) ?b)) (LOCAL_CLOCK w)" by blast
      have "tx_write G M addr bs (tx, w) = store_entry addr bs (?tx\<lparr>VC := nvc\<rparr>, w')"
        using f(1) new access_not_null [OF A] by (simp add: tx_write_def bnd_def get_tx_def ret_def)
      moreover have "map_of (write_set (?tx\<lparr>VC := nvc\<rparr>)) ?b = Some (fresh_entry M (mem w) ?b)" by simp
      moreover have "tx_rep G M (?tx\<lparr>VC := nvc\<rparr>) w' C"
        using tx_rep_add_write [OF R b new(2,1) f(3,5,2)] by simp
      ultimately show ?thesis using f(3,4) by blast
    qed
  qed
  then obtain tx1 w1 e where W: "tx_write G M addr bs (tx, w) = store_entry addr bs (tx1, w1)" "map_of (write_set tx1) ?b = Some e"
    "mem w1 = mem w" "settled G M c w1" "tx_rep G M tx1 w1 C" by blast
  from store_entry_rep [OF W(5) b W(2) v(3)] W(1,3,4) show ?thesis by (elim exE conjE) (intro exI conjI, simp_all)
qed

subsection \<open>Whole transactions\<close>

text \<open>The body of a transaction: what it reads decides what it does next.\<close>

datatype 'a prog = Return 'a | Read nat u64 "u8 list \<Rightarrow> 'a prog" | Write u64 "u8 list" "'a prog"

primrec exec :: "platform \<Rightarrow> memmgr \<Rightarrow> 'a prog \<Rightarrow> 'a comp" where
  "exec G M (Return a) = ret a"
| "exec G M (Read k addr f) = bnd (tx_read G M k addr) (\<lambda>v. exec G M (f v))"
| "exec G M (Write addr bs p) = bnd (tx_write G M addr bs) (\<lambda>_. exec G M p)"

definition transaction :: "platform \<Rightarrow> memmgr \<Rightarrow> 'a prog \<Rightarrow> 'a comp" where
  "transaction G M p = bnd tx_begin (\<lambda>_. bnd (exec G M p) (\<lambda>a. bnd (tx_commit G M) (\<lambda>_. ret a)))"

text \<open>The meaning of a body on the contents of the blocks, and that it stays inside them.\<close>

definition fetch_bytes :: "contents \<Rightarrow> nat \<Rightarrow> u64 \<Rightarrow> u8 list" where
  "fetch_bytes C k addr = take k (drop (block_offset addr) (C (block_lb addr)))"

definition store_at :: "contents \<Rightarrow> u64 \<Rightarrow> u8 list \<Rightarrow> contents" where
  "store_at C addr bs = C(block_lb addr := take (block_offset addr) (C (block_lb addr)) @ bs @
     drop (block_offset addr + length bs) (C (block_lb addr)))"

primrec seq :: "'a prog \<Rightarrow> contents \<Rightarrow> 'a \<times> contents" where
  "seq (Return a) C = (a, C)"
| "seq (Read k addr f) C = seq (f (fetch_bytes C k addr)) C"
| "seq (Write addr bs p) C = seq p (store_at C addr bs)"

primrec prog_ok :: "memmgr \<Rightarrow> 'a prog \<Rightarrow> contents \<Rightarrow> bool" where
  "prog_ok M (Return a) C = True"
| "prog_ok M (Read k addr f) C = (access_ok M addr k \<and> prog_ok M (f (fetch_bytes C k addr)) C)"
| "prog_ok M (Write addr bs p) C = (access_ok M addr (length bs) \<and> prog_ok M p (store_at C addr bs))"

lemma exec_rep:
  assumes Q: "quiet_api G" and V: "\<not> VARIANT3 G" and c: "c < 2 ^ 62"
  shows "settled G M c w \<Longrightarrow> tx_rep G M tx w C \<Longrightarrow> prog_ok M p C \<Longrightarrow>
    \<exists>tx' w'. exec G M p (tx, w) = Some (Ok (fst (seq p C)), tx', w') \<and> mem w' = mem w \<and> settled G M c w' \<and>
      tx_rep G M tx' w' (snd (seq p C))"
proof (induction p arbitrary: tx w C)
  case (Return a)
  then show ?case by (intro exI [of _ tx] exI [of _ w]) (simp add: ret_def)
next
  case (Read k addr f)
  from Read.prems(3) have A: "access_ok M addr k" "prog_ok M (f (fetch_bytes C k addr)) C" by simp_all
  from tx_read_rep [OF Q V Read.prems(1) c Read.prems(2) A(1)] obtain tx1 w1 where r:
    "tx_read G M k addr (tx, w) = Some (Ok (fetch_bytes C k addr), tx1, w1)" "mem w1 = mem w" "settled G M c w1" "tx_rep G M tx1 w1 C"
    unfolding fetch_bytes_def by blast
  have "exec G M (Read k addr f) (tx, w) = exec G M (f (fetch_bytes C k addr)) (tx1, w1)"
    using r(1) by (simp add: bnd_def)
  with Read.IH [OF rangeI r(3,4) A(2)] r(2) show ?case by simp
next
  case (Write addr bs p)
  from Write.prems(3) have A: "access_ok M addr (length bs)" "prog_ok M p (store_at C addr bs)" by simp_all
  from tx_write_rep [OF Q V Write.prems(1) c Write.prems(2) A(1)] obtain tx1 w1 d where r:
    "tx_write G M addr bs (tx, w) = Some (Ok (), tx1, w1)" "splice (block_offset addr) bs (C (block_lb addr)) = Some d"
    "mem w1 = mem w" "settled G M c w1" "tx_rep G M tx1 w1 (C(block_lb addr := d))" by blast
  have d: "C(block_lb addr := d) = store_at C addr bs"
    using r(2) by (simp add: store_at_def splice_def split: if_splits)
  have "exec G M (Write addr bs p) (tx, w) = exec G M p (tx1, w1)" using r(1) by (simp add: bnd_def)
  with Write.IH [OF r(4) r(5) [unfolded d] A(2)] r(3) show ?case by simp
qed

text \<open>A descriptor between two transactions.\<close>

definition idle_tx :: "platform \<Rightarrow> tx \<Rightarrow> bool" where
  "idle_tx G tx \<longleftrightarrow> read_set tx = [] \<and> write_set tx = [] \<and> length (VC tx) = gasnet_nodes G \<and>
     0 < maxRequestedLocksPerNode tx \<and> maxRequestedLocksPerNode tx < 2 ^ 32"

lemma commit_rep:
  assumes Q: "quiet_api G" and V: "\<not> VARIANT3 G" and S: "settled G M c w" and R: "tx_rep G M tx w C"
    and c: "c + 1 < 2 ^ 48" and n: "gasnet_mynode G < gasnet_nodes G" "gasnet_nodes G \<le> 2 ^ 15"
  shows "\<exists>tx' w'. tx_commit G M (tx, w) = Some (Ok True, tx', w') \<and> idle_tx G tx' \<and> settled G M (c + 1) w' \<and>
    (\<forall>b. is_block M b \<longrightarrow> content (mem w') b = C b)"
proof -
  have W: "tx_wf M tx" and dis: "fst ` set (read_set tx) \<inter> fst ` set (write_set tx) = {}"
    and ok: "\<forall>p \<in> set (read_set tx). read_ok M w p" "\<forall>p \<in> set (write_set tx). write_ok M w p"
    and VC: "length (VC tx) = gasnet_nodes G" using R by (simp_all add: tx_rep_def)
  have w: "unat (LOCAL_CLOCK w) \<le> c" "cache_below G M (globalCache w) (mem w)" using S by (simp_all add: settled_def)
  have b: "unat (LOCAL_CLOCK w) + 1 < 2 ^ 48" "gasnet_mynode G < 2 ^ 15" using w(1) c n by linarith+
  note nv = next_version_fields [OF b]
  have cur: "tx_current M (mem w) tx"
    using tx_repD(5) [OF R] S by (auto simp: tx_current_def current_def settled_def)
  have newer: "\<forall>p \<in> set (write_set tx). \<not> isTimestampGreater (ent_ts (snd p)) (next_version G w)"
  proof
    fix p assume "p \<in> set (write_set tx)"
    with ok(2) have "VERSION_TS (ent_ts (snd p)) \<le> LOCAL_CLOCK w" unfolding write_ok_def by blast
    with nv(3) show "\<not> isTimestampGreater (ent_ts (snd p)) (next_version G w)"
      by (simp add: isTimestampGreater_def word_le_nat_alt word_less_nat_alt)
  qed
  have "\<not> aborts G M tx w" unfolding aborts_def using cur dis w(2) by blast
  then have "commits G M tx w" using tx_commit_quiet [OF Q V W] by blast
  then obtain k cc t m' where C: "tx_commit G M (tx, w) = Some (Ok True, tx\<lparr>rlNodes := k, write_set := [], read_set := [], status := TX_COMMITTED\<rparr>,
       \<lparr>mem = locks_all M (next_version G w) (write_set tx) (contents_set (write_set tx) m'),
        LOCAL_CLOCK = LOCAL_CLOCK w + 1, globalCache = cc, tick = t\<rparr>)" (is "_ = Some (_, ?tx, ?w)")
    and L: "refused M (mem w) (pairs (write_set tx)) = []" "locks_set M (lock_map M (mem w) (pairs (write_set tx))) (mem w) m'"
    and cl: "cl_pow cc = cl_pow (globalCache w)"
    and below: "cache_below G M cc (locks_all M (next_version G w) (write_set tx) (contents_set (write_set tx) m'))"
    unfolding commits_def using cur newer w(2) by blast
  note mem = committed_memory [OF W L _ refl, of _ "next_version G w"]
  have clock: "unat (LOCAL_CLOCK w + 1) \<le> c + 1"
    using w(1) c by (subst unat_plus_simple) auto
  have "content (mem ?w) b = C b \<and> \<not> locked (lock_word M (mem ?w) b) \<and>
      unat (NODE_TS (lock_word M (mem ?w) b)) < gasnet_nodes G \<and> unat (VERSION_TS (lock_word M (mem ?w) b)) \<le> c + 1" if b: "is_block M b" for b
  proof (cases "map_of (write_set tx) b")
    case None
    with mem [OF b] tx_repD(6) [OF R b] S b show ?thesis by (auto simp: view_def settled_def intro: le_trans)
  next
    case (Some e)
    with mem [OF b] tx_repD(6) [OF R b] nv n(1) w(1) show ?thesis by (simp add: view_def)
  qed
  then have "settled G M (c + 1) ?w" "\<forall>b. is_block M b \<longrightarrow> content (mem ?w) b = C b"
    using S cl below clock by (simp_all add: settled_def)
  moreover have "idle_tx G ?tx" using W VC by (simp add: idle_tx_def tx_wf_def)
  ultimately show ?thesis using C by blast
qed

text \<open>
  A transaction that runs alone is its sequential meaning: from a state in which no block is
  locked it never aborts and never leaves the tables, it returns what the body returns on the
  block contents, and afterwards every block holds what the body leaves there; the state is again
  one in which no block is locked.
\<close>

lemma serial_transaction:
  assumes "quiet_api G" "\<not> VARIANT3 G" "settled G M c w" "idle_tx G tx" "prog_ok M p (content (mem w))"
    and "c + 1 < 2 ^ 48" "gasnet_mynode G < gasnet_nodes G" "gasnet_nodes G \<le> 2 ^ 15"
  shows "\<exists>tx' w'. transaction G M p (tx, w) = Some (Ok (fst (seq p (content (mem w)))), tx', w') \<and> idle_tx G tx' \<and>
    settled G M (c + 1) w' \<and> (\<forall>b. is_block M b \<longrightarrow> content (mem w') b = snd (seq p (content (mem w))) b)"
proof -
  let ?tx = "tx\<lparr>status := TX_ACTIVE, rlChangedObjects := [], VC := replicate (length (VC tx)) 0\<rparr>"
  have "tx_rep G M ?tx w (content (mem w))"
    using assms(4) by (simp add: tx_rep_def idle_tx_def tx_wf_def view_def)
  moreover have "c < 2 ^ 62" using assms(6) by simp
  ultimately obtain tx1 w1 where e: "exec G M p (?tx, w) = Some (Ok (fst (seq p (content (mem w)))), tx1, w1)"
    "settled G M c w1" "tx_rep G M tx1 w1 (snd (seq p (content (mem w))))"
    using exec_rep [OF assms(1,2) _ assms(3) _ assms(5)] by blast
  from commit_rep [OF assms(1,2) e(2,3) assms(6-8)] obtain tx2 w2 where
    "tx_commit G M (tx1, w1) = Some (Ok True, tx2, w2)" "idle_tx G tx2" "settled G M (c + 1) w2"
    "\<forall>b. is_block M b \<longrightarrow> content (mem w2) b = snd (seq p (content (mem w))) b" by blast
  with e(1) show ?thesis
    by (simp add: transaction_def tx_begin_def bnd_def on_tx_def ret_def)
qed

text \<open>Moving 4 bytes from a block of the own node to a block of node 1.\<close>

definition example_prog :: "u8 list prog" where
  "example_prog = Write 0x210044 [1, 2, 3, 4] (Read 4 0x210042 (\<lambda>v. Write 0x10000002100c8 v (Return v)))"

lemma example_settled: "settled (example_platform True False) example_mgr 3 (example_world 3)"
  using example_below by (simp add: settled_def example_words LOCKBIT_TS_def NODE_TS_def VERSION_TS_def) (simp add: example_world_def)

end
