(* ===== verification/Stats.thy ===== *)
theory Stats
  imports Transaction
begin

text \<open>
  Statistics of aborts (\<^verbatim>\<open>dstm_transaction_stats.h\<close>, \<^verbatim>\<open>dstm_node_stats.h\<close>,
  \<^verbatim>\<open>src/src/dstm_stats.cpp\<close> and the counting in \<^verbatim>\<open>DSTMTransaction::abort\<close>): every abort is
  counted in exactly one class, and the sums over transactions and nodes count the aborts of all.
\<close>

subsection \<open>Sums\<close>

definition stats_add :: "transaction_stats \<Rightarrow> transaction_stats \<Rightarrow> transaction_stats" where
  "stats_add s1 s2 =
     \<lparr>total_aborts = total_aborts s1 + total_aborts s2,
      rsval_aborts = rsval_aborts s1 + rsval_aborts s2,
      grablocks_aborts = grablocks_aborts s1 + grablocks_aborts s2,
      wr_confl_aborts = wr_confl_aborts s1 + wr_confl_aborts s2,
      ww_confl_aborts = ww_confl_aborts s1 + ww_confl_aborts s2,
      invmem_r_aborts = invmem_r_aborts s1 + invmem_r_aborts s2,
      invmem_w_aborts = invmem_w_aborts s1 + invmem_w_aborts s2,
      unknwn_aborts = unknwn_aborts s1 + unknwn_aborts s2,
      explicit_aborts = explicit_aborts s1 + explicit_aborts s2\<rparr>"

record node_stats =
  total_txs :: u32
  total_txs_stats :: transaction_stats

definition no_node_stats :: node_stats where
  "no_node_stats = \<lparr>total_txs = 0, total_txs_stats = no_stats\<rparr>"

subsection \<open>The table of the main node\<close>

text \<open>\<open>resize\<close> keeps what is there and fills up with zeros.\<close>

definition init_nodes_stats :: "nat \<Rightarrow> node_stats list \<Rightarrow> node_stats list" where
  "init_nodes_stats n t = take n t @ replicate (n - length t) no_node_stats"

definition add_node_to_stat :: "nat \<Rightarrow> node_stats \<Rightarrow> node_stats list \<Rightarrow> node_stats list option" where
  "add_node_to_stat n ns t = (if n < length t then Some (t[n := ns]) else None)"

definition add_summary :: "node_stats \<Rightarrow> node_stats \<Rightarrow> node_stats" where
  "add_summary summary ns =
     \<lparr>total_txs = total_txs summary + total_txs ns,
      total_txs_stats = stats_add (total_txs_stats summary) (total_txs_stats ns)\<rparr>"

text \<open>The lines printed for one node: a label and a number each.\<close>

definition stats_rows :: "node_stats \<Rightarrow> (string \<times> u32) list" where
  "stats_rows ns =
     [(''#TOTAL TXS'', total_txs ns),
      (''#TOTAL ABORTS'', total_aborts (total_txs_stats ns)),
      (''#read-set val aborts'', rsval_aborts (total_txs_stats ns)),
      (''#grab-locks aborts'', grablocks_aborts (total_txs_stats ns)),
      (''#wr-conf aborts'', wr_confl_aborts (total_txs_stats ns)),
      (''#ww-conf aborts'', ww_confl_aborts (total_txs_stats ns)),
      (''#inv-mem-r aborts'', invmem_r_aborts (total_txs_stats ns)),
      (''#inv-mem-w aborts'', invmem_w_aborts (total_txs_stats ns)),
      (''#unknown aborts'', unknwn_aborts (total_txs_stats ns)),
      (''#explicit aborts'', explicit_aborts (total_txs_stats ns))]"

text \<open>The loop prints node after node and adds up; the sum is printed last.\<close>

fun print_loop :: "node_stats \<Rightarrow> node_stats list \<Rightarrow> (string \<times> u32) list list" where
  "print_loop summary [] = [stats_rows summary]"
| "print_loop summary (ns # t) = stats_rows ns # print_loop (add_summary summary ns) t"

definition print_nodes_stats :: "node_stats list \<Rightarrow> (string \<times> u32) list list" where
  "print_nodes_stats t = print_loop no_node_stats t"

subsection \<open>Each abort is counted once\<close>

definition stats_ok :: "transaction_stats \<Rightarrow> bool" where
  "stats_ok s \<longleftrightarrow> total_aborts s =
     rsval_aborts s + grablocks_aborts s + wr_confl_aborts s + ww_confl_aborts s +
     invmem_r_aborts s + invmem_w_aborts s + unknwn_aborts s + explicit_aborts s"

lemma no_stats_ok [simp]: "stats_ok no_stats"
  by (simp add: stats_ok_def no_stats_def)

lemma count_abort_ok: "stats_ok s \<Longrightarrow> stats_ok (count_abort r s)"
  by (simp add: stats_ok_def count_abort_def Let_def algebra_simps)

lemma stats_add_ok: "stats_ok s1 \<Longrightarrow> stats_ok s2 \<Longrightarrow> stats_ok (stats_add s1 s2)"
  by (simp add: stats_ok_def stats_add_def algebra_simps)

lemma stats_add_simps [simp]: "stats_add no_stats s = s" "stats_add s no_stats = s"
  by (simp_all add: stats_add_def no_stats_def)

lemma stats_add_assoc: "stats_add (stats_add a b) c = stats_add a (stats_add b c)"
  by (simp add: stats_add_def algebra_simps)

subsection \<open>What the counters count\<close>

text \<open>The specification: a reason has one kind, and the counters are the numbers of reasons of each kind.\<close>

datatype abort_kind = Rsval | Grablocks | Wr_confl | Ww_confl | Invmem_r | Invmem_w | Explicit | Unknown

definition kinds :: "(u64 \<times> abort_kind) list" where
  "kinds = [(ABORT_READSET_VAL, Rsval), (ABORT_READSET_VAL OR ABORT_WR_CONFLICT, Rsval),
     (ABORT_READSET_VAL OR ABORT_WW_CONFLICT, Rsval), (ABORT_WR_CONFLICT, Wr_confl), (ABORT_WW_CONFLICT, Ww_confl),
     (ABORT_INVALID_MEMORY_R, Invmem_r), (ABORT_INVALID_MEMORY_W, Invmem_w), (ABORT_GRABBING_LOCKS, Grablocks),
     (ABORT_EXPLICIT, Explicit)]"

definition kind_of :: "u64 \<Rightarrow> abort_kind" where
  "kind_of reason = (case map_of kinds reason of None \<Rightarrow> Unknown | Some k \<Rightarrow> k)"

definition how_many :: "abort_kind \<Rightarrow> u64 list \<Rightarrow> u32" where
  "how_many k reasons = of_nat (length (filter (\<lambda>r. kind_of r = k) reasons))"

definition tally :: "u64 list \<Rightarrow> transaction_stats" where
  "tally reasons =
     \<lparr>total_aborts = of_nat (length reasons),
      rsval_aborts = how_many Rsval reasons,
      grablocks_aborts = how_many Grablocks reasons,
      wr_confl_aborts = how_many Wr_confl reasons,
      ww_confl_aborts = how_many Ww_confl reasons,
      invmem_r_aborts = how_many Invmem_r reasons,
      invmem_w_aborts = how_many Invmem_w reasons,
      unknwn_aborts = how_many Unknown reasons,
      explicit_aborts = how_many Explicit reasons\<rparr>"

lemma how_many_append: "how_many k (rs @ rs') = how_many k rs + how_many k rs'"
  by (simp add: how_many_def)

lemma tally_append: "tally (rs @ rs') = stats_add (tally rs) (tally rs')"
  by (simp add: tally_def stats_add_def how_many_append)

lemma tally_Nil [simp]: "tally [] = no_stats"
  by (simp add: tally_def no_stats_def how_many_def)

lemma count_abort_tally: "count_abort r s = stats_add s (tally [r])"
  by (simp add: count_abort_def tally_def stats_add_def how_many_def kind_of_def kinds_def Let_def)

lemma fold_count_abort: "fold count_abort reasons s = stats_add s (tally reasons)"
proof (induction reasons arbitrary: s)
  case (Cons r rs)
  then show ?case using tally_append [of "[r]" rs] by (simp add: count_abort_tally stats_add_assoc)
qed simp

lemma tally_ok: "stats_ok (tally reasons)"
proof -
  have "stats_ok s \<Longrightarrow> stats_ok (fold count_abort reasons s)" for s
    by (induction reasons arbitrary: s) (simp_all add: count_abort_ok)
  from this [OF no_stats_ok] show ?thesis by (simp add: fold_count_abort)
qed

text \<open>The counters of a node after a committed transaction, and after several, given by the reasons of their aborts.\<close>

definition count_tx :: "transaction_stats \<Rightarrow> node_stats \<Rightarrow> node_stats" where
  "count_tx st ns = \<lparr>total_txs = total_txs ns + 1, total_txs_stats = stats_add (total_txs_stats ns) st\<rparr>"

definition count_txs :: "u64 list list \<Rightarrow> node_stats" where
  "count_txs txs = fold (\<lambda>reasons. count_tx (fold count_abort reasons no_stats)) txs no_node_stats"

lemma count_txs_tally: "count_txs txs = \<lparr>total_txs = of_nat (length txs), total_txs_stats = tally (concat txs)\<rparr>"
proof -
  have "fold (\<lambda>reasons. count_tx (fold count_abort reasons no_stats)) txs ns =
      \<lparr>total_txs = total_txs ns + of_nat (length txs), total_txs_stats = stats_add (total_txs_stats ns) (tally (concat txs))\<rparr>" for ns
    by (induction txs arbitrary: ns) (simp_all add: count_tx_def fold_count_abort tally_append stats_add_assoc)
  then show ?thesis by (simp add: count_txs_def no_node_stats_def)
qed

subsection \<open>The report\<close>

lemma print_loop_eq: "print_loop a t = map stats_rows t @ [stats_rows (foldl add_summary a t)]"
  by (induction t arbitrary: a) simp_all

lemma summary_tally:
  "foldl add_summary a (map count_txs nodes) =
     \<lparr>total_txs = total_txs a + of_nat (length (concat nodes)),
      total_txs_stats = stats_add (total_txs_stats a) (tally (concat (concat nodes)))\<rparr>"
  by (induction nodes arbitrary: a) (simp_all add: add_summary_def count_txs_tally tally_append stats_add_assoc)

text \<open>
  C21. The report counts what has happened.  The counters of each node are those that its committed
  transactions have left, given by the list of the reasons of the aborts of each; a report of
  such nodes has one group of lines for each node, in their order, with the number of its
  transactions, the number of its aborts and the number of aborts of each kind, and a last
  group with the same numbers for the transactions of all nodes together (all of them modulo
  \<open>2 ^ 32\<close>); and in each group the number of aborts is the sum of the numbers of all kinds.
\<close>

theorem abort_report_consistent:
  "print_nodes_stats (map count_txs nodes) =
     map (\<lambda>txs. stats_rows \<lparr>total_txs = of_nat (length txs), total_txs_stats = tally (concat txs)\<rparr>) (nodes @ [concat nodes]) \<and>
   list_all (\<lambda>txs. stats_ok (tally (concat txs))) (nodes @ [concat nodes])"
proof -
  have "list_all (\<lambda>txs. stats_ok (tally (concat txs))) xs" for xs
    by (induction xs) (simp_all add: tally_ok)
  moreover have "foldl add_summary no_node_stats (map count_txs nodes) =
      \<lparr>total_txs = of_nat (length (concat nodes)), total_txs_stats = tally (concat (concat nodes))\<rparr>"
    unfolding summary_tally by (simp add: no_node_stats_def)
  ultimately show ?thesis
    unfolding print_nodes_stats_def print_loop_eq by (simp add: count_txs_tally)
qed

text \<open>Two nodes; the first has committed a transaction at its third attempt.\<close>

lemma abort_report_example:
  "print_nodes_stats (map count_txs [[[ABORT_READSET_VAL, ABORT_GRABBING_LOCKS]], []]) =
     map stats_rows [\<lparr>total_txs = 1, total_txs_stats = no_stats\<lparr>total_aborts := 2, rsval_aborts := 1, grablocks_aborts := 1\<rparr>\<rparr>,
       no_node_stats,
       \<lparr>total_txs = 1, total_txs_stats = no_stats\<lparr>total_aborts := 2, rsval_aborts := 1, grablocks_aborts := 1\<rparr>\<rparr>]"
  by (simp add: print_nodes_stats_def print_loop_eq count_txs_def count_tx_def count_abort_def no_node_stats_def no_stats_def
      stats_add_def add_summary_def Let_def ABORT_READSET_VAL_def ABORT_GRABBING_LOCKS_def ABORT_WR_CONFLICT_def
      ABORT_WW_CONFLICT_def ABORT_IMPLICIT_def ABORT_INVALID_MEMORY_R_def ABORT_INVALID_MEMORY_W_def ABORT_EXPLICIT_def)

text \<open>
  The classes: each reason that the code passes to \<^verbatim>\<open>abort\<close> goes to the counter of its name;
  a failed validation of the read set has precedence over a conflict, and an abort at an
  object that is locked, whose reason is the lock word itself, is counted as unknown.
\<close>

theorem abort_classes:
  "count_abort ABORT_READSET_VAL s =
     s\<lparr>total_aborts := total_aborts s + 1, rsval_aborts := rsval_aborts s + 1\<rparr> \<and>
   count_abort (ABORT_WR_CONFLICT OR ABORT_READSET_VAL) s =
     s\<lparr>total_aborts := total_aborts s + 1, rsval_aborts := rsval_aborts s + 1\<rparr> \<and>
   count_abort ABORT_WR_CONFLICT s =
     s\<lparr>total_aborts := total_aborts s + 1, wr_confl_aborts := wr_confl_aborts s + 1\<rparr> \<and>
   count_abort ABORT_WW_CONFLICT s =
     s\<lparr>total_aborts := total_aborts s + 1, ww_confl_aborts := ww_confl_aborts s + 1\<rparr> \<and>
   count_abort ABORT_INVALID_MEMORY_R s =
     s\<lparr>total_aborts := total_aborts s + 1, invmem_r_aborts := invmem_r_aborts s + 1\<rparr> \<and>
   count_abort ABORT_INVALID_MEMORY_W s =
     s\<lparr>total_aborts := total_aborts s + 1, invmem_w_aborts := invmem_w_aborts s + 1\<rparr> \<and>
   count_abort ABORT_GRABBING_LOCKS s =
     s\<lparr>total_aborts := total_aborts s + 1, grablocks_aborts := grablocks_aborts s + 1\<rparr> \<and>
   count_abort ABORT_EXPLICIT s =
     s\<lparr>total_aborts := total_aborts s + 1, explicit_aborts := explicit_aborts s + 1\<rparr> \<and>
   count_abort (ts OR LOCK_BIT) s =
     s\<lparr>total_aborts := total_aborts s + 1, unknwn_aborts := unknwn_aborts s + 1\<rparr>"
proof -
  have "bit (ts OR LOCK_BIT) 63" by (simp add: bit_simps)
  moreover have "\<not> bit c 63" if "c \<in> {ABORT_READSET_VAL, ABORT_READSET_VAL OR ABORT_WR_CONFLICT,
      ABORT_READSET_VAL OR ABORT_WW_CONFLICT, ABORT_WR_CONFLICT, ABORT_WW_CONFLICT, ABORT_INVALID_MEMORY_R,
      ABORT_INVALID_MEMORY_W, ABORT_GRABBING_LOCKS, ABORT_EXPLICIT}" for c :: u64
    using that by (auto simp: ABORT_READSET_VAL_def ABORT_WR_CONFLICT_def ABORT_WW_CONFLICT_def ABORT_IMPLICIT_def
        ABORT_INVALID_MEMORY_R_def ABORT_INVALID_MEMORY_W_def ABORT_GRABBING_LOCKS_def ABORT_EXPLICIT_def bit_simps)
  ultimately have "ts OR LOCK_BIT \<notin> {ABORT_READSET_VAL, ABORT_READSET_VAL OR ABORT_WR_CONFLICT,
      ABORT_READSET_VAL OR ABORT_WW_CONFLICT, ABORT_WR_CONFLICT, ABORT_WW_CONFLICT, ABORT_INVALID_MEMORY_R,
      ABORT_INVALID_MEMORY_W, ABORT_GRABBING_LOCKS, ABORT_EXPLICIT}" by metis
  then have "count_abort (ts OR LOCK_BIT) s =
     s\<lparr>total_aborts := total_aborts s + 1, unknwn_aborts := unknwn_aborts s + 1\<rparr>"
    by (simp add: count_abort_def Let_def)
  then show ?thesis
    by (simp add: count_abort_def Let_def ABORT_READSET_VAL_def ABORT_WR_CONFLICT_def ABORT_WW_CONFLICT_def
        ABORT_IMPLICIT_def ABORT_INVALID_MEMORY_R_def ABORT_INVALID_MEMORY_W_def ABORT_GRABBING_LOCKS_def
        ABORT_EXPLICIT_def)
qed

end
