(* ===== verification/Variant2.thy ===== *)
theory Variant2
  imports Transaction
begin

text \<open>
  The transaction of the build \<^verbatim>\<open>VARIANT2\<close> (\<^verbatim>\<open>dstm_transaction_impl.h\<close>, \<^verbatim>\<open>dstm_transaction.cpp\<close>):
  the read and write sets keep only the timestamps of blocks, and the values written are kept
  per address.  The timestamps are the entries of \<open>Transaction\<close> without data; the map of
  written values is a separate argument, an operation that writes returns the new one, and an
  abort drops it with the sets.
\<close>

text \<open>\<^verbatim>\<open>write_set_values\<close>: by address, the size of the access and the value, widened to 64 bits.\<close>

type_synonym values2 = "(u64 \<times> (nat \<times> u64)) list"

definition stamp :: "u64 \<Rightarrow> entry" where
  "stamp ts = \<lparr>ent_ts = ts, ent_data = []\<rparr>"

text \<open>The read set alone is validated.\<close>

definition validate2 :: "platform \<Rightarrow> memmgr \<Rightarrow> u64 \<Rightarrow> bool comp" where
  "validate2 G M ts s =
     (case s of (tx, w) \<Rightarrow>
        let tsn_new = VERSION_TS ts;
            node = unat (NODE_TS ts)
        in case aget (VC tx) node of
             None \<Rightarrow> Some (Fault, tx, w)
           | Some tsn_old \<Rightarrow>
               if tsn_new > tsn_old
               then (case check_set G M (isTimestampGreater ts) (read_set tx)
                        (lc_setCacheLine 4 locks_cache_new, w) of
                       (Ok True, lc, w1) \<Rightarrow> Some (Ok True, tx\<lparr>VC := (VC tx)[node := tsn_new]\<rparr>, w1)
                     | (r, lc, w1) \<Rightarrow> Some (r, tx, w1))
               else Some (Ok True, tx, w))"

text \<open>
  The part \<open>read\<close> and \<open>write\<close> share: the cell is read under its lock word without a copy of
  the block, compared with what the write set knows of the block, and the read set is
  validated; \<open>reason\<close> is the reason of the abort when the validation fails.
\<close>

definition fetch_cell2 :: "platform \<Rightarrow> memmgr \<Rightarrow> nat \<Rightarrow> u64 \<Rightarrow> u64 \<Rightarrow> (u8 list option \<times> u64) comp" where
  "fetch_cell2 G M k addr reason =
     bnd (ok_or_fault (getObjectLockAddr M addr)) (\<lambda>lock_addr.
     bnd (on_world (readCell G k False addr lock_addr)) (\<lambda>(value, timestamp, ent).
     bnd (on_world (\<lambda>w. Some ((), if CACHE G then cache_add G (block_lb addr) timestamp w else w))) (\<lambda>_.
     if locked timestamp then tx_abort timestamp
     else bnd (on_world (increaseClock G (VERSION_TS timestamp))) (\<lambda>_.
          bnd (get_tx (\<lambda>tx. map_of (write_set tx) (block_lb addr))) (\<lambda>we.
          if (case we of None \<Rightarrow> False | Some e \<Rightarrow> \<not> isTimestampsEquivalent (ent_ts e) timestamp)
          then tx_abort ABORT_WR_CONFLICT
          else bnd (validate2 G M timestamp) (\<lambda>ok.
               if \<not> ok then tx_abort reason else ret (value, timestamp)))))))"

text \<open>A value written before to the very address is returned from the map.\<close>

definition tx_read2 :: "platform \<Rightarrow> memmgr \<Rightarrow> nat \<Rightarrow> u64 \<Rightarrow> values2 \<Rightarrow> u8 list comp" where
  "tx_read2 G M k addr vals =
     (if addr = 0 then tx_abort ABORT_INVALID_MEMORY_R
      else case map_of vals addr of
             Some (sz, v) \<Rightarrow> ret (take k (bytes_of_u64 v))
           | None \<Rightarrow>
               bnd (fetch_cell2 G M k addr (ABORT_RW_CONFLICT OR ABORT_READSET_VAL)) (\<lambda>(value, timestamp).
               bnd (on_tx (\<lambda>tx. tx\<lparr>read_set := AList.update (block_lb addr) (stamp timestamp) (read_set tx)\<rparr>)) (\<lambda>_.
               ok_or_fault value)))"

definition tx_write2 :: "platform \<Rightarrow> memmgr \<Rightarrow> nat \<Rightarrow> u64 \<Rightarrow> u64 \<Rightarrow> values2 \<Rightarrow> values2 comp" where
  "tx_write2 G M k addr value vals =
     (if addr = 0 then tx_abort ABORT_INVALID_MEMORY_W
      else case map_of vals addr of
             Some (sz, v) \<Rightarrow> ret (AList.update addr (sz, value) vals)
           | None \<Rightarrow>
               bnd (get_tx (\<lambda>tx. map_of (read_set tx) (block_lb addr))) (\<lambda>re.
               bnd (case re of
                      None \<Rightarrow>
                        bnd (fetch_cell2 G M k addr (ABORT_WR_CONFLICT OR ABORT_READSET_VAL)) (\<lambda>(v, timestamp).
                        on_tx (\<lambda>tx. tx\<lparr>write_set := AList.update (block_lb addr) (stamp timestamp) (write_set tx)\<rparr>))
                    | Some e \<Rightarrow>
                        on_tx (\<lambda>tx. tx\<lparr>write_set := AList.update (block_lb addr) e (write_set tx)\<rparr>)) (\<lambda>_.
               ret (AList.update addr (k, value) vals))))"

fun commitWriteSetValues2 :: "platform \<Rightarrow> values2 \<Rightarrow> world \<Rightarrow> world" where
  "commitWriteSetValues2 G [] w = w"
| "commitWriteSetValues2 G ((addr, sz, v) # it) w =
     commitWriteSetValues2 G it
       (glue_put G (unat (NODE_FROM_ADDRESS addr)) (ADDR_FROM_ADDRESS addr) (take sz (bytes_of_u64 v)) w)"

text \<open>The validation at commit passes over the blocks of the read set that are also in the write set.\<close>

definition validateAll2 :: "platform \<Rightarrow> memmgr \<Rightarrow> bool comp" where
  "validateAll2 G M s =
     (case s of (tx, w) \<Rightarrow>
        case check_set G M (\<lambda>ts. True) (filter (\<lambda>(b, e). map_of (write_set tx) b = None) (read_set tx))
               (lc_setCacheLine 4 locks_cache_new, w) of
          (r, lc, w') \<Rightarrow> Some (r, tx, w'))"

definition tx_commit2 :: "platform \<Rightarrow> memmgr \<Rightarrow> values2 \<Rightarrow> bool comp" where
  "tx_commit2 G M vals =
     bnd (get_tx write_set) (\<lambda>ws.
     bnd (if ws \<noteq> []
          then bnd (getLocks G M) (\<lambda>ok. if \<not> ok then tx_abort ABORT_GRABBING_LOCKS else ret ())
          else ret ()) (\<lambda>_.
     bnd (validateAll2 G M) (\<lambda>valid.
     if \<not> valid
     then bnd (if ws \<noteq> [] then releaseLocks G M ws else ret ()) (\<lambda>_. tx_abort ABORT_READSET_VAL)
     else bnd (on_world (\<lambda>w. Some ((), commitWriteSetValues2 G vals w))) (\<lambda>_.
          bnd (releaseLocksWithNewClock G M) (\<lambda>_.
          bnd (on_tx (\<lambda>tx. (clearReadSet (clearWriteSet tx))\<lparr>status := TX_COMMITTED\<rparr>)) (\<lambda>_.
          ret True))))))"

subsection \<open>Reading back what was written\<close>

lemma write2_map: "tx_write2 G M k addr v vals s = Some (Ok vals', s') \<Longrightarrow>
    addr \<noteq> 0 \<and> (\<exists>sz. map_of vals' addr = Some (sz, v)) \<and> (\<forall>b. b \<noteq> addr \<longrightarrow> map_of vals' b = map_of vals b)"
  by (auto simp: tx_write2_def bnd_def ret_def tx_abort_def on_tx_def get_tx_def Let_def
      split: if_splits option.splits outcome.splits prod.splits)

text \<open>
  A read of the address and size of a write of the same transaction returns what was written
  last, without an access to shared memory, also after writes to other addresses.
\<close>

theorem read2_own_write:
  assumes "tx_write2 G M k addr v vals s = Some (Ok vals', s')"
    and "tx_write2 G M k' addr' v' vals' s' = Some (Ok vals'', s'')" "addr' \<noteq> addr"
  shows "tx_read2 G M k addr vals'' s'' = Some (Ok (take k (bytes_of_u64 v)), s'')"
  using write2_map [OF assms(1)] write2_map [OF assms(2)] assms(3) by (auto simp: tx_read2_def ret_def)

text \<open>A transaction that has written all it has read is not stopped by the locks it holds itself.\<close>

lemma validateAll2_own_locks:
  assumes "fst ` set (read_set tx) \<subseteq> fst ` set (write_set tx)"
  shows "validateAll2 G M (tx, w) = Some (Ok True, tx, w)"
proof -
  have "map_of (write_set tx) (fst p) \<noteq> None" if "p \<in> set (read_set tx)" for p
    unfolding map_of_eq_None_iff using subsetD [OF assms imageI [OF that]] by simp
  then have "filter (\<lambda>(b, e). map_of (write_set tx) b = None) (read_set tx) = []"
    unfolding filter_empty_conv by auto
  then show ?thesis by (simp add: validateAll2_def)
qed

theorem read2_own_write_witness:
  "tx_read2 (example_platform True False) \<lparr>locks_addr = [], objects_addr = []\<rparr> 4 0x210040
      [(0x210040, 8, 5), (0x210048, 8, 6)] (tx_new (example_platform True False) 7, example_world 3) =
    Some (Ok (take 4 (bytes_of_u64 5)), tx_new (example_platform True False) 7, example_world 3)"
  by (rule read2_own_write [where vals = "[(0x210040, 8, 1), (0x210048, 8, 2)]" and vals' = "[(0x210040, 8, 5), (0x210048, 8, 2)]"
        and s = "(tx_new (example_platform True False) 7, example_world 3)"
        and s' = "(tx_new (example_platform True False) 7, example_world 3)"
        and k' = 8 and addr' = "0x210048" and v' = 6])
    (simp_all add: tx_write2_def ret_def)

end
