(* ===== verification/Tx_Isolation.thy ===== *)
theory Tx_Isolation
  imports Variant2
begin

text \<open>
  Isolation: reads, writes, validation and aborts of a transaction never store to shared
  memory.  \<open>R\<close> relates memories before and after the actions of the other nodes; what holds of
  these holds of every operation up to the commit.
\<close>

definition env_keeps :: "(memory \<Rightarrow> memory \<Rightarrow> bool) \<Rightarrow> platform \<Rightarrow> bool" where
  "env_keeps R G \<longleftrightarrow> (\<forall>m. R m m) \<and> (\<forall>a b c. R a b \<longrightarrow> R b c \<longrightarrow> R a c) \<and> (\<forall>w. R (mem w) (mem (env G w)))"

text \<open>An operation on the world, and one of a transaction, whose stores are the others' alone.\<close>

definition keeps_w :: "(memory \<Rightarrow> memory \<Rightarrow> bool) \<Rightarrow> (world \<Rightarrow> ('a \<times> world) option) \<Rightarrow> bool" where
  "keeps_w R f \<longleftrightarrow> (\<forall>w a w'. f w = Some (a, w') \<longrightarrow> R (mem w) (mem w'))"

definition keeps :: "(memory \<Rightarrow> memory \<Rightarrow> bool) \<Rightarrow> 'a comp \<Rightarrow> bool" where
  "keeps R f \<longleftrightarrow> (\<forall>s r s'. f s = Some (r, s') \<longrightarrow> R (mem (snd s)) (mem (snd s')))"

named_theorems keeps_intros \<open>operations that do not store\<close>

lemma env_keeps_quiet: "quiet_api G \<Longrightarrow> env_keeps (=) G"
  by (simp add: env_keeps_def quiet_api.quiet)

lemma env_keepsD:
  assumes "env_keeps R G"
  shows "R m m" "R a b \<Longrightarrow> R b c \<Longrightarrow> R a c" "R (mem w) (mem (sync G w))"
  using assms by (auto simp: env_keeps_def sync_def)

lemma keepsD: "keeps R f \<Longrightarrow> f s = Some (r, s') \<Longrightarrow> R (mem (snd s)) (mem (snd s'))"
  unfolding keeps_def by blast

lemma keeps_bnd [keeps_intros]:
  assumes "env_keeps R G" "keeps R f" "\<And>a. keeps R (h a)"
  shows "keeps R (bnd f h)"
  unfolding keeps_def
proof (intro allI impI)
  fix s r s' assume "bnd f h s = Some (r, s')"
  then consider a s1 where "f s = Some (Ok a, s1)" "h a s1 = Some (r, s')"
    | r1 where "f s = Some (r1, s')"
    by (auto simp: bnd_def split: option.splits outcome.splits)
  then show "R (mem (snd s)) (mem (snd s'))"
  proof cases
    case 1
    from env_keepsD(2) [OF assms(1) keepsD [OF assms(2) 1(1)] keepsD [OF assms(3) 1(2)]] show ?thesis .
  next
    case 2
    from keepsD [OF assms(2) this] show ?thesis .
  qed
qed

lemma keeps_on_world [keeps_intros]: "keeps_w R f \<Longrightarrow> keeps R (on_world f)"
  by (auto simp: keeps_def keeps_w_def on_world_def split: option.splits)

lemma keeps_pure [keeps_intros]:
  assumes "env_keeps R G"
  shows "keeps R (ret a)" "keeps R fault" "keeps R (ok_or_fault v)" "keeps R (on_tx g)" "keeps R (get_tx j)" "keeps R (tx_abort reason)"
  using env_keepsD(1) [OF assms]
  by (auto simp: keeps_def ret_def fault_def ok_or_fault_def on_tx_def get_tx_def tx_abort_def Let_def split: option.splits)

lemma fetch_keeps: "env_keeps R G \<Longrightarrow> fetch G n a k w = (bs, w') \<Longrightarrow> R (mem w) (mem w')"
  using env_keepsD(3) by (auto simp: fetch_def Let_def)

lemma read_word_keeps: "env_keeps R G \<Longrightarrow> read_word G n a w = (v, w') \<Longrightarrow> R (mem w) (mem w')"
  using fetch_keeps by (auto simp: read_word_def split: prod.splits)

lemma fetch_block_keeps: "env_keeps R G \<Longrightarrow> fetch_block G n a k w = (bs, w') \<Longrightarrow> R (mem w) (mem w')"
proof (induction k arbitrary: bs w')
  case 0
  then show ?case using env_keepsD(1) by simp
next
  case (Suc k)
  then show ?case using fetch_keeps [OF Suc.prems(1)] env_keepsD(2) [OF Suc.prems(1)]
    by (auto split: prod.splits)
qed

lemma readCell_loop_keeps:
  assumes "readCell_loop G n l a k w = Some r" "env_keeps R G"
  shows "R (mem w) (mem (snd r))"
  using assms
proof (induction G n l a k w r rule: readCell_loop.raw_induct [rotated, consumes 1, case_names loop])
  case (loop f G n l a k w r)
  obtain v w1 where 1: "read_word G n l w = (v, w1)" by force
  obtain bs w2 where 2: "fetch_block G n a k w1 = (bs, w2)" by force
  obtain v' w3 where 3: "read_word G n l w2 = (v', w3)" by force
  note S = env_keepsD(2) [OF loop.prems]
  have up1: "R (mem w) (mem w1)" by (rule read_word_keeps [OF loop.prems 1])
  have up3: "R (mem w) (mem w3)"
    by (rule S [OF S [OF up1 fetch_block_keeps [OF loop.prems 2]] read_word_keeps [OF loop.prems 3]])
  show ?case
  proof (cases "locked v \<or> locked v' \<or> isTimestampsEquivalent v v'")
    case True
    then show ?thesis using loop(2) up1 up3 by (auto simp: 1 2 3 Let_def split: if_splits)
  next
    case False
    then have "f G n l a k w3 = Some r" using loop(2) by (simp add: 1 2 3 Let_def)
    from S [OF up3 loop(1) [OF this loop.prems]] show ?thesis .
  qed
qed

lemma keeps_readCell [keeps_intros]: "env_keeps R G \<Longrightarrow> keeps_w R (readCell G k c addr l)"
  by (auto simp: keeps_w_def readCell_def Let_def dest: readCell_loop_keeps split: option.splits if_splits)

lemma increase_loop_keeps:
  assumes "increase_loop G new tries w = Some r" "env_keeps R G"
  shows "R (mem w) (mem (snd r))"
  using assms
proof (induction G new tries w r rule: increase_loop.raw_induct [rotated, consumes 1, case_names loop])
  case (loop f G new tries w r)
  obtain c w1 where 1: "getCurrentClock G w = (c, w1)" by force
  obtain ok w2 where 2: "cas_clock G c new w1 = (ok, w2)" by force
  have up1: "R (mem w) (mem w1)" using 1 env_keepsD(3) [OF loop.prems] by (auto simp: getCurrentClock_def Let_def)
  have "R (mem w1) (mem w2)" using 2 env_keepsD(3) [OF loop.prems] by (auto simp: cas_clock_def Let_def split: prod.splits)
  with up1 have up2: "R (mem w) (mem w2)" using env_keepsD(2) [OF loop.prems] by blast
  show ?case
  proof (cases "sint (new - c) > 0 \<and> \<not> ok")
    case True
    then have "f G new (tries + 1) w2 = Some r" using loop(2) 1 2 by (simp add: Let_def)
    from env_keepsD(2) [OF loop.prems up2 loop(1) [OF this loop.prems]] show ?thesis .
  next
    case False
    have "r = (True, w2) \<or> snd r = w1"
    proof (cases "sint (new - c) > 0")
      case True
      with False have ok by blast
      with True show ?thesis using loop(2) by (simp add: 1 2 Let_def)
    next
      case False
      then show ?thesis using loop(2) by (cases r) (simp add: 1 Let_def)
    qed
    then show ?thesis using up1 up2 by auto
  qed
qed

lemma keeps_increaseClock [keeps_intros]: "env_keeps R G \<Longrightarrow> keeps_w R (increaseClock G v)"
  by (auto simp: keeps_w_def increaseClock_def dest: increase_loop_keeps)

lemma keeps_cache_add [keeps_intros]:
  "env_keeps R G \<Longrightarrow> keeps_w R (\<lambda>w. Some ((), if c then cache_add G a v w else w))"
  using env_keepsD by (auto simp: keeps_w_def cache_add_def Let_def)

subsection \<open>Validation\<close>

lemma lc_get_keeps: "env_keeps R G \<Longrightarrow> lc_get G a c w = (v, c', w') \<Longrightarrow> R (mem w) (mem w')"
  using read_word_keeps fetch_block_keeps env_keepsD(1)
  by (fastforce simp: lc_get_def Let_def split: if_splits prod.splits option.splits)

lemma check_object_keeps:
  assumes R: "env_keeps R G" and c: "check_object G M addr ts (lc, w) = (r, lc', w')"
  shows "R (mem w) (mem w')"
proof -
  note T = env_keepsD(2) [OF R]
  obtain tc w1 where 1: "(if CACHE G then cache_get G addr w else (0, w)) = (tc, w1)" by force
  have up1: "R (mem w) (mem w1)"
    using 1 env_keepsD(1,3) [OF R] by (auto simp: cache_get_def Let_def split: if_splits)
  show ?thesis
  proof (cases "getObjectLockAddr M addr")
    case None
    then show ?thesis using c up1 by (auto simp: check_object_def 1 split: if_splits)
  next
    case (Some l)
    obtain cur lc2 w2 where 2: "(if VARIANT3 G then lc_get G l lc w1
        else let (v, w2) = getVersion G l w1 in (Some v, lc, w2)) = (cur, lc2, w2)" by (metis prod_cases3)
    have "R (mem w1) (mem w2)"
      using 2 env_keepsD(3) [OF R] lc_get_keeps [OF R] by (auto simp: getVersion_def Let_def split: if_splits)
    then have up2: "R (mem w) (mem w2)" by (rule T [OF up1])
    then have "R (mem w) (mem (if CACHE G then cache_add G addr v w2 else w2))" for v
      using T [OF up2 env_keepsD(3) [OF R]] by (simp add: cache_add_def Let_def)
    with up1 up2 show ?thesis using c by (auto simp: check_object_def 1 2 Some split: if_splits option.splits)
  qed
qed

lemma check_set_keeps:
  "env_keeps R G \<Longrightarrow> check_set G M g es (lc, w) = (r, lc', w') \<Longrightarrow> R (mem w) (mem w')"
proof (induction es arbitrary: lc w)
  case Nil
  then show ?case using env_keepsD(1) by simp
next
  case (Cons x es)
  obtain a e where x: "x = (a, e)" by force
  show ?case
  proof (cases "g (ent_ts e)")
    case False
    then show ?thesis using Cons by (simp add: x)
  next
    case True
    obtain r1 lc1 w1 where 1: "check_object G M a (ent_ts e) (lc, w) = (r1, lc1, w1)" by (metis prod_cases3)
    note up1 = check_object_keeps [OF Cons.prems(1) 1]
    show ?thesis
    proof (cases "r1 = Ok True")
      case True
      then have "check_set G M g es (lc1, w1) = (r, lc', w')" using Cons.prems(2) 1 \<open>g (ent_ts e)\<close> by (simp add: x)
      from env_keepsD(2) [OF Cons.prems(1) up1 Cons.IH [OF Cons.prems(1) this]] show ?thesis .
    next
      case False
      then have "w' = w1" using Cons.prems(2) 1 \<open>g (ent_ts e)\<close> by (auto simp: x split: outcome.splits bool.splits)
      then show ?thesis using up1 by simp
    qed
  qed
qed

lemma keeps_validate2 [keeps_intros]: "env_keeps R G \<Longrightarrow> keeps R (validate2 G M ts)"
  using env_keepsD(1) check_set_keeps
  by (fastforce simp: keeps_def validate2_def Let_def split: option.splits if_splits prod.splits outcome.splits bool.splits)

lemma keeps_validateAll [keeps_intros]: "env_keeps R G \<Longrightarrow> keeps R (validateAll G M)"
  using check_set_keeps by (fastforce simp: keeps_def validateAll_def split: prod.splits)

lemma keeps_validate [keeps_intros]:
  assumes R: "env_keeps R G"
  shows "keeps R (validate G M ts)"
  unfolding keeps_def
proof (intro allI impI)
  fix s r s' assume v: "validate G M ts s = Some (r, s')"
  obtain tx w where s: "s = (tx, w)" by force
  obtain r1 lc1 w1 where 1: "check_set G M (isTimestampGreater ts) (read_set tx) (lc_setCacheLine 4 locks_cache_new, w)
    = (r1, lc1, w1)" by (metis prod_cases3)
  obtain r2 lc2 w2 where 2: "check_set G M (isTimestampGreater ts) (write_set tx) (lc1, w1) = (r2, lc2, w2)"
    by (metis prod_cases3)
  have "mem (snd s') \<in> {mem w, mem w1, mem w2}"
    using v by (auto simp: validate_def s 1 2 Let_def split: option.splits if_splits outcome.splits bool.splits)
  moreover have "R (mem w) (mem w)" "R (mem w) (mem w1)" "R (mem w) (mem w2)"
    using env_keepsD(1) [OF R] check_set_keeps [OF R 1] env_keepsD(2) [OF R check_set_keeps [OF R 1] check_set_keeps [OF R 2]]
    by auto
  ultimately show "R (mem (snd s)) (mem (snd s'))" by (auto simp: s)
qed

subsection \<open>Reads and writes\<close>

text \<open>The case distinctions of the operations.\<close>

lemma keeps_if [keeps_intros]: "keeps R f \<Longrightarrow> keeps R g \<Longrightarrow> keeps R (if b then f else g)"
  by simp

lemma keeps_option [keeps_intros]:
  "keeps R f \<Longrightarrow> (\<And>a. keeps R (g a)) \<Longrightarrow> keeps R (case v of None \<Rightarrow> f | Some a \<Rightarrow> g a)"
  by (cases v) simp_all

lemma keeps_prod [keeps_intros]: "(\<And>a b. keeps R (f a b)) \<Longrightarrow> keeps R (case p of (a, b) \<Rightarrow> f a b)"
  by (cases p) simp

lemma keeps_tx_read: "env_keeps R G \<Longrightarrow> keeps R (tx_read G M k addr)"
  unfolding tx_read_def fetch_cell_def by (intro keeps_intros)

lemma keeps_tx_write: "env_keeps R G \<Longrightarrow> keeps R (tx_write G M addr value)"
  unfolding tx_write_def fetch_cell_def store_entry_def by (intro keeps_intros)

lemma keeps_tx_read2: "env_keeps R G \<Longrightarrow> keeps R (tx_read2 G M k addr vals)"
  unfolding tx_read2_def fetch_cell2_def by (intro keeps_intros)

lemma keeps_tx_write2: "env_keeps R G \<Longrightarrow> keeps R (tx_write2 G M k addr value vals)"
  unfolding tx_write2_def fetch_cell2_def by (intro keeps_intros)

lemma keeps_case: "keeps R f \<Longrightarrow>
    case f (tx, w) of None \<Rightarrow> True | Some (r, tx', w') \<Rightarrow> R (mem w) (mem w')"
  using keepsD [of R f "(tx, w)"] by (auto split: option.splits)

text \<open>
  C4. Isolation: whatever a transaction reads and writes, in either variant, and also when it
  aborts, the only stores to shared memory are those of the other nodes; every relation \<open>R\<close>
  between memories that these maintain, such as the content of an address being unchanged,
  holds between the memory before and after the operation.
\<close>

theorem reads_writes_isolated:
  assumes "\<And>m. R m m" "\<And>a b c. R a b \<Longrightarrow> R b c \<Longrightarrow> R a c" "\<And>w. R (mem w) (mem (env G w))"
  shows "(case tx_read G M k addr (tx, w) of None \<Rightarrow> True | Some (r, tx', w') \<Rightarrow> R (mem w) (mem w')) \<and>
    (case tx_write G M addr value (tx, w) of None \<Rightarrow> True | Some (r, tx', w') \<Rightarrow> R (mem w) (mem w')) \<and>
    (case tx_read2 G M k addr vals (tx, w) of None \<Rightarrow> True | Some (r, tx', w') \<Rightarrow> R (mem w) (mem w')) \<and>
    (case tx_write2 G M k addr v vals (tx, w) of None \<Rightarrow> True | Some (r, tx', w') \<Rightarrow> R (mem w) (mem w')) \<and>
    (case validateAll G M (tx, w) of None \<Rightarrow> True | Some (r, tx', w') \<Rightarrow> R (mem w) (mem w'))"
proof -
  have R: "env_keeps R G" using assms unfolding env_keeps_def by blast
  show ?thesis
    by (intro conjI keeps_case keeps_tx_read [OF R] keeps_tx_write [OF R] keeps_tx_read2 [OF R]
        keeps_tx_write2 [OF R] keeps_validateAll [OF R])
qed

subsection \<open>Overlapping accesses in the second variant\<close>

lemma readCell_cell_quiet:
  assumes Q: "quiet_api G" and a: "unat (ADDR_FROM_ADDRESS addr) + k \<le> 2 ^ 64"
    and v: "v = load64 (mem w) (unat (NODE_FROM_ADDRESS addr)) (ADDR_FROM_ADDRESS l)"
    and b: "b = load_bytes (mem w) (unat (NODE_FROM_ADDRESS addr)) (ADDR_FROM_ADDRESS addr) k"
  shows "\<exists>t. readCell G k False addr l w =
    Some ((Some (if locked v then replicate k 0 else b), v, None), w\<lparr>tick := t\<rparr>)"
proof -
  from readCell_loop_quiet [OF Q a, of "unat (NODE_FROM_ADDRESS addr)" "ADDR_FROM_ADDRESS l" w] obtain t where
    "readCell_loop G (unat (NODE_FROM_ADDRESS addr)) (ADDR_FROM_ADDRESS l) (ADDR_FROM_ADDRESS addr) k w =
      Some ((v, if locked v then None else Some b), w\<lparr>tick := t\<rparr>)" using v b by auto
  then show ?thesis by (cases "locked v") (auto simp: readCell_def Let_def intro: exI [of _ t])
qed

lemma fetch_cell2_value:
  assumes Q: "quiet_api G" and a: "unat (ADDR_FROM_ADDRESS addr) + k \<le> 2 ^ 64"
    and f: "fetch_cell2 G M k addr reason (tx, w) = Some (Ok (value, ts), s')"
  shows "value = Some (load_bytes (mem w) (unat (NODE_FROM_ADDRESS addr)) (ADDR_FROM_ADDRESS addr) k)"
proof (cases "getObjectLockAddr M addr")
  case None
  with f show ?thesis by (simp add: fetch_cell2_def bnd_def ok_or_fault_def fault_def)
next
  case (Some l)
  let ?v = "load64 (mem w) (unat (NODE_FROM_ADDRESS addr)) (ADDR_FROM_ADDRESS l)"
  let ?b = "load_bytes (mem w) (unat (NODE_FROM_ADDRESS addr)) (ADDR_FROM_ADDRESS addr) k"
  obtain t where r: "readCell G k False addr l w = Some ((Some (if locked ?v then replicate k 0 else ?b), ?v, None), w\<lparr>tick := t\<rparr>)"
    using readCell_cell_quiet [OF Q a refl refl, of l w] by blast
  from f have "\<not> locked ?v"
    by (auto simp: fetch_cell2_def bnd_def ok_or_fault_def ret_def Some on_world_def r tx_abort_def Let_def split: if_splits)
  with f show ?thesis
    by (auto simp: fetch_cell2_def bnd_def ok_or_fault_def ret_def Some on_world_def r tx_abort_def get_tx_def Let_def
        split: if_splits option.splits outcome.splits prod.splits)
qed


text \<open>A fetch of an object that has not been written yet succeeds.\<close>

lemma fetch_cell2_initial:
  assumes Q: "quiet_api G" "\<not> CACHE G" and l: "getObjectLockAddr M addr = Some l"
    and w: "load64 (mem w) (unat (NODE_FROM_ADDRESS addr)) (ADDR_FROM_ADDRESS l) = 0" "unat (LOCAL_CLOCK w) < 2 ^ 62"
    and k: "k \<le> 8" and vc: "VC tx \<noteq> []"
    and e: "map_of (write_set tx) (block_lb addr) = None \<or> map_of (write_set tx) (block_lb addr) = Some (stamp 0)"
  shows "\<exists>b t. fetch_cell2 G M k addr reason (tx, w) = Some (Ok (Some b, 0), tx, w\<lparr>tick := t\<rparr>)"
proof -
  let ?b = "load_bytes (mem w) (unat (NODE_FROM_ADDRESS addr)) (ADDR_FROM_ADDRESS addr) k"
  have a: "unat (ADDR_FROM_ADDRESS addr) + k \<le> 2 ^ 64" using ADDR_less [of addr] k by simp
  obtain t where r: "readCell G k False addr l w = Some ((Some ?b, 0, None), w\<lparr>tick := t\<rparr>)"
    using readCell_cell_quiet [OF Q(1) a refl refl, of l w] w(1) by (auto simp: LOCKBIT_TS_def)
  obtain b t' where c: "increaseClock G 0 (w\<lparr>tick := t\<rparr>) = Some (b, w\<lparr>tick := t'\<rparr>)"
    using increaseClock_quiet [OF Q(1), of 0 "w\<lparr>tick := t\<rparr>"] w(2) by auto
  have "validate2 G M 0 (tx, w\<lparr>tick := t'\<rparr>) = Some (Ok True, tx, w\<lparr>tick := t'\<rparr>)"
    using vc by (cases "VC tx") (simp_all add: validate2_def VERSION_TS_def NODE_TS_def aget_def)
  then show ?thesis
    using e Q(2) by (auto simp: fetch_cell2_def bnd_def ok_or_fault_def ret_def l on_world_def r get_tx_def c
        LOCKBIT_TS_def VERSION_TS_def stamp_def isTimestampsEquivalent_def)
qed

theorem reads_writes_isolated_witness:
  "case tx_write (example_platform True False) example_mgr 0x210040 [1, 2] (tx_new (example_platform True False) 7, example_world 3)
     of None \<Rightarrow> True | Some (r, tx', w') \<Rightarrow> mem (example_world 3) = mem w'"
  using reads_writes_isolated [where R = "(=)" and G = "example_platform True False" and M = example_mgr] quiet_api.quiet [OF example_quiet [of True False]]
  by simp


end
