(* ===== verification/Itm.thy ===== *)
theory Itm
  imports Tx_Serial Stats Malloc Tx_Isolation
begin

text \<open>
  The interface the instrumented program calls (\<^verbatim>\<open>src/src/dstm_lib_p1/dstm_p1-ls.cpp\<close> and the
  set-up of the library in \<^verbatim>\<open>src/src/dstm_lib_p1/dstm_p1.cpp\<close>): the descriptor of the calling
  thread, loads and stores, begin, commit and retry of a transaction, the counters of the node,
  initialisation and shutdown.

  \<open>TX_DATA_THREADKEY\<close> is the descriptor stored under the thread's key, \<open>G_TRANSACTIONS_STATS\<close>
  the counters of the node.  \<open>self\<close> is the address \<^verbatim>\<open>new\<close> gives a descriptor.
\<close>

subsection \<open>The thread's descriptor\<close>

record itm =
  TX_DATA_THREADKEY :: "tx option"
  G_TRANSACTIONS_STATS :: node_stats

type_synonym 'a itm_comp = "itm \<times> world \<Rightarrow> ('a outcome \<times> itm \<times> world) option"

definition tanger_stm_get_tx :: "platform \<Rightarrow> u64 \<Rightarrow> itm \<Rightarrow> tx \<times> itm" where
  "tanger_stm_get_tx G self s =
     (case TX_DATA_THREADKEY s of
        None \<Rightarrow> let tx = tx_new G self in (tx, s\<lparr>TX_DATA_THREADKEY := Some tx\<rparr>)
      | Some tx \<Rightarrow> (tx, s))"

text \<open>A call of a method on the thread's descriptor, which changes in place.\<close>

definition call_tx :: "platform \<Rightarrow> u64 \<Rightarrow> 'a comp \<Rightarrow> 'a itm_comp" where
  "call_tx G self f s =
     (let (tx, i) = tanger_stm_get_tx G self (fst s)
      in case f (tx, snd s) of
           None \<Rightarrow> None
         | Some (r, tx', w) \<Rightarrow> Some (r, i\<lparr>TX_DATA_THREADKEY := Some tx'\<rparr>, w))"

definition ibnd :: "'a itm_comp \<Rightarrow> ('a \<Rightarrow> 'b itm_comp) \<Rightarrow> 'b itm_comp" where
  "ibnd m f s = (case m s of
      None \<Rightarrow> None
    | Some (Ok a, s') \<Rightarrow> f a s'
    | Some (Aborted r, s') \<Rightarrow> Some (Aborted r, s')
    | Some (Fault, s') \<Rightarrow> Some (Fault, s'))"

definition iret :: "'a \<Rightarrow> 'a itm_comp" where
  "iret a s = Some (Ok a, s)"

subsection \<open>Loads and stores\<close>

text \<open>The macros \<^verbatim>\<open>LOAD\<close> and \<^verbatim>\<open>STORE\<close> for a type of \<open>k\<close> bytes, and their instances.\<close>

definition LOAD :: "nat \<Rightarrow> platform \<Rightarrow> memmgr \<Rightarrow> u64 \<Rightarrow> u64 \<Rightarrow> u8 list itm_comp" where
  "LOAD k G M self addr = call_tx G self (tx_read G M k addr)"

definition tanger_stm_load8 :: "platform \<Rightarrow> memmgr \<Rightarrow> u64 \<Rightarrow> u64 \<Rightarrow> u8 list itm_comp" where
  "tanger_stm_load8 = LOAD 1"

definition tanger_stm_load32 :: "platform \<Rightarrow> memmgr \<Rightarrow> u64 \<Rightarrow> u64 \<Rightarrow> u8 list itm_comp" where
  "tanger_stm_load32 = LOAD 4"

definition tanger_stm_load64 :: "platform \<Rightarrow> memmgr \<Rightarrow> u64 \<Rightarrow> u64 \<Rightarrow> u8 list itm_comp" where
  "tanger_stm_load64 = LOAD 8"

definition tanger_stm_load16aligned :: "platform \<Rightarrow> memmgr \<Rightarrow> u64 \<Rightarrow> u64 \<Rightarrow> u8 list itm_comp" where
  "tanger_stm_load16aligned = LOAD 2"

definition STORE :: "platform \<Rightarrow> memmgr \<Rightarrow> u64 \<Rightarrow> u64 \<Rightarrow> u8 list \<Rightarrow> unit itm_comp" where
  "STORE G M self addr v = call_tx G self (tx_write G M addr v)"

definition tanger_stm_store32 :: "platform \<Rightarrow> memmgr \<Rightarrow> u64 \<Rightarrow> u64 \<Rightarrow> u32 \<Rightarrow> unit itm_comp" where
  "tanger_stm_store32 G M self addr v = STORE G M self addr (take 4 (bytes_of_u64 (ucast v)))"

definition tanger_stm_store64 :: "platform \<Rightarrow> memmgr \<Rightarrow> u64 \<Rightarrow> u64 \<Rightarrow> u64 \<Rightarrow> unit itm_comp" where
  "tanger_stm_store64 G M self addr v = STORE G M self addr (bytes_of_u64 v)"

text \<open>The region functions hand the shared address itself to the caller.\<close>

definition tanger_stm_loadregionpre :: "u64 \<Rightarrow> u64 \<Rightarrow> u64" where
  "tanger_stm_loadregionpre addr bytes = addr"

definition tanger_stm_storeregionpre :: "u64 \<Rightarrow> u64 \<Rightarrow> u64" where
  "tanger_stm_storeregionpre addr bytes = addr"

definition tanger_stm_updateregionpre :: "u64 \<Rightarrow> u64 \<Rightarrow> u64" where
  "tanger_stm_updateregionpre addr bytes = addr"

subsection \<open>Begin and commit\<close>

definition ITM_beginTransaction :: "platform \<Rightarrow> u64 \<Rightarrow> u32 itm_comp" where
  "ITM_beginTransaction G self = ibnd (call_tx G self tx_begin) (\<lambda>_. iret 1)"

definition ITM_commitTransaction :: "platform \<Rightarrow> memmgr \<Rightarrow> u64 \<Rightarrow> unit itm_comp" where
  "ITM_commitTransaction G M self =
     ibnd (call_tx G self (bnd (tx_commit G M) (\<lambda>_. get_tx stats))) (\<lambda>st s.
       case s of (i, w) \<Rightarrow>
         let ns = G_TRANSACTIONS_STATS i;
             ns' = \<lparr>total_txs = total_txs ns + 1, total_txs_stats = stats_add (total_txs_stats ns) st\<rparr>
         in Some (Ok (), i\<lparr>G_TRANSACTIONS_STATS := ns', TX_DATA_THREADKEY := None\<rparr>, w))"

definition ITM_tryCommitTransaction :: "bool itm_comp" where
  "ITM_tryCommitTransaction = iret True"

text \<open>
  The checkpoint: a descriptor is made when there is none.  A later abort continues here,
  after the call.
\<close>

definition tanger_stm_save_restore_stack :: "platform \<Rightarrow> u64 \<Rightarrow> itm \<Rightarrow> itm" where
  "tanger_stm_save_restore_stack G self i =
     (case TX_DATA_THREADKEY i of
        None \<Rightarrow> i\<lparr>TX_DATA_THREADKEY := Some (tx_new G self)\<rparr>
      | Some tx \<Rightarrow> i)"

definition tanger_stm_thread_shutdown :: "itm \<Rightarrow> itm" where
  "tanger_stm_thread_shutdown i = (if TX_DATA_THREADKEY i \<noteq> None then i\<lparr>TX_DATA_THREADKEY := None\<rparr> else i)"

definition tanger_stm_indirect_resolve_multiple :: "u64 \<Rightarrow> u64" where
  "tanger_stm_indirect_resolve_multiple nontxnal_function = nontxnal_function"

subsection \<open>A block of the program\<close>

text \<open>The loads and stores of the body, and the block with its retries.\<close>

primrec run_body :: "platform \<Rightarrow> memmgr \<Rightarrow> u64 \<Rightarrow> 'a prog \<Rightarrow> 'a itm_comp" where
  "run_body G M self (Return a) = iret a"
| "run_body G M self (Read k addr f) = ibnd (LOAD k G M self addr) (\<lambda>v. run_body G M self (f v))"
| "run_body G M self (Write addr v p) = ibnd (STORE G M self addr v) (\<lambda>_. run_body G M self p)"

definition attempt :: "platform \<Rightarrow> memmgr \<Rightarrow> u64 \<Rightarrow> 'a prog \<Rightarrow> 'a itm_comp" where
  "attempt G M self p =
     ibnd (ITM_beginTransaction G self) (\<lambda>_.
     ibnd (run_body G M self p) (\<lambda>a.
     ibnd (ITM_commitTransaction G M self) (\<lambda>_. iret a)))"

partial_function (option) retry_loop ::
  "platform \<Rightarrow> memmgr \<Rightarrow> u64 \<Rightarrow> 'a prog \<Rightarrow> itm \<times> world \<Rightarrow> ('a outcome \<times> itm \<times> world) option" where
  "retry_loop G M self p s =
     (case attempt G M self p s of
        Some (Aborted r, s') \<Rightarrow> retry_loop G M self p s'
      | x \<Rightarrow> x)"

definition atomic_block :: "platform \<Rightarrow> memmgr \<Rightarrow> u64 \<Rightarrow> 'a prog \<Rightarrow> 'a itm_comp" where
  "atomic_block G M self p s = retry_loop G M self p (tanger_stm_save_restore_stack G self (fst s), snd s)"

subsection \<open>Initialisation and shutdown\<close>

definition DSTMGASNetCache_new :: dstm_cache where
  "DSTMGASNetCache_new = \<lparr>i_map = [], cl_pow = CDU_SIZE\<rparr>"

definition initCache :: "world \<Rightarrow> world" where
  "initCache w = w\<lparr>globalCache := setCacheLine CDU_SIZE DSTMGASNetCache_new\<rparr>"

definition getLocksAddr :: "memmgr \<Rightarrow> nat \<Rightarrow> u64 option" where
  "getLocksAddr M node = (if node < length (locks_addr M) then Some (locks_addr M ! node) else None)"

definition getObjsAddr :: "memmgr \<Rightarrow> nat \<Rightarrow> u64 option" where
  "getObjsAddr M node = (if node < length (objects_addr M) then Some (objects_addr M ! node) else None)"

text \<open>\<open>segs\<close> is what GASNet reports about the segments of the nodes.\<close>

definition initMemory :: "platform \<Rightarrow> u64 list \<Rightarrow> heap \<Rightarrow> world \<Rightarrow> (memmgr \<times> heap \<times> world) option" where
  "initMemory G segs h w =
     (case mgr_init G segs (mem w) of
        None \<Rightarrow> None
      | Some (M, m) \<Rightarrow>
          (case getObjsAddr M (gasnet_mynode G) of
             None \<Rightarrow> None
           | Some lb \<Rightarrow> Some (M, dstm_malloc_init lb h, w\<lparr>mem := m\<rparr>)))"

definition ITM_initializeProcess :: "platform \<Rightarrow> u64 list \<Rightarrow> heap \<Rightarrow> world \<Rightarrow> (i32 \<times> memmgr \<times> heap \<times> world) option" where
  "ITM_initializeProcess G segs h w = map_option (\<lambda>r. (0, r)) (initMemory G segs h (initCache w))"

text \<open>What the shutdown of a node passes on to \<^verbatim>\<open>glue::sendNodeStats\<close>.\<close>

definition ITM_finalizeProcess :: "itm \<Rightarrow> node_stats" where
  "ITM_finalizeProcess i = G_TRANSACTIONS_STATS i"

subsection \<open>Every abort is accounted for\<close>

text \<open>
  An operation that does not abort leaves the counters of the descriptor alone; one that aborts
  counts its reason, once.
\<close>

definition acct :: "'a comp \<Rightarrow> bool" where
  "acct f \<longleftrightarrow> (\<forall>tx w r tx' w'. f (tx, w) = Some (r, tx', w') \<longrightarrow>
     stats tx' = (case r of Aborted reason \<Rightarrow> count_abort reason (stats tx) | _ \<Rightarrow> stats tx))"

named_theorems acct_intros \<open>operations that account for their aborts\<close>

lemma acctD: "acct f \<Longrightarrow> f (tx, w) = Some (r, tx', w') \<Longrightarrow>
    stats tx' = (case r of Aborted reason \<Rightarrow> count_abort reason (stats tx) | _ \<Rightarrow> stats tx)"
  unfolding acct_def by blast

lemma acct_bnd [acct_intros]:
  assumes "acct f" "\<And>a. acct (h a)"
  shows "acct (bnd f h)"
  unfolding acct_def
proof (intro allI impI)
  fix tx w r tx' w' assume e: "bnd f h (tx, w) = Some (r, tx', w')"
  then obtain r1 tx1 w1 where f: "f (tx, w) = Some (r1, tx1, w1)" by (auto simp: bnd_def split: option.splits)
  note F = acctD [OF assms(1) f]
  show "stats tx' = (case r of Aborted reason \<Rightarrow> count_abort reason (stats tx) | _ \<Rightarrow> stats tx)"
  proof (cases r1)
    case (Ok a)
    with e f have "h a (tx1, w1) = Some (r, tx', w')" by (simp add: bnd_def)
    from acctD [OF assms(2) this] F Ok show ?thesis by (cases r) simp_all
  qed (use e f F in \<open>auto simp: bnd_def\<close>)
qed

lemma acct_basic [acct_intros]:
  "acct (ret a)" "acct fault" "acct (get_tx j)" "acct (on_world g)" "acct (tx_abort reason)"
  by (auto simp: acct_def ret_def fault_def get_tx_def on_world_def tx_abort_def clearReadSet_def clearWriteSet_def Let_def
      split: option.splits)

lemma acct_fault [acct_intros]: "acct (ok_or_fault v)"
  by (cases v) (simp_all add: ok_or_fault_def acct_basic)

lemma acct_on_tx: "(\<And>tx. stats (g tx) = stats tx) \<Longrightarrow> acct (on_tx g)"
  by (auto simp: acct_def on_tx_def)

lemma acct_if [acct_intros]: "acct f \<Longrightarrow> acct h \<Longrightarrow> acct (if b then f else h)"
  by simp

lemma acct_option [acct_intros]: "acct f \<Longrightarrow> (\<And>a. acct (h a)) \<Longrightarrow> acct (case v of None \<Rightarrow> f | Some a \<Rightarrow> h a)"
  by (cases v) simp_all

lemma acct_prod [acct_intros]: "(\<And>a b. acct (h a b)) \<Longrightarrow> acct (case v of (a, b) \<Rightarrow> h a b)"
  by (cases v) simp

text \<open>Checks and lock phases do not abort by themselves.\<close>

lemma check_object_no_abort: "check_object G M a ts s \<noteq> (Aborted r, s')"
  by (auto simp: check_object_def Let_def split: prod.splits option.splits if_splits)

lemma check_set_no_abort: "check_set G M g es s \<noteq> (Aborted r, s')"
  by (induction es arbitrary: s) (auto simp: check_object_no_abort split: prod.splits outcome.splits bool.splits if_splits)

lemma acct_validate [acct_intros]: "acct (validate G M ts)"
  unfolding acct_def validate_def
  by (auto simp: Let_def check_set_no_abort split: option.splits prod.splits outcome.splits bool.splits if_splits)

lemma acct_validateAll [acct_intros]: "acct (validateAll G M)"
  unfolding acct_def validateAll_def
  by (auto simp: check_set_no_abort split: prod.splits outcome.splits)

lemma acct_send_requests: "acct (send_requests G M nbytes arrs)"
  unfolding acct_def
proof (intro allI impI)
  fix tx w r tx' w' assume "send_requests G M nbytes arrs (tx, w) = Some (r, tx', w')"
  then show "stats tx' = (case r of Aborted reason \<Rightarrow> count_abort reason (stats tx) | _ \<Rightarrow> stats tx)"
    by (induction arrs arbitrary: tx w)
      (auto simp: locksRequestProcessed_def split: option.splits prod.splits if_splits outcome.splits)
qed

lemma release_objects_no_abort: "release_objects G M ch ws w \<noteq> (Aborted r, w')"
  by (induction ws arbitrary: w) (auto split: option.splits if_splits)

lemma acct_releaseLocks [acct_intros]: "acct (releaseLocks G M ws)"
  unfolding acct_def releaseLocks_def
  by (auto simp: release_objects_no_abort split: prod.splits outcome.splits)

lemma acct_cache_changed: "acct (cache_changed G as)"
  unfolding acct_def
proof (intro allI impI)
  fix tx w r tx' w' assume "cache_changed G as (tx, w) = Some (r, tx', w')"
  then show "stats tx' = (case r of Aborted reason \<Rightarrow> count_abort reason (stats tx) | _ \<Rightarrow> stats tx)"
    by (induction as arbitrary: w) (auto split: option.splits)
qed

lemma acct_release_tail:
  "acct (bnd (releaseLocks G M ws) (\<lambda>_. bnd (if CACHE G then bnd (get_tx rlChangedObjects) (cache_changed G) else ret ()) (\<lambda>_.
     bnd (on_tx (\<lambda>tx. tx\<lparr>rlChangedObjects := []\<rparr>)) (\<lambda>_. ret False))))"
  by (intro acct_intros acct_on_tx acct_cache_changed) simp

lemma acct_get_locks_loop: "acct (get_locks_loop G M it)"
  unfolding acct_def
proof (intro allI impI)
  fix tx w r tx' w' assume "get_locks_loop G M it (tx, w) = Some (r, tx', w')"
  then show "stats tx' = (case r of Aborted reason \<Rightarrow> count_abort reason (stats tx) | _ \<Rightarrow> stats tx)"
  proof (induction "length it" arbitrary: it tx w rule: less_induct)
    case less
    show ?case
    proof (cases it)
      case Nil
      then show ?thesis using less.prems by auto
    next
      case (Cons x xs)
      let ?n = "maxRequestedLocksPerNode tx"
      show ?thesis
      proof (cases "fill_requests ?n (descr tx) it []")
        case None
        then show ?thesis using less.prems Cons by auto
      next
        case (Some q)
        obtain arrs it' where q: "q = (arrs, it')" by force
        have short: "length it' < length it" using fill_requests_shorter [of ?n "descr tx" x xs "[]" arrs it'] Some q Cons by simp
        obtain o1 tx1 w1 where sd: "send_requests G M ((2 * ?n + 2) * 8) arrs (tx\<lparr>rlNodes := 0\<rparr>, w) = Some (o1, tx1, w1)"
          using less.prems Some q Cons by (auto split: option.splits)
        note A = acctD [OF acct_send_requests sd]
        show ?thesis
        proof (cases o1)
          case (Ok u)
          then have st: "stats tx1 = stats tx" using A by simp
          show ?thesis
          proof (cases "rlChangedObjects tx1 \<noteq> []")
            case True
            with less.prems Some q Cons sd Ok have
              "bnd (releaseLocks G M (take (length (write_set tx1) - length it') (write_set tx1))) (\<lambda>_.
                 bnd (if CACHE G then bnd (get_tx rlChangedObjects) (cache_changed G) else ret ()) (\<lambda>_.
                 bnd (on_tx (\<lambda>tx. tx\<lparr>rlChangedObjects := []\<rparr>)) (\<lambda>_. ret False))) (tx1, w1) = Some (r, tx', w')"
              by (simp split: if_splits)
            from acctD [OF acct_release_tail this] show ?thesis unfolding st .
          next
            case False
            with less.prems Some q Cons sd Ok have "get_locks_loop G M it' (tx1, w1) = Some (r, tx', w')"
              by (simp split: if_splits)
            from less.hyps [OF short this] show ?thesis unfolding st .
          qed
        qed (use less.prems Some q Cons sd A in auto)
      qed
    qed
  qed
qed

lemma acct_getLocks [acct_intros]: "acct (getLocks G M)"
  using acct_get_locks_loop unfolding acct_def getLocks_def by fastforce

lemma release_with_version_no_abort: "release_with_version G M v ws w \<noteq> (Aborted r, w')"
  by (induction ws arbitrary: w) (auto simp: Let_def split: option.splits)

lemma acct_releaseLocksWithNewClock [acct_intros]: "acct (releaseLocksWithNewClock G M)"
  unfolding acct_def releaseLocksWithNewClock_def
  by (auto simp: Let_def release_with_version_no_abort split: option.splits prod.splits outcome.splits)

lemma acct_commit [acct_intros]: "acct (tx_commit G M)"
  unfolding tx_commit_def by (intro acct_intros acct_on_tx) (simp add: clearReadSet_def clearWriteSet_def)

lemma acct_fetch_cell: "(\<And>e tx. stats (add e tx) = stats tx) \<Longrightarrow> acct (fetch_cell G M k addr add)"
  unfolding fetch_cell_def by (intro acct_intros acct_on_tx)

lemma acct_read [acct_intros]: "acct (tx_read G M k addr)"
  unfolding tx_read_def by (intro acct_intros acct_fetch_cell) simp

lemma acct_write [acct_intros]: "acct (tx_write G M addr v)"
  unfolding tx_write_def store_entry_def by (intro acct_intros acct_fetch_cell acct_on_tx) simp_all

lemma acct_exec [acct_intros]: "acct (exec G M p)"
  by (induction p) (auto intro!: acct_intros)

lemma acct_transaction: "acct (transaction G M p)"
  unfolding transaction_def tx_begin_def by (intro acct_intros acct_on_tx) simp

subsection \<open>Attempts\<close>

lemma call_tx_Some:
  "TX_DATA_THREADKEY i = Some tx \<Longrightarrow> call_tx G self f (i, w) =
     (case f (tx, w) of None \<Rightarrow> None | Some (r, tx', w') \<Rightarrow> Some (r, i\<lparr>TX_DATA_THREADKEY := Some tx'\<rparr>, w'))"
  by (simp add: call_tx_def tanger_stm_get_tx_def)

lemma call_tx_bnd:
  assumes "TX_DATA_THREADKEY i = Some tx"
    and "\<And>a i' tx' w'. TX_DATA_THREADKEY i' = Some tx' \<Longrightarrow> g a (i', w') = call_tx G self (h a) (i', w')"
  shows "ibnd (call_tx G self f) g (i, w) = call_tx G self (bnd f h) (i, w)"
  using assms
  by (auto simp: ibnd_def call_tx_Some bnd_def split: option.splits prod.splits outcome.splits)

lemma run_body_exec:
  "TX_DATA_THREADKEY i = Some tx \<Longrightarrow> run_body G M self p (i, w) = call_tx G self (exec G M p) (i, w)"
proof (induction p arbitrary: i tx w)
  case (Return a)
  then have "i\<lparr>TX_DATA_THREADKEY := Some tx\<rparr> = i" by simp
  with Return show ?case by (simp add: call_tx_Some iret_def ret_def)
next
  case (Read k addr f)
  show ?case
    unfolding run_body.simps exec.simps LOAD_def
    by (rule call_tx_bnd [OF Read.prems]) (rule Read.IH [OF rangeI])
next
  case (Write addr v p)
  show ?case
    unfolding run_body.simps exec.simps STORE_def
    by (rule call_tx_bnd [OF Write.prems]) (rule Write.IH)
qed

lemma attempt_transaction:
  assumes "TX_DATA_THREADKEY i = Some tx"
  shows "attempt G M self p (i, w) =
    (case transaction G M p (tx, w) of
       None \<Rightarrow> None
     | Some (Ok a, tx', w') \<Rightarrow>
         Some (Ok a, i\<lparr>TX_DATA_THREADKEY := None, G_TRANSACTIONS_STATS := count_tx (stats tx') (G_TRANSACTIONS_STATS i)\<rparr>, w')
     | Some (Aborted r, tx', w') \<Rightarrow> Some (Aborted r, i\<lparr>TX_DATA_THREADKEY := Some tx'\<rparr>, w')
     | Some (Fault, tx', w') \<Rightarrow> Some (Fault, i\<lparr>TX_DATA_THREADKEY := Some tx'\<rparr>, w'))"
proof -
  let ?tx = "tx\<lparr>status := TX_ACTIVE, rlChangedObjects := [], VC := replicate (length (VC tx)) 0\<rparr>"
  let ?i = "i\<lparr>TX_DATA_THREADKEY := Some ?tx\<rparr>"
  have b: "ITM_beginTransaction G self (i, w) = Some (Ok 1, ?i, w)"
    using assms by (simp add: ITM_beginTransaction_def ibnd_def call_tx_Some tx_begin_def bnd_def on_tx_def ret_def iret_def)
  have r: "run_body G M self p (?i, w) = call_tx G self (exec G M p) (?i, w)"
    by (rule run_body_exec) simp
  have t: "transaction G M p (tx, w) = bnd (exec G M p) (\<lambda>a. bnd (tx_commit G M) (\<lambda>_. ret a)) (?tx, w)"
    by (simp add: transaction_def tx_begin_def bnd_def on_tx_def ret_def)
  have call: "call_tx G self f (?i, w) = (case f (?tx, w) of None \<Rightarrow> None
      | Some (r, tx', w') \<Rightarrow> Some (r, ?i\<lparr>TX_DATA_THREADKEY := Some tx'\<rparr>, w'))" for f :: "'a comp"
    by (rule call_tx_Some) simp
  show ?thesis
  proof (cases "exec G M p (?tx, w)")
    case None
    then show ?thesis by (simp add: attempt_def ibnd_def b r call t bnd_def)
  next
    case (Some q)
    obtain o1 tx1 w1 where q: "q = (o1, tx1, w1)" by (metis prod_cases3)
    show ?thesis
    proof (cases o1)
      case (Ok a)
      have c: "call_tx G self f (i\<lparr>TX_DATA_THREADKEY := Some tx1\<rparr>, w1) = (case f (tx1, w1) of None \<Rightarrow> None
          | Some (r, tx', w') \<Rightarrow> Some (r, i\<lparr>TX_DATA_THREADKEY := Some tx'\<rparr>, w'))" for f :: "transaction_stats comp"
        using call_tx_Some [of "i\<lparr>TX_DATA_THREADKEY := Some tx1\<rparr>" tx1 G self f w1] by (auto split: option.splits prod.splits)
      show ?thesis using Some q Ok
        by (simp add: attempt_def ibnd_def b r call t bnd_def ITM_commitTransaction_def c get_tx_def ret_def iret_def count_tx_def Let_def
            split: option.splits prod.splits outcome.splits)
    qed (use Some q in \<open>simp_all add: attempt_def ibnd_def b r call t bnd_def\<close>)
  qed
qed

subsection \<open>Retries\<close>

text \<open>The attempts of a block up to the one that commits, with the reasons of those that fail.\<close>

inductive attempts :: "platform \<Rightarrow> memmgr \<Rightarrow> u64 \<Rightarrow> 'a prog \<Rightarrow> itm \<times> world \<Rightarrow> u64 list \<Rightarrow> 'a \<Rightarrow> itm \<times> world \<Rightarrow> bool"
  for G M self p where
  commits: "attempt G M self p s = Some (Ok a, s') \<Longrightarrow> attempts G M self p s [] a s'"
| fails: "attempt G M self p s = Some (Aborted reason, s1) \<Longrightarrow> attempts G M self p s1 reasons a s' \<Longrightarrow>
    attempts G M self p s (reason # reasons) a s'"

lemma retry_loop_counts:
  assumes "retry_loop G M self p s = Some x"
  shows "TX_DATA_THREADKEY (fst s) = Some tx \<Longrightarrow> x = (Ok a, s') \<Longrightarrow>
    \<exists>reasons. attempts G M self p s reasons a s' \<and>
      G_TRANSACTIONS_STATS (fst s') = count_tx (stats_add (stats tx) (tally reasons)) (G_TRANSACTIONS_STATS (fst s)) \<and>
      TX_DATA_THREADKEY (fst s') = None"
  using assms
proof (induction G M self p s x arbitrary: tx rule: retry_loop.raw_induct [rotated, consumes 1, case_names loop])
  case (loop f G M self p s x)
  obtain i w where s: "s = (i, w)" by force
  have k: "TX_DATA_THREADKEY i = Some tx" using loop.prems(1) by (simp add: s)
  note A = attempt_transaction [OF k, of G M self p w]
  show ?case
  proof (cases "transaction G M p (tx, w)")
    case None
    then show ?thesis using loop(2) A by (simp add: s)
  next
    case (Some q)
    obtain r tx1 w1 where q: "q = (r, tx1, w1)" by (metis prod_cases3)
    note C = acctD [OF acct_transaction Some [unfolded q]]
    show ?thesis
    proof (cases r)
      case (Ok b)
      have "x = (Ok b, i\<lparr>TX_DATA_THREADKEY := None, G_TRANSACTIONS_STATS := count_tx (stats tx1) (G_TRANSACTIONS_STATS i)\<rparr>, w1)"
        using loop(2) A Some q Ok by (simp add: s)
      moreover from this have "attempts G M self p s [] a s'"
        using loop.prems(2) A Some q Ok by (intro attempts.commits) (simp add: s)
      ultimately show ?thesis using loop.prems(2) C Ok by (intro exI [of _ "[]"]) (auto simp: s)
    next
      case (Aborted reason)
      let ?s = "(i\<lparr>TX_DATA_THREADKEY := Some tx1\<rparr>, w1)"
      have a: "attempt G M self p s = Some (Aborted reason, ?s)" using A Some q Aborted by (simp add: s)
      have "f G M self p ?s = Some x" using loop(2) a by simp
      from loop(1) [OF this _ loop.prems(2), of tx1] obtain reasons where R: "attempts G M self p ?s reasons a s'"
        "G_TRANSACTIONS_STATS (fst s') = count_tx (stats_add (stats tx1) (tally reasons)) (G_TRANSACTIONS_STATS i)"
        "TX_DATA_THREADKEY (fst s') = None" by auto
      have "stats_add (stats tx1) (tally reasons) = stats_add (stats tx) (tally (reason # reasons))"
        using C Aborted tally_append [of "[reason]" reasons] by (simp add: count_abort_tally stats_add_assoc)
      with R attempts.fails [OF a R(1)] show ?thesis by (intro exI [of _ "reason # reasons"]) (simp add: s)
    next
      case Fault
      then have "x = (Fault, i\<lparr>TX_DATA_THREADKEY := Some tx1\<rparr>, w1)" using loop(2) A Some q by (simp add: s)
      with loop.prems(2) show ?thesis by simp
    qed
  qed
qed


text \<open>
  C2. A block that runs alone is its sequential meaning, in a build without \<^verbatim>\<open>VARIANT3\<close> and while no
  other thread or node changes the memory or the clock.  It starts in a settled state: no object
  is locked, no cached version is locked or ahead of its object, the lock words carry numbers of
  existing nodes and versions up to some \<open>c\<close>, which the clock of the node has not passed, and the
  cache works on blocks of 64 bytes; \<open>c + 1\<close> is below \<open>2 ^ 48\<close>, there are at most \<open>2 ^ 15\<close> nodes,
  the thread has no descriptor yet and every access of the body lies in one block of an object
  area.  Then the block returns after one attempt, with what the body returns on the contents of
  the blocks; afterwards every block holds what the body leaves there, the node has counted one
  transaction and no abort, and the state is settled again, with \<open>c + 1\<close> in place of \<open>c\<close>.
\<close>

theorem atomic_block_serial:
  assumes "quiet_api G" "\<not> VARIANT3 G" "settled G M c w" "prog_ok M p (content (mem w))" "TX_DATA_THREADKEY i = None"
    and "c + 1 < 2 ^ 48" "gasnet_mynode G < gasnet_nodes G" "gasnet_nodes G \<le> 2 ^ 15"
  shows "\<exists>w'. atomic_block G M self p (i, w) =
      Some (Ok (fst (seq p (content (mem w)))), i\<lparr>G_TRANSACTIONS_STATS := count_tx no_stats (G_TRANSACTIONS_STATS i)\<rparr>, w') \<and>
    settled G M (c + 1) w' \<and> (\<forall>b. is_block M b \<longrightarrow> content (mem w') b = snd (seq p (content (mem w))) b)"
proof -
  let ?tx = "tx_new G self"
  have "idle_tx G ?tx" by (simp add: idle_tx_def tx_new_def)
  from serial_transaction [OF assms(1-3) this assms(4,6-8)] obtain tx' w' where
    t: "transaction G M p (?tx, w) = Some (Ok (fst (seq p (content (mem w)))), tx', w')"
    "settled G M (c + 1) w'" "\<forall>b. is_block M b \<longrightarrow> content (mem w') b = snd (seq p (content (mem w))) b" by blast
  have st: "stats tx' = no_stats" using acctD [OF acct_transaction t(1)] by (simp add: tx_new_def)
  have k: "i\<lparr>TX_DATA_THREADKEY := None, G_TRANSACTIONS_STATS := ns\<rparr> = i\<lparr>G_TRANSACTIONS_STATS := ns\<rparr>" for ns using assms(5) by simp
  have "atomic_block G M self p (i, w) = Some (Ok (fst (seq p (content (mem w)))),
      i\<lparr>G_TRANSACTIONS_STATS := count_tx no_stats (G_TRANSACTIONS_STATS i)\<rparr>, w')"
    using attempt_transaction [of "i\<lparr>TX_DATA_THREADKEY := Some ?tx\<rparr>" ?tx G M self p w] t(1) assms(5) st k
    by (simp add: atomic_block_def tanger_stm_save_restore_stack_def retry_loop.simps)
  with t(2,3) show ?thesis by blast
qed

definition example_itm :: itm where
  "example_itm = \<lparr>TX_DATA_THREADKEY = None, G_TRANSACTIONS_STATS = no_node_stats\<rparr>"

text \<open>The contents before and after the example, and that its accesses are in range.\<close>

lemma example_prog_seq:
  "content (mem (example_world 3)) = (\<lambda>b. replicate 64 0)"
  "seq example_prog (\<lambda>b. replicate 64 0) = ([0, 0, 1, 2],
     store_at (store_at (\<lambda>b. replicate 64 0) 0x210044 [1, 2, 3, 4]) 0x10000002100c8 [0, 0, 1, 2])"
  "prog_ok example_mgr example_prog (\<lambda>b. replicate 64 0)"
  "store_at (store_at (\<lambda>b. replicate 64 0) 0x210044 [1, 2, 3, 4]) 0x10000002100c8 [0, 0, 1, 2] 0x210040 =
     replicate 4 0 @ [1, 2, 3, 4] @ replicate 56 0"
  "store_at (store_at (\<lambda>b. replicate 64 0) 0x210044 [1, 2, 3, 4]) 0x10000002100c8 [0, 0, 1, 2] 0x10000002100c0 =
     replicate 8 0 @ [0, 0, 1, 2] @ replicate 52 0"
proof -
  have lb: "block_lb 0x210044 = 0x210040" "block_lb 0x210042 = 0x210040" "block_lb 0x10000002100c8 = 0x10000002100c0"
    by (simp_all add: block_lb_def CDU_SIZE_def)
  have off: "block_offset 0x210044 = 4" "block_offset 0x210042 = 2" "block_offset 0x10000002100c8 = 8"
    by (simp_all add: block_offset_mod)
  have acc: "access_ok example_mgr 0x210044 4" "access_ok example_mgr 0x210042 4" "access_ok example_mgr 0x10000002100c8 4"
    unfolding access_ok_def off
    by (simp_all add: example_mgr_wf in_objects_def example_mgr_tables LOCKBIT_TS_def NODE_FROM_ADDRESS_def
        NODE_MASK_def ADDR_FROM_ADDRESS_def ADDRESS_MASK_def Let_def)
  show "content (mem (example_world 3)) = (\<lambda>b. replicate 64 0)"
    by (rule ext) (simp add: content_def example_world_def load_zero)
  show "seq example_prog (\<lambda>b. replicate 64 0) = ([0, 0, 1, 2],
      store_at (store_at (\<lambda>b. replicate 64 0) 0x210044 [1, 2, 3, 4]) 0x10000002100c8 [0, 0, 1, 2])"
    by (simp add: example_prog_def fetch_bytes_def store_at_def lb off eval_nat_numeral)
  show "prog_ok example_mgr example_prog (\<lambda>b. replicate 64 0)"
    using acc by (simp add: example_prog_def fetch_bytes_def store_at_def lb off eval_nat_numeral)
  show "store_at (store_at (\<lambda>b. replicate 64 0) 0x210044 [1, 2, 3, 4]) 0x10000002100c8 [0, 0, 1, 2] 0x210040 =
      replicate 4 0 @ [1, 2, 3, 4] @ replicate 56 0"
    "store_at (store_at (\<lambda>b. replicate 64 0) 0x210044 [1, 2, 3, 4]) 0x10000002100c8 [0, 0, 1, 2] 0x10000002100c0 =
      replicate 8 0 @ [0, 0, 1, 2] @ replicate 52 0"
    by (simp_all add: store_at_def lb off)
qed

theorem atomic_block_serial_witness:
  "\<exists>w'. atomic_block (example_platform True False) example_mgr 7 example_prog (example_itm, example_world 3) =
      Some (Ok [0, 0, 1, 2], example_itm\<lparr>G_TRANSACTIONS_STATS := count_tx no_stats no_node_stats\<rparr>, w') \<and>
    settled (example_platform True False) example_mgr 4 w' \<and>
    content (mem w') 0x210040 = replicate 4 0 @ [1, 2, 3, 4] @ replicate 56 0 \<and>
    content (mem w') 0x10000002100c0 = replicate 8 0 @ [0, 0, 1, 2] @ replicate 52 0"
proof -
  have "TX_DATA_THREADKEY example_itm = None" by (simp add: example_itm_def)
  from atomic_block_serial [OF example_quiet _ example_settled _ this, of example_prog 7] example_prog_seq(1-3)
  obtain w' where w: "atomic_block (example_platform True False) example_mgr 7 example_prog (example_itm, example_world 3) =
      Some (Ok [0, 0, 1, 2], example_itm\<lparr>G_TRANSACTIONS_STATS := count_tx no_stats (G_TRANSACTIONS_STATS example_itm)\<rparr>, w')"
    "settled (example_platform True False) example_mgr (3 + 1) w'"
    "\<forall>b. is_block example_mgr b \<longrightarrow> content (mem w') b =
      store_at (store_at (\<lambda>b. replicate 64 0) 0x210044 [1, 2, 3, 4]) 0x10000002100c8 [0, 0, 1, 2] b" by auto
  have "G_TRANSACTIONS_STATS example_itm = no_node_stats" by (simp add: example_itm_def)
  with w example_blocks example_prog_seq(4,5) show ?thesis by (intro exI [of _ w']) simp
qed

lemma example_block_returns:
  "\<exists>i' w'. atomic_block (example_platform True False) example_mgr 7 (Return True) (example_itm, example_world 3) = Some (Ok True, i', w')"
proof -
  let ?G = "example_platform True False"
  have "idle_tx ?G (tx_new ?G 7)" by (simp add: idle_tx_def tx_new_def)
  from serial_transaction [OF example_quiet _ example_settled this, of "Return True"] obtain tx' w' where
    "transaction ?G example_mgr (Return True) (tx_new ?G 7, example_world 3) = Some (Ok True, tx', w')" by auto
  then show ?thesis
    using attempt_transaction [of "example_itm\<lparr>TX_DATA_THREADKEY := Some (tx_new ?G 7)\<rparr>" "tx_new ?G 7" ?G example_mgr 7 "Return True" "example_world 3"]
    by (simp add: atomic_block_def tanger_stm_save_restore_stack_def retry_loop.simps example_itm_def)
qed


subsection \<open>A node after its initialisation\<close>

lemma mgr_init_locks:
  assumes I: "mgr_init G segs m = Some (M, m')" and segs: "length segs \<le> 2 ^ 15" "\<forall>s \<in> set segs. unat s + 2 ^ 25 \<le> 2 ^ 48"
  shows "wf_mgr M" "is_block M b \<Longrightarrow> bnode b = gasnet_mynode G \<Longrightarrow> lock_word M m' b = 0"
proof -
  let ?n = "gasnet_mynode G"
  have M: "M = init_tables segs \<lparr>locks_addr = [], objects_addr = []\<rparr>" "?n < length (locks_addr M)"
    "m' = zero_locks ?n (locks_addr M ! ?n) OBJECTS_COUNT m"
    using I by (auto simp: mgr_init_def Let_def split: if_splits)
  show wf: "wf_mgr M" unfolding M(1) by (rule init_tables_layout [OF segs])
  assume b: "is_block M b" "bnode b = ?n"
  have ob: "in_objects M b" using b(1) by (simp add: is_block_def)
  obtain l where l: "getObjectLockAddr M b = Some l" "ADDR_FROM_ADDRESS l = lock_loc M b" using is_blockD(3) [OF b(1)] by blast
  have loc: "unat (lock_loc M b) = unat (locks_addr M ! ?n) + 8 * object_number M b"
    using lock_addr_of_valid [OF wf ob l(1)] l(2) b(2) by (simp add: bnode_def)
  have lt: "object_number M b < OBJECTS_COUNT" by (rule object_number_less [OF ob])
  have "?n < length (objects_addr M)" using M(2) wf by (simp add: wf_mgr_def)
  from wf_mgrD(2) [OF wf this] wf_mgrD(4) [OF wf this] have top: "unat (locks_addr M ! ?n) + 8 * OBJECTS_COUNT \<le> 2 ^ 64"
    by (simp add: OBJECTS_COUNT_eq)
  have small: "8 * object_number M b < 2 ^ 64" using lt by (simp add: OBJECTS_COUNT_eq)
  then have "unat (of_nat (8 * object_number M b) :: u64) = 8 * object_number M b" by (intro unat_of_nat_small) simp
  then have "unat (locks_addr M ! ?n + of_nat (8 * object_number M b)) = unat (locks_addr M ! ?n) + 8 * object_number M b"
    using top lt by (subst unat_plus_simple) (auto simp del: of_nat_mult)
  then have "lock_loc M b = locks_addr M ! ?n + of_nat (8 * object_number M b)"
    using loc by (simp add: word_unat_eq_iff del: of_nat_mult)
  with zero_locks_zero [OF lt top, of ?n m] b(2) M(3) show "lock_word M m' b = 0" by (simp add: lock_word_def)
qed

text \<open>
  C7. After \<^verbatim>\<open>_ITM_initializeProcess\<close> the tables of locks and objects are well formed, every
  object of the node is unlocked and at version 0, whatever its lock word was, the version cache
  is empty and works on blocks of 64 bytes, and the heap of the node begins where its object area
  begins.
\<close>

theorem initializeProcess_ready:
  assumes "length segs \<le> 2 ^ 15" "\<forall>s \<in> set segs. unat s + 2 ^ 25 \<le> 2 ^ 48" "gasnet_mynode G < length segs"
  shows "\<exists>M h' w'. ITM_initializeProcess G segs h w = Some (0, M, h', w') \<and> wf_mgr M \<and>
    (\<forall>b. is_block M b \<and> bnode b = gasnet_mynode G \<longrightarrow> lock_word M (mem w') b = 0) \<and>
    i_map (globalCache w') = [] \<and> cl_pow (globalCache w') = 6 \<and>
    LOW_BOUND h' = objects_addr M ! gasnet_mynode G \<and> ALL_UNITS h' = ALL_UNITS h"
proof -
  let ?M = "init_tables segs \<lparr>locks_addr = [], objects_addr = []\<rparr>" and ?n = "gasnet_mynode G"
  have len: "length (locks_addr ?M) = length segs" "length (objects_addr ?M) = length segs" by (simp_all add: init_tables_map)
  let ?m = "zero_locks ?n (locks_addr ?M ! ?n) OBJECTS_COUNT (mem w)"
  have I: "mgr_init G segs (mem w) = Some (?M, ?m)" using assms(3) len by (simp add: mgr_init_def Let_def)
  note R = mgr_init_locks [OF I assms(1,2)]
  have "ITM_initializeProcess G segs h w = Some (0, ?M, h\<lparr>LOW_BOUND := objects_addr ?M ! ?n\<rparr>, (initCache w)\<lparr>mem := ?m\<rparr>)"
    using I len assms(3)
    by (simp add: ITM_initializeProcess_def initMemory_def initCache_def getObjsAddr_def dstm_malloc_init_def)
  with R show ?thesis
    by (simp add: initCache_def DSTMGASNetCache_new_def setCacheLine_def CDU_SIZE_def)
qed

theorem initializeProcess_ready_witness:
  "\<exists>M h' w'. ITM_initializeProcess (example_platform True False) [0x10000, 0x10000] \<lparr>LOW_BOUND = 0, ALL_UNITS = 0\<rparr> (example_world 3) =
      Some (0, M, h', w') \<and> wf_mgr M \<and> i_map (globalCache w') = [] \<and> cl_pow (globalCache w') = 6"
proof -
  have "length [0x10000, 0x10000 :: u64] \<le> 2 ^ 15" "\<forall>s \<in> set [0x10000, 0x10000 :: u64]. unat s + 2 ^ 25 \<le> 2 ^ 48"
    "gasnet_mynode (example_platform True False) < length [0x10000, 0x10000 :: u64]" by simp_all
  from initializeProcess_ready [OF this, of "\<lparr>LOW_BOUND = 0, ALL_UNITS = 0\<rparr>" "example_world 3"] show ?thesis by blast
qed

end
