(* ===== verification/Threads.thy ===== *)
theory Threads
  imports Platform "HOL-Library.Multiset"
begin

text \<open>
  Creation, placement and joining of application threads across the nodes: the \<^verbatim>\<open>pthread\<close>
  replacement (\<^verbatim>\<open>src/src/dstm_pthread/dstm_pthread.cpp\<close>), the spawner and the load balancer
  (\<^verbatim>\<open>gasnet_thread_spawner.cpp\<close>, \<^verbatim>\<open>dummy_loadbalancer.cpp\<close>), the thread tables and the start of
  child threads (\<^verbatim>\<open>dstm_gasnet_application.cpp\<close>) and the message handlers that connect the
  nodes (\<^verbatim>\<open>gasnet_handlers.cpp\<close>).  Every operation runs on one node \<open>me\<close>; \<open>None\<close> stands for
  an access through a null pointer or beyond a buffer.
\<close>

subsection \<open>Load balancing\<close>

record balancer =
  nodesNum :: int
  lastNode :: int

definition balancer_new :: "int \<Rightarrow> balancer" where
  "balancer_new n = \<lparr>nodesNum = n, lastNode = - 1\<rparr>"

definition getVictim :: "balancer \<Rightarrow> int \<times> balancer" where
  "getVictim lb =
     (let lb = (if lastNode lb < nodesNum lb - 1 then lb\<lparr>lastNode := lastNode lb + 1\<rparr> else lb\<lparr>lastNode := 0\<rparr>)
      in (lastNode lb, lb))"

subsection \<open>The thread tables of a node\<close>

datatype thread_state = RUNNABLE | RUNNING | DEAD | EXITED | TERMINATED

record app_thread =
  ltid :: i32
  state :: thread_state

text \<open>
  A table maps a global thread identifier to a shared pointer; \<open>Some None\<close> is an entry whose
  pointer is null, which \<^verbatim>\<open>operator[]\<close> makes when it does not find the key.
\<close>

type_synonym thread_table = "i32 \<Rightarrow> app_thread option option"

record thread_arg =
  targ_mainNode :: nat
  targ_gtid :: i32
  targ_func :: string
  targ_arg :: u64

record application =
  currentLTID :: i32
  localThreads :: thread_table
  remoteThreads :: thread_table
  thread_args :: "thread_arg list"
  pfn_c :: "string option"

definition application_new :: application where
  "application_new = \<lparr>currentLTID = 0, localThreads = (\<lambda>_. None), remoteThreads = (\<lambda>_. None),
     thread_args = [], pfn_c = None\<rparr>"

definition getNextLTID :: "application \<Rightarrow> i32 \<times> application" where
  "getNextLTID app = (currentLTID app + 1, app\<lparr>currentLTID := currentLTID app + 1\<rparr>)"

definition addLocalThread :: "i32 \<Rightarrow> i32 \<Rightarrow> thread_state \<Rightarrow> application \<Rightarrow> application" where
  "addLocalThread g l st app =
     app\<lparr>localThreads := (localThreads app)(g := Some (Some \<lparr>ltid = l, state = st\<rparr>))\<rparr>"

definition addRemoteThread :: "i32 \<Rightarrow> i32 \<Rightarrow> thread_state \<Rightarrow> application \<Rightarrow> application" where
  "addRemoteThread g l st app =
     app\<lparr>remoteThreads := (remoteThreads app)(g := Some (Some \<lparr>ltid = l, state = st\<rparr>))\<rparr>"

definition inLocalThreads :: "i32 \<Rightarrow> application \<Rightarrow> bool" where
  "inLocalThreads g app = (localThreads app g \<noteq> None)"

definition inRemoteThreads :: "i32 \<Rightarrow> application \<Rightarrow> bool" where
  "inRemoteThreads g app = (remoteThreads app g \<noteq> None)"

definition getLocalThread :: "i32 \<Rightarrow> application \<Rightarrow> app_thread option \<times> application" where
  "getLocalThread g app =
     (case localThreads app g of
        Some p \<Rightarrow> (p, app)
      | None \<Rightarrow> (None, app\<lparr>localThreads := (localThreads app)(g := Some None)\<rparr>))"

definition getRemoteThread :: "i32 \<Rightarrow> application \<Rightarrow> app_thread option \<times> application" where
  "getRemoteThread g app =
     (case remoteThreads app g of
        Some p \<Rightarrow> (p, app)
      | None \<Rightarrow> (None, app\<lparr>remoteThreads := (remoteThreads app)(g := Some None)\<rparr>))"

text \<open>A write through the pointer of an entry changes the record the table refers to.\<close>

definition setLocalThread :: "i32 \<Rightarrow> app_thread \<Rightarrow> application \<Rightarrow> application" where
  "setLocalThread g t app = app\<lparr>localThreads := (localThreads app)(g := Some (Some t))\<rparr>"

definition setRemoteThread :: "i32 \<Rightarrow> app_thread \<Rightarrow> application \<Rightarrow> application" where
  "setRemoteThread g t app = app\<lparr>remoteThreads := (remoteThreads app)(g := Some (Some t))\<rparr>"

subsection \<open>Creating threads\<close>

text \<open>
  The request that \<^verbatim>\<open>dstm_pthread_create\<close> builds, and the messages between the nodes; the
  first component of \<open>SpawnThread\<close> and \<open>ThreadExited\<close> is the node the message comes from.
\<close>

record newthread =
  nt_new_thread :: u64
  nt_start_routine :: string
  nt_arg :: u64

datatype message =
    SpawnThread nat newthread i32
  | SpawnThread_succ newthread i32
  | ThreadExited nat i32 thread_state
  | ThreadExited_succ i32 thread_state

record spawner =
  loadBalancer :: balancer
  next_gtid :: i32

definition spawner_new :: "balancer \<Rightarrow> spawner" where
  "spawner_new lb = \<lparr>loadBalancer = lb, next_gtid = 1\<rparr>"

definition getNextGTID :: "spawner \<Rightarrow> i32 \<times> spawner" where
  "getNextGTID s = (next_gtid s, s\<lparr>next_gtid := next_gtid s + 1\<rparr>)"

text \<open>The identifier is sign-extended into the cell of type \<^verbatim>\<open>unsigned long\<close> of the caller.\<close>

definition spawnThread ::
  "nat \<Rightarrow> newthread \<Rightarrow> spawner \<Rightarrow> application \<Rightarrow> memory \<Rightarrow> spawner \<times> application \<times> memory \<times> (nat \<times> message)" where
  "spawnThread me nt s app m =
     (let (g, s) = getNextGTID s;
          m = store64 m me (nt_new_thread nt) (scast g);
          (victim, lb) = getVictim (loadBalancer s);
          app = (if victim = int me then addLocalThread g 0 RUNNABLE app else addRemoteThread g 0 RUNNABLE app)
      in (s\<lparr>loadBalancer := lb\<rparr>, app, m, (nat victim, SpawnThread me nt g)))"

text \<open>
  The name of the start routine is copied into a buffer of 30 characters, its terminating zero
  included.  Without a spawner, which only the main node has, creation is refused.
\<close>

definition dstm_pthread_create ::
  "nat \<Rightarrow> u64 \<Rightarrow> string \<Rightarrow> u64 \<Rightarrow> spawner option \<Rightarrow> application \<Rightarrow> memory \<Rightarrow>
   (int \<times> spawner option \<times> application \<times> memory \<times> (nat \<times> message) list) option" where
  "dstm_pthread_create me new_thread start_routine arg spn app m =
     (case spn of
        None \<Rightarrow> Some (1, None, app, m, [])
      | Some s \<Rightarrow>
          if 30 \<le> length start_routine then None
          else let nt = \<lparr>nt_new_thread = new_thread, nt_start_routine = start_routine, nt_arg = arg\<rparr>;
                   (s, app, m, msg) = spawnThread me nt s app m
               in Some (0, Some s, app, m, [msg]))"

subsection \<open>Running threads\<close>

text \<open>\<open>runChildThread\<close> returns the local identifier and the argument of the new system thread.\<close>

definition runChildThread :: "nat \<Rightarrow> newthread \<Rightarrow> nat \<Rightarrow> i32 \<Rightarrow> application \<Rightarrow> i32 \<times> thread_arg \<times> application" where
  "runChildThread me nt mainNode g app =
     (let (l, app) = getNextLTID app;
          app = (if me \<noteq> mainNode then addLocalThread g l RUNNING app else app);
          targs = \<lparr>targ_mainNode = mainNode, targ_gtid = g, targ_func = nt_start_routine nt, targ_arg = nt_arg nt\<rparr>
      in (l, targs, app\<lparr>thread_args := thread_args app @ [targs]\<rparr>))"

text \<open>
  \<open>jobChild\<close> up to the call of the user's function and after its return.  \<open>known\<close> is the lookup
  of a function in the module of the LLVM execution engine, \<open>None\<close> when there is no engine.
  The result is the function that is called, if any.
\<close>

definition jobChild_call :: "(string \<Rightarrow> bool) option \<Rightarrow> thread_arg \<Rightarrow> application \<Rightarrow> string option \<times> application" where
  "jobChild_call ee targs app =
     (case ee of
        None \<Rightarrow> (None, app)
      | Some known \<Rightarrow>
          let app = (if pfn_c app = None
                     then (if known (targ_func targs) then app\<lparr>pfn_c := Some (targ_func targs)\<rparr> else app)
                     else app)
          in (pfn_c app, app))"

definition jobChild_exit :: "nat \<Rightarrow> thread_arg \<Rightarrow> nat \<times> message" where
  "jobChild_exit me targs = (targ_mainNode targs, ThreadExited me (targ_gtid targs) EXITED)"

subsection \<open>Message handlers\<close>

definition spawnthread_medhandler ::
  "nat \<Rightarrow> nat \<Rightarrow> newthread \<Rightarrow> i32 \<Rightarrow> application option \<Rightarrow> application option \<times> thread_arg list \<times> (nat \<times> message)" where
  "spawnthread_medhandler me src nt g application =
     (case application of
        Some app \<Rightarrow>
          let (l, targs, app) = runChildThread me nt src g app
          in (Some app, [targs], (src, SpawnThread_succ nt l))
      | None \<Rightarrow> (None, [], (src, SpawnThread_succ nt 0)))"

definition spawnthread_succ_medhandler ::
  "nat \<Rightarrow> newthread \<Rightarrow> i32 \<Rightarrow> memory \<Rightarrow> application \<Rightarrow> application option" where
  "spawnthread_succ_medhandler me nt l m app =
     (let g = (ucast (load64 m me (nt_new_thread nt)) :: i32);
          started = (\<lambda>t. t\<lparr>ltid := l, state := (if state t = RUNNABLE then RUNNING else state t)\<rparr>)
      in if inLocalThreads g app
         then (case getLocalThread g app of
                 (None, app) \<Rightarrow> None
               | (Some t, app) \<Rightarrow> Some (setLocalThread g (started t) app))
         else if inRemoteThreads g app
         then (case getRemoteThread g app of
                 (None, app) \<Rightarrow> None
               | (Some t, app) \<Rightarrow> Some (setRemoteThread g (started t) app))
         else None)"

definition threadexited_shrthandler ::
  "nat \<Rightarrow> i32 \<Rightarrow> thread_state \<Rightarrow> application \<Rightarrow> (application \<times> (nat \<times> message)) option" where
  "threadexited_shrthandler src g st app =
     (if inLocalThreads g app
      then (case getLocalThread g app of
              (None, app) \<Rightarrow> None
            | (Some t, app) \<Rightarrow> Some (setLocalThread g (t\<lparr>state := st\<rparr>) app, (src, ThreadExited_succ g st)))
      else (case getRemoteThread g app of
              (None, app) \<Rightarrow> None
            | (Some t, app) \<Rightarrow> Some (setRemoteThread g (t\<lparr>state := st\<rparr>) app, (src, ThreadExited_succ g st))))"

definition threadexited_succ_shrthandler :: "i32 \<Rightarrow> thread_state \<Rightarrow> application \<Rightarrow> application" where
  "threadexited_succ_shrthandler g st app = app"

text \<open>The dispatch of a message: the node's tables, the threads it starts and the replies.\<close>

definition deliver ::
  "nat \<Rightarrow> message \<Rightarrow> memory \<Rightarrow> application \<Rightarrow> (application \<times> thread_arg list \<times> (nat \<times> message) list) option" where
  "deliver me msg m app =
     (case msg of
        SpawnThread src nt g \<Rightarrow>
          (case spawnthread_medhandler me src nt g (Some app) of
             (Some app, targs, reply) \<Rightarrow> Some (app, targs, [reply])
           | (None, targs, reply) \<Rightarrow> None)
      | SpawnThread_succ nt l \<Rightarrow> map_option (\<lambda>app. (app, [], [])) (spawnthread_succ_medhandler me nt l m app)
      | ThreadExited src g st \<Rightarrow> map_option (\<lambda>(app, reply). (app, [], [reply])) (threadexited_shrthandler src g st app)
      | ThreadExited_succ g st \<Rightarrow> Some (threadexited_succ_shrthandler g st app, [], []))"

subsection \<open>Joining\<close>

text \<open>
  A waiting thread polls the table; \<open>polls\<close> are the states of the tables at its successive
  looks, the first one at the call.  A wait returns the looks that are left.
\<close>

datatype 'a waiting = Returned 'a | Blocked | Crashed

definition exited :: "app_thread option option \<Rightarrow> bool option" where
  "exited p = (case p of Some (Some t) \<Rightarrow> Some (state t = EXITED) | _ \<Rightarrow> None)"

fun block_until :: "(application \<Rightarrow> bool option) \<Rightarrow> application list \<Rightarrow> application list waiting" where
  "block_until c [] = Blocked"
| "block_until c (a # as) =
     (case c a of None \<Rightarrow> Crashed | Some True \<Rightarrow> Returned (a # as) | Some False \<Rightarrow> block_until c as)"

definition joinThread :: "u64 \<Rightarrow> application list \<Rightarrow> application list waiting" where
  "joinThread thr polls =
     (let g = (ucast thr :: i32);
          first = (if inLocalThreads g (hd polls)
                   then block_until (\<lambda>a. exited (localThreads a g)) polls else Returned polls)
      in case first of
           Returned polls \<Rightarrow>
             (if inRemoteThreads g (hd polls)
              then block_until (\<lambda>a. exited (remoteThreads a g)) polls else Returned polls)
         | Blocked \<Rightarrow> Blocked
         | Crashed \<Rightarrow> Crashed)"

definition dstm_pthread_join :: "u64 \<Rightarrow> spawner option \<Rightarrow> application list \<Rightarrow> application list waiting" where
  "dstm_pthread_join th spn polls = (case spn of None \<Rightarrow> Crashed | Some s \<Rightarrow> joinThread th polls)"

end
