(* ===== verification/Thread_System.thy ===== *)
theory Thread_System
  imports Threads
begin

text \<open>
  The nodes together: messages in flight, child threads that wait for their start or run the
  user's function, and the main node's thread that creates and joins them.  Node 0 is the main
  node.  The invariant \<open>threads_ok\<close> says where in its life each created thread is; from it
  follow that no handler fails, that a join returns exactly when the thread is past its call of
  the user's function and the main node has been told so, and that every run of the system ends with all joins open.
\<close>

subsection \<open>The system and its steps\<close>

text \<open>
  \<open>pending\<close> and \<open>running\<close> are the system threads of the nodes before the call of the user's
  function and inside it, with the function that is called.  For the statements only, \<open>ran\<close> and
  \<open>reported\<close> record the threads whose function has returned, with this function, and those whose
  exit the main node has been told of; and \<open>asked\<close> the start routine each thread was created with.
\<close>

record system =
  apps :: "nat \<Rightarrow> application"
  spn :: spawner
  smem :: memory
  net :: "(nat \<times> message) list"
  pending :: "(nat \<times> thread_arg) list"
  running :: "(nat \<times> thread_arg \<times> string option) list"
  ran :: "(i32 \<times> string option) list"
  reported :: "i32 list"
  asked :: "(i32 \<times> string) list"

text \<open>After \<^verbatim>\<open>runMainThread\<close> has entered the main thread and \<^verbatim>\<open>pthread_init\<close> has set the spawner.\<close>

definition system_init :: "nat \<Rightarrow> memory \<Rightarrow> system" where
  "system_init nodes m =
     \<lparr>apps = (\<lambda>_. application_new)(0 := addLocalThread 0 0 RUNNING application_new),
      spn = spawner_new (balancer_new (int nodes)), smem = m,
      net = [], pending = [], running = [], ran = [], reported = [], asked = []\<rparr>"

definition exit_notices :: "message \<Rightarrow> i32 list" where
  "exit_notices msg = (case msg of ThreadExited src g st \<Rightarrow> [g] | _ \<Rightarrow> [])"

definition deliver_step :: "nat \<Rightarrow> message \<Rightarrow> (nat \<times> message) list \<Rightarrow> system \<Rightarrow> system option" where
  "deliver_step n msg rest s =
     (case deliver n msg (smem s) (apps s n) of
        None \<Rightarrow> None
      | Some (app, started, replies) \<Rightarrow>
          Some (s\<lparr>apps := (apps s)(n := app), net := rest @ replies,
                  pending := pending s @ map (Pair n) started,
                  reported := reported s @ exit_notices msg\<rparr>))"

inductive thread_step :: "(string \<Rightarrow> bool) option \<Rightarrow> system \<Rightarrow> system \<Rightarrow> bool" for ee where
  deliver: "net s = xs @ (n, msg) # ys \<Longrightarrow> deliver_step n msg (xs @ ys) s = Some s' \<Longrightarrow> thread_step ee s s'"
| call: "pending s = xs @ (n, t) # ys \<Longrightarrow> jobChild_call ee t (apps s n) = (f, app) \<Longrightarrow>
    thread_step ee s (s\<lparr>apps := (apps s)(n := app), pending := xs @ ys, running := (n, t, f) # running s\<rparr>)"
| exit: "running s = xs @ (n, t, f) # ys \<Longrightarrow>
    thread_step ee s (s\<lparr>running := xs @ ys, net := net s @ [jobChild_exit n t], ran := (targ_gtid t, f) # ran s\<rparr>)"

text \<open>
  The reachable states of a program that has created a thread for each of \<open>cells\<close>, the
  addresses of its thread handles, in this order: the handles are distinct variables and the
  program does not overwrite them, and the identifiers stay in the range of \<^verbatim>\<open>int\<close>.
\<close>

inductive reachable :: "(string \<Rightarrow> bool) option \<Rightarrow> nat \<Rightarrow> u64 list \<Rightarrow> system \<Rightarrow> bool" for ee nodes where
  init: "reachable ee nodes [] (system_init nodes m)"
| create: "reachable ee nodes cells s \<Longrightarrow> Suc (length cells) < 2 ^ 31 \<Longrightarrow>
    list_all (\<lambda>c. apart 0 cell 8 0 c 8) cells \<Longrightarrow>
    dstm_pthread_create 0 cell routine arg (Some (spn s)) (apps s 0) (smem s) = Some (0, Some sp, app, m, msgs) \<Longrightarrow>
    reachable ee nodes (cells @ [cell])
      (s\<lparr>spn := sp, apps := (apps s)(0 := app), smem := m, net := net s @ msgs,
          asked := asked s @ [(next_gtid (spn s), routine)]\<rparr>)"
| user: "reachable ee nodes cells s \<Longrightarrow> list_all (\<lambda>c. load64 m 0 c = load64 (smem s) 0 c) cells \<Longrightarrow>
    reachable ee nodes cells (s\<lparr>smem := m\<rparr>)"
| step: "reachable ee nodes cells s \<Longrightarrow> thread_step ee s s' \<Longrightarrow> reachable ee nodes cells s'"

inductive_cases thread_stepE: "thread_step ee s s'"

subsection \<open>Every run ends\<close>

text \<open>What a message still causes: a request starts a thread and a reply, and so on.\<close>

definition weight_msg :: "message \<Rightarrow> nat" where
  "weight_msg msg = (case msg of SpawnThread _ _ _ \<Rightarrow> 7 | SpawnThread_succ _ _ \<Rightarrow> 1
     | ThreadExited _ _ _ \<Rightarrow> 2 | ThreadExited_succ _ _ \<Rightarrow> 1)"

definition weight :: "system \<Rightarrow> nat" where
  "weight s = sum_list (map (weight_msg \<circ> snd) (net s)) + 5 * length (pending s) + 4 * length (running s)"

lemma deliver_weight:
  assumes "deliver n msg m app = Some (app', started, replies)"
  shows "sum_list (map (weight_msg \<circ> snd) replies) + 5 * length started < weight_msg msg"
proof (cases msg)
  case (SpawnThread src nt g)
  then show ?thesis using assms
    by (auto simp: deliver_def weight_msg_def spawnthread_medhandler_def runChildThread_def getNextLTID_def Let_def)
next
  case (ThreadExited src g st)
  then show ?thesis using assms
    by (auto simp: deliver_def weight_msg_def threadexited_shrthandler_def split: if_splits option.splits prod.splits)
qed (use assms in \<open>auto simp: deliver_def weight_msg_def\<close>)

lemma step_weight: "thread_step ee s s' \<Longrightarrow> weight s' < weight s"
proof (induction rule: thread_step.cases)
  case (deliver s xs n msg ys s')
  then obtain app started replies where d: "deliver n msg (smem s) (apps s n) = Some (app, started, replies)"
    and s': "s' = s\<lparr>apps := (apps s)(n := app), net := (xs @ ys) @ replies,
                  pending := pending s @ map (Pair n) started, reported := reported s @ exit_notices msg\<rparr>"
    by (auto simp: deliver_step_def split: option.splits)
  from deliver_weight [OF d] show ?case
    using deliver(1-3) by (simp add: weight_def s')
next
  case (call s xs n t ys f app)
  then show ?case by (simp add: weight_def)
next
  case (exit s xs n t f ys)
  then show ?case by (simp add: weight_def jobChild_exit_def weight_msg_def)
qed

subsection \<open>Where each thread is\<close>

definition created :: "nat \<Rightarrow> i32 list" where
  "created n = map of_nat [1..<Suc n]"

definition life_msg :: "message \<Rightarrow> i32 list" where
  "life_msg msg = (case msg of SpawnThread src nt g \<Rightarrow> [g] | ThreadExited src g st \<Rightarrow> [g] | _ \<Rightarrow> [])"

text \<open>The threads requested, started, running, about to be reported, and reported.\<close>

definition life :: "system \<Rightarrow> i32 list" where
  "life s = concat (map (life_msg \<circ> snd) (net s)) @ map (targ_gtid \<circ> snd) (pending s) @
     map (targ_gtid \<circ> fst \<circ> snd) (running s) @ reported s"

text \<open>
  The entry of a thread: in one table of the main node if it was created (or is the main
  thread), with a record that says \<open>EXITED\<close> once its exit has been reported.
\<close>

definition entry_ok ::
  "nat \<Rightarrow> i32 list \<Rightarrow> i32 \<Rightarrow> app_thread option option \<Rightarrow> app_thread option option \<Rightarrow> bool" where
  "entry_ok n over g l r \<longleftrightarrow>
     (if g = 0 \<or> g \<in> set (created n)
      then \<exists>t. (l = Some (Some t) \<and> r = None \<or> l = None \<and> r = Some (Some t)) \<and>
             (state t = EXITED \<longleftrightarrow> g \<in> set over)
      else l = None \<and> r = None)"

definition tables_ok :: "nat \<Rightarrow> i32 list \<Rightarrow> application \<Rightarrow> bool" where
  "tables_ok n over app \<longleftrightarrow> (\<forall>g. entry_ok n over g (localThreads app g) (remoteThreads app g))"

definition msg_ok :: "u64 list \<Rightarrow> (i32 \<times> string option) list \<Rightarrow> nat \<times> message \<Rightarrow> bool" where
  "msg_ok cells returned nm =
     (case snd nm of
        SpawnThread src nt g \<Rightarrow> src = 0 \<and> nt_new_thread nt \<in> set cells
      | SpawnThread_succ nt l \<Rightarrow> fst nm = 0 \<and> nt_new_thread nt \<in> set cells
      | ThreadExited src g st \<Rightarrow> fst nm = 0 \<and> st = EXITED \<and> g \<in> fst ` set returned
      | ThreadExited_succ g st \<Rightarrow> True)"

definition handles_ok :: "u64 list \<Rightarrow> memory \<Rightarrow> bool" where
  "handles_ok cells m \<longleftrightarrow> (\<forall>i < length cells. load64 m 0 (cells ! i) = scast (of_nat (Suc i) :: i32))"

definition threads_ok :: "u64 list \<Rightarrow> system \<Rightarrow> bool" where
  "threads_ok cells s \<longleftrightarrow>
     next_gtid (spn s) = of_nat (Suc (length cells)) \<and> length cells < 2 ^ 31 \<and>
     mset (life s) = mset (created (length cells)) \<and>
     tables_ok (length cells) (reported s) (apps s 0) \<and>
     list_all (msg_ok cells (ran s)) (net s) \<and>
     list_all (\<lambda>(n, t). targ_mainNode t = 0) (pending s) \<and>
     list_all (\<lambda>(n, t, f). targ_mainNode t = 0) (running s) \<and>
     handles_ok cells (smem s) \<and> set (reported s) \<subseteq> fst ` set (ran s)"

lemma created_Suc: "created (Suc n) = created n @ [of_nat (Suc n)]"
  by (simp add: created_def)

lemma of_nat_i32_inj: "(of_nat a :: i32) = of_nat b \<longleftrightarrow> a = b" if "a < 2 ^ 32" "b < 2 ^ 32"
proof
  assume "(of_nat a :: i32) = of_nat b"
  then have "unat (of_nat a :: i32) = unat (of_nat b :: i32)" by simp
  with that show "a = b" by (simp add: unat_of_nat_small)
qed simp

lemma fresh_gtid: "Suc n < 2 ^ 31 \<Longrightarrow> of_nat (Suc n) \<notin> set (created n) \<and> (of_nat (Suc n) :: i32) \<noteq> 0"
proof
  assume n: "Suc n < 2 ^ 31"
  show "of_nat (Suc n) \<notin> set (created n)"
  proof
    assume "of_nat (Suc n) \<in> set (created n)"
    then obtain k where "k \<in> set [1..<Suc n]" "(of_nat (Suc n) :: i32) = of_nat k"
      unfolding created_def set_map image_iff by blast
    moreover from this(1) have "k < Suc n" by (simp del: upt_Suc)
    ultimately have "k < Suc n" "(of_nat (Suc n) :: i32) = of_nat k" by blast+
    with n of_nat_i32_inj [of "Suc n" k] show False by simp
  qed
  show "(of_nat (Suc n) :: i32) \<noteq> 0"
    using n of_nat_i32_inj [of "Suc n" 0] by (simp del: of_nat_Suc)
qed

lemma gtid_roundtrip: "(ucast (scast (g :: i32) :: u64) :: i32) = g"
  by (rule bit_word_eqI) (simp add: bit_simps)

lemma tables_ok_cong:
  "localThreads app' = localThreads app \<Longrightarrow> remoteThreads app' = remoteThreads app \<Longrightarrow>
   tables_ok n over app' = tables_ok n over app"
  by (simp add: tables_ok_def)

lemma entry_ok_Suc:
  "g \<noteq> of_nat (Suc n) \<Longrightarrow> entry_ok (Suc n) over g l r = entry_ok n over g l r"
  by (simp add: entry_ok_def created_Suc del: of_nat_Suc)

lemma entry_ok_append: "g \<noteq> g' \<Longrightarrow> entry_ok n (over @ [g']) g l r = entry_ok n over g l r"
  by (simp add: entry_ok_def)

lemma tables_ok_add:
  assumes t: "tables_ok n over app" and n: "Suc n < 2 ^ 31" and f: "of_nat (Suc n) \<notin> set over"
  shows "tables_ok (Suc n) over (addLocalThread (of_nat (Suc n)) 0 RUNNABLE app)"
    and "tables_ok (Suc n) over (addRemoteThread (of_nat (Suc n)) 0 RUNNABLE app)"
proof -
  let ?g = "of_nat (Suc n) :: i32"
  have none: "localThreads app ?g = None" "remoteThreads app ?g = None"
    using t fresh_gtid [OF n] by (simp_all add: tables_ok_def entry_ok_def del: of_nat_Suc)
  have new: "entry_ok (Suc n) over ?g (Some (Some \<lparr>ltid = 0, state = RUNNABLE\<rparr>)) None"
    "entry_ok (Suc n) over ?g None (Some (Some \<lparr>ltid = 0, state = RUNNABLE\<rparr>))"
    using f by (simp_all add: entry_ok_def created_Suc del: of_nat_Suc)
  have old: "entry_ok (Suc n) over g (localThreads app g) (remoteThreads app g)" if "g \<noteq> ?g" for g
    using t that by (simp add: tables_ok_def entry_ok_Suc del: of_nat_Suc)
  show "tables_ok (Suc n) over (addLocalThread ?g 0 RUNNABLE app)"
    unfolding tables_ok_def
  proof
    show "entry_ok (Suc n) over g (localThreads (addLocalThread ?g 0 RUNNABLE app) g)
            (remoteThreads (addLocalThread ?g 0 RUNNABLE app) g)" for g
      using new(1) none old by (cases "g = ?g") (simp_all add: addLocalThread_def del: of_nat_Suc)
  qed
  show "tables_ok (Suc n) over (addRemoteThread ?g 0 RUNNABLE app)"
    unfolding tables_ok_def
  proof
    show "entry_ok (Suc n) over g (localThreads (addRemoteThread ?g 0 RUNNABLE app) g)
            (remoteThreads (addRemoteThread ?g 0 RUNNABLE app) g)" for g
      using new(2) none old by (cases "g = ?g") (simp_all add: addRemoteThread_def del: of_nat_Suc)
  qed
qed

text \<open>The record of a known thread, and what a write to it keeps.\<close>

lemma known_entry:
  assumes "tables_ok n over app" "g = 0 \<or> g \<in> set (created n)"
  obtains t where "localThreads app g = Some (Some t)" "remoteThreads app g = None" "state t = EXITED \<longleftrightarrow> g \<in> set over"
  | t where "localThreads app g = None" "remoteThreads app g = Some (Some t)" "state t = EXITED \<longleftrightarrow> g \<in> set over"
  using assms unfolding tables_ok_def entry_ok_def by metis

lemma tables_ok_set:
  assumes t: "tables_ok n over app" and g: "g = 0 \<or> g \<in> set (created n)"
    and over': "\<forall>g'. g' \<noteq> g \<longrightarrow> (g' \<in> set over' \<longleftrightarrow> g' \<in> set over)" and x: "state x = EXITED \<longleftrightarrow> g \<in> set over'"
  shows "remoteThreads app g = None \<Longrightarrow> tables_ok n over' (setLocalThread g x app)"
    and "localThreads app g = None \<Longrightarrow> tables_ok n over' (setRemoteThread g x app)"
  using assms unfolding tables_ok_def entry_ok_def setLocalThread_def setRemoteThread_def by auto

lemmas table_ops = inLocalThreads_def inRemoteThreads_def getLocalThread_def getRemoteThread_def

lemma spawn_reply_ok:
  assumes t: "tables_ok n over app" and c: "load64 m me (nt_new_thread nt) = scast g" and g: "g \<in> set (created n)"
  obtains app' where "spawnthread_succ_medhandler me nt l m app = Some app'" "tables_ok n over app'"
proof -
  have id: "ucast (load64 m me (nt_new_thread nt)) = g" by (simp add: c gtid_roundtrip)
  from t g show ?thesis
  proof (cases rule: known_entry [OF t disjI2 [OF g]])
    case (1 r)
    let ?r = "r\<lparr>ltid := l, state := (if state r = RUNNABLE then RUNNING else state r)\<rparr>"
    have "spawnthread_succ_medhandler me nt l m app = Some (setLocalThread g ?r app)"
      using 1 by (simp add: spawnthread_succ_medhandler_def id table_ops Let_def)
    moreover have "tables_ok n over (setLocalThread g ?r app)"
      using t g 1 by (intro tables_ok_set) auto
    ultimately show ?thesis by (rule that)
  next
    case (2 r)
    let ?r = "r\<lparr>ltid := l, state := (if state r = RUNNABLE then RUNNING else state r)\<rparr>"
    have "spawnthread_succ_medhandler me nt l m app = Some (setRemoteThread g ?r app)"
      using 2 by (simp add: spawnthread_succ_medhandler_def id table_ops Let_def)
    moreover have "tables_ok n over (setRemoteThread g ?r app)"
      using t g 2 by (intro tables_ok_set) auto
    ultimately show ?thesis by (rule that)
  qed
qed

lemma exit_notice_ok:
  assumes t: "tables_ok n over app" and g: "g \<in> set (created n)"
  obtains app' where "threadexited_shrthandler src g EXITED app = Some (app', (src, ThreadExited_succ g EXITED))"
    "tables_ok n (over @ [g]) app'"
  using t g
proof (cases rule: known_entry [OF t disjI2 [OF g]])
  case (1 r)
  have "tables_ok n (over @ [g]) (setLocalThread g (r\<lparr>state := EXITED\<rparr>) app)"
    using t g 1 by (intro tables_ok_set [where over = over]) auto
  with 1 show ?thesis by (intro that) (simp_all add: threadexited_shrthandler_def table_ops)
next
  case (2 r)
  have "tables_ok n (over @ [g]) (setRemoteThread g (r\<lparr>state := EXITED\<rparr>) app)"
    using t g 2 by (intro tables_ok_set [where over = over]) auto
  with 2 show ?thesis by (intro that) (simp_all add: threadexited_shrthandler_def table_ops)
qed

subsection \<open>The invariant is kept\<close>

lemma init_ok: "threads_ok [] (system_init nodes m)"
  by (simp add: threads_ok_def system_init_def spawner_new_def life_def created_def tables_ok_def entry_ok_def
      addLocalThread_def application_new_def handles_ok_def)

lemma life_created: "threads_ok cells s \<Longrightarrow> set (life s) = set (created (length cells))"
  unfolding threads_ok_def by (metis set_mset_mset)

lemma reported_life: "g \<in> set (reported s) \<Longrightarrow> g \<in> set (life s)"
  by (simp add: life_def)

lemma net_life: "(n, msg) \<in> set (net s) \<Longrightarrow> g \<in> set (life_msg msg) \<Longrightarrow> g \<in> set (life s)"
  by (force simp: life_def)

lemma handles_ok_store:
  assumes "handles_ok cells m" "list_all (\<lambda>c. apart 0 cell 8 0 c 8) cells"
  shows "handles_ok (cells @ [cell]) (store64 m 0 cell (scast (of_nat (Suc (length cells)) :: i32)))"
  unfolding handles_ok_def
proof (intro allI impI)
  fix i assume i: "i < length (cells @ [cell])"
  show "load64 (store64 m 0 cell (scast (of_nat (Suc (length cells)) :: i32))) 0 ((cells @ [cell]) ! i)
    = scast (of_nat (Suc i) :: i32)"
  proof (cases "i < length cells")
    case True
    with assms have "apart 0 cell 8 0 (cells ! i) 8" by (simp add: list_all_length)
    with True assms(1) show ?thesis
      by (simp add: nth_append handles_ok_def load_store64_apart del: of_nat_Suc)
  next
    case False
    with i have "i = length cells" by simp
    then show ?thesis by (simp add: nth_append load_store64_same del: of_nat_Suc)
  qed
qed

lemma msg_ok_mono: "set cells \<subseteq> set cells' \<Longrightarrow> set r \<subseteq> set r' \<Longrightarrow> msg_ok cells r nm \<Longrightarrow> msg_ok cells' r' nm"
  by (auto simp: msg_ok_def split: message.splits)

lemma create_ok:
  assumes ok: "threads_ok cells s" and n: "Suc (length cells) < 2 ^ 31"
    and apart: "list_all (\<lambda>c. apart 0 cell 8 0 c 8) cells"
    and c: "dstm_pthread_create 0 cell routine arg (Some (spn s)) (apps s 0) (smem s) = Some (0, Some sp, app, m, msgs)"
  shows "threads_ok (cells @ [cell]) (s\<lparr>spn := sp, apps := (apps s)(0 := app), smem := m, net := net s @ msgs, asked := as\<rparr>)"
proof -
  let ?g = "of_nat (Suc (length cells)) :: i32"
  let ?nt = "\<lparr>nt_new_thread = cell, nt_start_routine = routine, nt_arg = arg\<rparr>"
  obtain v lb where v: "getVictim (loadBalancer (spn s)) = (v, lb)" by force
  have g: "next_gtid (spn s) = ?g" using ok by (simp add: threads_ok_def)
  have fresh: "?g \<notin> set (reported s)"
    using fresh_gtid [OF n] life_created [OF ok] reported_life [of ?g s] by blast
  have eq: "sp = spn s\<lparr>next_gtid := ?g + 1, loadBalancer := lb\<rparr>" "m = store64 (smem s) 0 cell (scast ?g)"
    "msgs = [(nat v, SpawnThread 0 ?nt ?g)]"
    "app = (if v = 0 then addLocalThread ?g 0 RUNNABLE (apps s 0) else addRemoteThread ?g 0 RUNNABLE (apps s 0))"
    using c g v by (auto simp: dstm_pthread_create_def spawnThread_def getNextGTID_def Let_def split: if_splits)
  have tab: "tables_ok (Suc (length cells)) (reported s) app"
    using ok tables_ok_add [OF _ n fresh] by (simp add: threads_ok_def eq del: of_nat_Suc)
  have old: "list_all (msg_ok (cells @ [cell]) (ran s)) (net s)"
    using ok msg_ok_mono [of cells "cells @ [cell]" "ran s" "ran s"] unfolding threads_ok_def
    by (simp add: list_all_iff subset_iff)
  have new: "msg_ok (cells @ [cell]) (ran s) (nat v, SpawnThread 0 ?nt ?g)"
    by (simp add: msg_ok_def)
  have "mset (life (s\<lparr>spn := sp, apps := (apps s)(0 := app), smem := m, net := net s @ msgs, asked := as\<rparr>))
      = add_mset ?g (mset (life s))"
    by (simp add: life_def eq life_msg_def del: of_nat_Suc)
  moreover have "?g + 1 = of_nat (Suc (Suc (length cells)))" by simp
  ultimately show ?thesis using ok n tab old new handles_ok_store [OF _ apart, of "smem s"]
    unfolding threads_ok_def by (simp add: eq(1-3) created_Suc del: of_nat_Suc)
qed

lemma user_ok:
  assumes "threads_ok cells s" "list_all (\<lambda>c. load64 m 0 c = load64 (smem s) 0 c) cells"
  shows "threads_ok cells (s\<lparr>smem := m\<rparr>)"
  using assms by (simp add: threads_ok_def life_def handles_ok_def list_all_length)

text \<open>Each message that arrives is handled, and the invariant is kept.\<close>

lemma deliver_spawn_ok:
  assumes ok: "threads_ok cells s" and net: "net s = xs @ (n, SpawnThread src nt g) # ys"
  obtains s' where "deliver_step n (SpawnThread src nt g) (xs @ ys) s = Some s'" "threads_ok cells s'"
proof -
  have src: "src = 0" and nt: "nt_new_thread nt \<in> set cells"
    using ok by (simp_all add: threads_ok_def net msg_ok_def)
  obtain l t app where r: "runChildThread n nt 0 g (apps s n) = (l, t, app)" by (metis prod_cases3)
  then have t: "targ_gtid t = g" "targ_mainNode t = 0"
    and app: "n = 0 \<Longrightarrow> localThreads app = localThreads (apps s 0) \<and> remoteThreads app = remoteThreads (apps s 0)"
    by (auto simp: runChildThread_def getNextLTID_def Let_def split: if_splits)
  let ?s = "s\<lparr>apps := (apps s)(n := app), net := (xs @ ys) @ [(0, SpawnThread_succ nt l)],
    pending := pending s @ [(n, t)]\<rparr>"
  have "deliver_step n (SpawnThread src nt g) (xs @ ys) s = Some ?s"
    by (simp add: deliver_step_def deliver_def spawnthread_medhandler_def src r exit_notices_def)
  moreover have "mset (life ?s) = mset (life s)"
    by (simp add: life_def net t life_msg_def)
  then have "threads_ok cells ?s"
    using ok app tables_ok_cong [of app "apps s 0"] unfolding threads_ok_def
    by (simp add: net t nt msg_ok_def)
  ultimately show ?thesis by (rule that)
qed

lemma deliver_reply_ok:
  assumes ok: "threads_ok cells s" and net: "net s = xs @ (n, SpawnThread_succ nt l) # ys"
  obtains s' where "deliver_step n (SpawnThread_succ nt l) (xs @ ys) s = Some s'" "threads_ok cells s'"
proof -
  have n: "n = 0" and nt: "nt_new_thread nt \<in> set cells" and tab: "tables_ok (length cells) (reported s) (apps s 0)"
    using ok by (simp_all add: threads_ok_def net msg_ok_def)
  from nt obtain i where i: "i < length cells" "nt_new_thread nt = cells ! i" by (metis in_set_conv_nth)
  then have load: "load64 (smem s) 0 (nt_new_thread nt) = scast (of_nat (Suc i) :: i32)"
    using ok by (simp add: threads_ok_def handles_ok_def)
  have "of_nat (Suc i) \<in> set (created (length cells))"
    unfolding created_def set_map using i(1) by (intro imageI) (simp del: upt_Suc)
  from spawn_reply_ok [OF tab load this] obtain app where app:
    "spawnthread_succ_medhandler 0 nt l (smem s) (apps s 0) = Some app" "tables_ok (length cells) (reported s) app" .
  let ?s = "s\<lparr>apps := (apps s)(0 := app), net := xs @ ys\<rparr>"
  have "deliver_step n (SpawnThread_succ nt l) (xs @ ys) s = Some ?s"
    by (simp add: deliver_step_def deliver_def app n exit_notices_def)
  moreover have "life ?s = life s" by (simp add: life_def net life_msg_def)
  then have "threads_ok cells ?s"
    using ok app unfolding threads_ok_def by (simp add: net)
  ultimately show ?thesis by (rule that)
qed

lemma deliver_exit_ok:
  assumes ok: "threads_ok cells s" and net: "net s = xs @ (n, ThreadExited src g st) # ys"
  obtains s' where "deliver_step n (ThreadExited src g st) (xs @ ys) s = Some s'" "threads_ok cells s'"
proof -
  have n: "n = 0" "st = EXITED" "g \<in> fst ` set (ran s)" and tab: "tables_ok (length cells) (reported s) (apps s 0)"
    using ok by (simp_all add: threads_ok_def net msg_ok_def)
  have "g \<in> set (created (length cells))"
    using net_life [of n "ThreadExited src g st" s g] life_created [OF ok] by (simp add: net life_msg_def)
  from exit_notice_ok [OF tab this] obtain app where app:
    "threadexited_shrthandler src g EXITED (apps s 0) = Some (app, (src, ThreadExited_succ g EXITED))"
    "tables_ok (length cells) (reported s @ [g]) app" .
  let ?s = "s\<lparr>apps := (apps s)(0 := app), net := (xs @ ys) @ [(src, ThreadExited_succ g EXITED)],
    reported := reported s @ [g]\<rparr>"
  have "deliver_step n (ThreadExited src g st) (xs @ ys) s = Some ?s"
    by (simp add: deliver_step_def deliver_def app n exit_notices_def)
  moreover have "mset (life ?s) = mset (life s)" by (simp add: life_def net life_msg_def)
  then have "threads_ok cells ?s"
    using ok app n unfolding threads_ok_def by (simp add: net msg_ok_def)
  ultimately show ?thesis by (rule that)
qed

lemma deliver_exit_reply_ok:
  assumes ok: "threads_ok cells s" and net: "net s = xs @ (n, ThreadExited_succ g st) # ys"
  obtains s' where "deliver_step n (ThreadExited_succ g st) (xs @ ys) s = Some s'" "threads_ok cells s'"
proof -
  let ?s = "s\<lparr>net := xs @ ys\<rparr>"
  have "deliver_step n (ThreadExited_succ g st) (xs @ ys) s = Some ?s"
    by (simp add: deliver_step_def deliver_def threadexited_succ_shrthandler_def exit_notices_def)
  moreover have "life ?s = life s" by (simp add: life_def net life_msg_def)
  then have "threads_ok cells ?s" using ok unfolding threads_ok_def by (simp add: net)
  ultimately show ?thesis by (rule that)
qed

lemma deliver_ok:
  assumes "threads_ok cells s" "net s = xs @ (n, msg) # ys"
  obtains s' where "deliver_step n msg (xs @ ys) s = Some s'" "threads_ok cells s'"
proof (cases msg)
  case SpawnThread
  with assms deliver_spawn_ok that show ?thesis by metis
next
  case SpawnThread_succ
  with assms deliver_reply_ok that show ?thesis by metis
next
  case ThreadExited
  with assms deliver_exit_ok that show ?thesis by metis
next
  case ThreadExited_succ
  with assms deliver_exit_reply_ok that show ?thesis by metis
qed

lemma call_tables: "jobChild_call ee t app = (f, app') \<Longrightarrow>
    localThreads app' = localThreads app \<and> remoteThreads app' = remoteThreads app"
  by (auto simp: jobChild_call_def Let_def split: option.splits if_splits)

lemma step_ok: "thread_step ee s s' \<Longrightarrow> threads_ok cells s \<Longrightarrow> threads_ok cells s'"
proof (induction rule: thread_step.cases)
  case (deliver s xs n msg ys s')
  then show ?case using deliver_ok [of cells s xs n msg ys] by fastforce
next
  case (call s xs n t ys f app)
  let ?s = "s\<lparr>apps := (apps s)(n := app), pending := xs @ ys, running := (n, t, f) # running s\<rparr>"
  have "mset (life ?s) = mset (life s)" using call by (simp add: life_def)
  moreover have "tables_ok (length cells) (reported s) (apps ?s 0)"
    using call call_tables [OF call(4)] tables_ok_cong [of app "apps s 0"] by (simp add: threads_ok_def)
  ultimately show ?case using call unfolding threads_ok_def by simp
next
  case (exit s xs n t f ys)
  let ?s = "s\<lparr>running := xs @ ys, net := net s @ [jobChild_exit n t], ran := (targ_gtid t, f) # ran s\<rparr>"
  have "mset (life ?s) = mset (life s)" using exit by (simp add: life_def jobChild_exit_def life_msg_def)
  moreover have "list_all (msg_ok cells (ran ?s)) (net ?s)"
    using exit msg_ok_mono [of cells cells "ran s" "ran ?s"] unfolding threads_ok_def
    by (auto simp: list_all_iff msg_ok_def jobChild_exit_def)
  ultimately show ?case using exit unfolding threads_ok_def by auto
qed

lemma reachable_ok: "reachable ee nodes cells s \<Longrightarrow> threads_ok cells s"
proof (induction rule: reachable.induct)
  case (init m)
  show ?case by (rule init_ok)
next
  case (create cells s cell routine arg sp app m msgs)
  then show ?case by (intro create_ok) auto
next
  case (user cells s m)
  then show ?case by (intro user_ok)
next
  case (step cells s s')
  then show ?case by (blast intro: step_ok)
qed

text \<open>
  C10. In every reachable state each created thread is at exactly one place: its request is in
  flight, it waits for its start, it runs, the report of its exit is in flight, or the main
  node knows that it has exited.  No thread is lost and none is started twice.
\<close>

theorem each_thread_once:
  assumes "reachable ee nodes cells s"
  shows "distinct (life s) \<and> set (life s) = set (created (length cells))"
proof -
  from assms have ok: "threads_ok cells s" by (rule reachable_ok)
  have "inj_on (of_nat :: nat \<Rightarrow> i32) {1..<Suc (length cells)}"
    using ok of_nat_i32_inj by (auto simp: inj_on_def threads_ok_def)
  then have "distinct (created (length cells))" by (simp add: created_def distinct_map del: upt_Suc)
  moreover have "mset (life s) = mset (created (length cells))" using ok by (simp add: threads_ok_def)
  ultimately show ?thesis using life_created [OF ok] mset_eq_imp_distinct_iff by blast
qed

text \<open>A program that has created one thread, on a system of two nodes.\<close>

definition example_system :: system where
  "example_system =
     (case dstm_pthread_create 0 0x1000 ''worker'' 0 (Some (spn (system_init 2 (\<lambda>_ _. 0))))
        (apps (system_init 2 (\<lambda>_ _. 0)) 0) (\<lambda>_ _. 0) of
        Some (_, Some sp, app, m, msgs) \<Rightarrow>
          (system_init 2 (\<lambda>_ _. 0))\<lparr>spn := sp, apps := (apps (system_init 2 (\<lambda>_ _. 0)))(0 := app), smem := m,
            net := msgs, asked := [(1, ''worker'')]\<rparr>
      | _ \<Rightarrow> system_init 2 (\<lambda>_ _. 0))"

lemma example_reachable: "reachable (Some ((=) ''worker'')) 2 [0x1000] example_system"
proof -
  let ?i = "system_init 2 (\<lambda>_ _. 0)"
  obtain sp app m msgs where c: "dstm_pthread_create 0 0x1000 ''worker'' 0 (Some (spn ?i)) (apps ?i 0) (smem ?i)
      = Some (0, Some sp, app, m, msgs)"
    by (cases "spawnThread 0 \<lparr>nt_new_thread = 0x1000, nt_start_routine = ''worker'', nt_arg = 0\<rparr> (spn ?i) (apps ?i 0) (smem ?i)")
      (simp add: dstm_pthread_create_def)
  from reachable.create [OF reachable.init _ _ this, of "Some ((=) ''worker'')"] c show ?thesis
    by (simp add: example_system_def) (simp add: system_init_def spawner_new_def)
qed

theorem each_thread_once_witness:
  "distinct (life example_system) \<and> set (life example_system) = set (created (length [0x1000 :: u64]))"
  by (rule each_thread_once [OF example_reachable])

text \<open>
  C13. In a reachable state every message in flight is handled without an access through a null
  pointer, and the order in which the messages arrive does not matter: the records that the
  handlers look up are always there.
\<close>

theorem handlers_never_fail:
  assumes "reachable ee nodes cells s" "net s = xs @ (n, msg) # ys"
  shows "\<exists>s'. deliver_step n msg (xs @ ys) s = Some s' \<and> reachable ee nodes cells s'"
  using deliver_ok [OF reachable_ok [OF assms(1)] assms(2)] reachable.step [OF assms(1)]
    thread_step.deliver [OF assms(2)] by metis

theorem handlers_never_fail_witness:
  "\<exists>s'. deliver_step 0 (SpawnThread 0 \<lparr>nt_new_thread = 0x1000, nt_start_routine = ''worker'', nt_arg = 0\<rparr> 1) ([] @ [])
     example_system = Some s' \<and> reachable (Some ((=) ''worker'')) 2 [0x1000] s'"
  by (rule handlers_never_fail [OF example_reachable])
    (simp add: example_system_def dstm_pthread_create_def spawnThread_def getNextGTID_def getVictim_def
      system_init_def spawner_new_def balancer_new_def Let_def)

subsection \<open>The functions that are called\<close>

text \<open>
  Requests and waiting threads carry the routine that was asked for.  A node keeps one function
  for all of its threads, and a thread runs none only when there is no engine or the engine does
  not know a routine.
\<close>

definition called_ok :: "(string \<Rightarrow> bool) option \<Rightarrow> (i32 \<times> string) list \<Rightarrow> string option \<Rightarrow> bool" where
  "called_ok ee as f \<longleftrightarrow> (case f of
       Some r \<Rightarrow> r \<in> snd ` set as
     | None \<Rightarrow> (case ee of None \<Rightarrow> True | Some known \<Rightarrow> \<exists>r \<in> snd ` set as. \<not> known r))"

definition request_ok :: "(i32 \<times> string) list \<Rightarrow> nat \<times> message \<Rightarrow> bool" where
  "request_ok as nm = (case snd nm of SpawnThread src nt g \<Rightarrow> (g, nt_start_routine nt) \<in> set as | _ \<Rightarrow> True)"

definition funcs_ok :: "(string \<Rightarrow> bool) option \<Rightarrow> system \<Rightarrow> bool" where
  "funcs_ok ee s \<longleftrightarrow>
     list_all (request_ok (asked s)) (net s) \<and>
     list_all (\<lambda>(n, t). (targ_gtid t, targ_func t) \<in> set (asked s)) (pending s) \<and>
     (\<forall>n r. pfn_c (apps s n) = Some r \<longrightarrow> r \<in> snd ` set (asked s)) \<and>
     list_all (\<lambda>(n, t, f). called_ok ee (asked s) f) (running s) \<and>
     list_all (\<lambda>(g, f). called_ok ee (asked s) f) (ran s)"

lemma called_ok_mono: "set as \<subseteq> set as' \<Longrightarrow> called_ok ee as f \<Longrightarrow> called_ok ee as' f"
  by (auto simp: called_ok_def split: option.splits)

lemma deliver_funcs:
  assumes "deliver n msg m app = Some (app', started, replies)" "request_ok as (n, msg)"
  shows "pfn_c app' = pfn_c app" "list_all (request_ok as) replies"
    "list_all (\<lambda>t. (targ_gtid t, targ_func t) \<in> set as) started"
  using assms
  by (auto simp: deliver_def request_ok_def spawnthread_medhandler_def runChildThread_def getNextLTID_def addLocalThread_def
      spawnthread_succ_medhandler_def threadexited_shrthandler_def threadexited_succ_shrthandler_def setLocalThread_def
      setRemoteThread_def getLocalThread_def getRemoteThread_def Let_def
      split: message.splits option.splits if_splits prod.splits)

lemma call_funcs:
  assumes "jobChild_call ee t app = (f, app')" "(targ_gtid t, targ_func t) \<in> set as"
    and "\<And>r. pfn_c app = Some r \<Longrightarrow> r \<in> snd ` set as"
  shows "called_ok ee as f" "pfn_c app' = Some r \<Longrightarrow> r \<in> snd ` set as"
  using assms
  by (force simp: jobChild_call_def called_ok_def Let_def split: option.splits if_splits)+

lemma step_funcs: "thread_step ee s s' \<Longrightarrow> funcs_ok ee s \<Longrightarrow> funcs_ok ee s' \<and> asked s' = asked s"
proof (induction rule: thread_step.cases)
  case (deliver s xs n msg ys s')
  then obtain app started replies where d: "deliver n msg (smem s) (apps s n) = Some (app, started, replies)"
    and s': "s' = s\<lparr>apps := (apps s)(n := app), net := (xs @ ys) @ replies,
                  pending := pending s @ map (Pair n) started, reported := reported s @ exit_notices msg\<rparr>"
    by (auto simp: deliver_step_def split: option.splits)
  have "request_ok (asked s) (n, msg)" using deliver by (simp add: funcs_ok_def)
  from deliver_funcs [OF d this] show ?case using deliver(1-3,5) by (auto simp: funcs_ok_def s' list_all_iff)
next
  case (call s xs n t ys f app)
  have "(targ_gtid t, targ_func t) \<in> set (asked s)" "\<And>r. pfn_c (apps s n) = Some r \<Longrightarrow> r \<in> snd ` set (asked s)"
    using call by (auto simp: funcs_ok_def)
  from call_funcs [OF call(4) this] call(1-3,5) show ?case by (auto simp: funcs_ok_def)
next
  case (exit s xs n t f ys)
  then show ?case by (auto simp: funcs_ok_def request_ok_def jobChild_exit_def)
qed

lemma create_funcs:
  assumes ok: "funcs_ok ee s"
    and c: "dstm_pthread_create 0 cell routine arg (Some (spn s)) (apps s 0) (smem s) = Some (0, Some sp, app, m, msgs)"
  shows "funcs_ok ee (s\<lparr>spn := sp, apps := (apps s)(0 := app), smem := m, net := net s @ msgs,
    asked := asked s @ [(next_gtid (spn s), routine)]\<rparr>)"
proof -
  let ?as = "asked s @ [(next_gtid (spn s), routine)]"
  have "pfn_c app = pfn_c (apps s 0)" and new: "list_all (request_ok ?as) msgs"
    using c by (auto simp: dstm_pthread_create_def spawnThread_def getNextGTID_def addLocalThread_def addRemoteThread_def
        request_ok_def Let_def split: if_splits prod.splits)
  moreover have "list_all (request_ok ?as) (net s)"
    using ok by (auto simp: funcs_ok_def list_all_iff request_ok_def split: message.splits)
  moreover have "called_ok ee (asked s) f \<Longrightarrow> called_ok ee ?as f" for f
    by (rule called_ok_mono) auto
  ultimately show ?thesis using ok by (fastforce simp: funcs_ok_def list_all_iff)
qed

lemma reachable_funcs: "reachable ee nodes cells s \<Longrightarrow> funcs_ok ee s"
proof (induction rule: reachable.induct)
  case (init m)
  show ?case by (simp add: funcs_ok_def system_init_def application_new_def addLocalThread_def)
next
  case (create cells s cell routine arg sp app m msgs)
  then show ?case by (intro create_funcs)
next
  case (user cells s m)
  then show ?case by (simp add: funcs_ok_def)
next
  case (step cells s s')
  then show ?case by (blast dest: step_funcs)
qed

text \<open>What a look at the tables tells a thread that waits for the \<open>i\<close>-th created thread.\<close>

lemma join_look:
  assumes ok: "threads_ok cells s" and i: "i < length cells"
  shows "(\<exists>r. joinThread (load64 (smem s) 0 (cells ! i)) [apps s 0] = Returned r) \<longleftrightarrow>
    of_nat (Suc i) \<in> set (reported s)"
proof -
  have id: "ucast (load64 (smem s) 0 (cells ! i)) = (of_nat (Suc i) :: i32)"
    using ok i gtid_roundtrip by (simp add: threads_ok_def handles_ok_def)
  have "(of_nat (Suc i) :: i32) \<in> set (created (length cells))"
    unfolding created_def set_map using i by (intro imageI) (simp del: upt_Suc)
  then have known: "of_nat (Suc i) = (0 :: i32) \<or> (of_nat (Suc i) :: i32) \<in> set (created (length cells))" ..
  have tab: "tables_ok (length cells) (reported s) (apps s 0)" using ok by (simp add: threads_ok_def)
  show ?thesis
  proof (rule known_entry [OF tab known])
    fix t assume "localThreads (apps s 0) (of_nat (Suc i)) = Some (Some t)" "remoteThreads (apps s 0) (of_nat (Suc i)) = None"
      "(state t = EXITED) = (of_nat (Suc i) \<in> set (reported s))"
    then show ?thesis
      by (cases "state t = EXITED") (simp_all add: joinThread_def id table_ops exited_def del: of_nat_Suc)
  next
    fix t assume "localThreads (apps s 0) (of_nat (Suc i)) = None" "remoteThreads (apps s 0) (of_nat (Suc i)) = Some (Some t)"
      "(state t = EXITED) = (of_nat (Suc i) \<in> set (reported s))"
    then show ?thesis
      by (cases "state t = EXITED") (simp_all add: joinThread_def id table_ops exited_def del: of_nat_Suc)
  qed
qed

lemma wf_thread_step: "wf {(s', s). thread_step ee s s'}"
  by (rule wf_subset [OF wf_measure [of weight]]) (auto dest: step_weight)

text \<open>
  C14. Every run of the nodes, whatever the order of the messages and of the child threads, ends.
\<close>

theorem thread_runs_end: "wf {(s', s). thread_step ee s s'}"
  by (rule wf_thread_step)

lemma stuck_quiet:
  assumes "threads_ok cells s" "\<nexists>s'. thread_step ee s s'"
  shows "net s = [] \<and> pending s = [] \<and> running s = []"
proof (intro conjI)
  show "net s = []"
  proof (rule ccontr)
    assume "net s \<noteq> []"
    then obtain n msg ys where n: "net s = [] @ (n, msg) # ys" by (cases "net s") auto
    obtain s' where "deliver_step n msg ([] @ ys) s = Some s'" by (rule deliver_ok [OF assms(1) n])
    from thread_step.deliver [OF n this] assms(2) show False by blast
  qed
  show "pending s = []"
  proof (rule ccontr)
    assume "pending s \<noteq> []"
    then obtain n t ys where p: "pending s = [] @ (n, t) # ys" by (cases "pending s") auto
    obtain f app where "jobChild_call ee t (apps s n) = (f, app)" by force
    from thread_step.call [OF p this] assms(2) show False by blast
  qed
  show "running s = []"
  proof (rule ccontr)
    assume "running s \<noteq> []"
    then obtain n t f ys where r: "running s = [] @ (n, t, f) # ys" by (cases "running s") auto
    from thread_step.exit [OF r] assms(2) show False by blast
  qed
qed

text \<open>
  C12. When nothing is left to do on the nodes, every join returns: no wait is for ever, provided
  the functions of the threads return and messages arrive.
\<close>

theorem joins_open_at_end:
  assumes r: "reachable ee nodes cells s" and stuck: "\<nexists>s'. thread_step ee s s'" and i: "i < length cells"
  shows "\<exists>polls. joinThread (load64 (smem s) 0 (cells ! i)) [apps s 0] = Returned polls"
proof -
  from r have ok: "threads_ok cells s" by (rule reachable_ok)
  have "life s = reported s" using stuck_quiet [OF ok stuck] by (simp add: life_def)
  with life_created [OF ok] have "set (reported s) = set (created (length cells))" by simp
  moreover have "(of_nat (Suc i) :: i32) \<in> set (created (length cells))"
    unfolding created_def set_map using i by (intro imageI) (simp del: upt_Suc)
  ultimately show ?thesis using join_look [OF ok i] by simp
qed

lemma reaches_end:
  "reachable ee nodes cells s \<Longrightarrow> \<exists>s'. reachable ee nodes cells s' \<and> (\<nexists>s''. thread_step ee s' s'') \<and> asked s' = asked s"
proof (induction s rule: wf_induct_rule [OF wf_thread_step [of ee]])
  case (1 s)
  show ?case
  proof (cases "\<exists>s'. thread_step ee s s'")
    case True
    then obtain s' where s': "thread_step ee s s'" ..
    from 1(1) [of s'] s' reachable.step [OF 1(2) s'] step_funcs [OF s' reachable_funcs [OF 1(2)]] show ?thesis by auto
  next
    case False
    with 1(2) show ?thesis by blast
  qed
qed

text \<open>
  C11. A join returns at a look at the tables exactly when the exit of the thread has been reported
  to the main node, and a late reply to the creation does not open or close it again.  By then
  the thread is past its call of the user's function, which has returned.  When there is an execution
  engine that knows all the start routines the program has created threads with, this function
  is one of these start routines, so it is the thread's own when all threads have the same one.
  (With different ones it may be the function of another thread, as \<open>jobChild_reuses_function\<close>
  shows; without an engine, or with an unknown routine, there may be no function to call.)
\<close>

theorem join_after_return:
  assumes "reachable ee nodes cells s" "i < length cells"
  shows "((\<exists>r. joinThread (load64 (smem s) 0 (cells ! i)) [apps s 0] = Returned r) \<longleftrightarrow>
      of_nat (Suc i) \<in> set (reported s)) \<and>
    (of_nat (Suc i) \<in> set (reported s) \<longrightarrow>
      (\<exists>f. (of_nat (Suc i), f) \<in> set (ran s) \<and>
        (\<forall>known. ee = Some known \<and> (\<forall>r \<in> snd ` set (asked s). known r) \<longrightarrow> (\<exists>r \<in> snd ` set (asked s). f = Some r))))"
proof -
  from assms have ok: "threads_ok cells s" by (intro reachable_ok)
  have called: "\<forall>known. ee = Some known \<and> (\<forall>r \<in> snd ` set (asked s). known r) \<longrightarrow> (\<exists>r \<in> snd ` set (asked s). f = Some r)"
    if "(g, f) \<in> set (ran s)" for g f
  proof -
    have "called_ok ee (asked s) f" using reachable_funcs [OF assms(1)] that by (auto simp: funcs_ok_def list_all_iff)
    then show ?thesis by (auto simp: called_ok_def split: option.splits)
  qed
  have ran: "\<exists>f. (g, f) \<in> set (ran s)" if "g \<in> set (reported s)" for g
  proof -
    have "g \<in> fst ` set (ran s)" using ok that by (auto simp: threads_ok_def)
    then show ?thesis by auto
  qed
  show ?thesis
  proof (intro conjI impI)
    show "(\<exists>r. joinThread (load64 (smem s) 0 (cells ! i)) [apps s 0] = Returned r) \<longleftrightarrow> of_nat (Suc i) \<in> set (reported s)"
      by (rule join_look [OF ok assms(2)])
    assume "of_nat (Suc i) \<in> set (reported s)"
    from ran [OF this] obtain f where "(of_nat (Suc i), f) \<in> set (ran s)" ..
    with called [OF this] show "\<exists>f. (of_nat (Suc i), f) \<in> set (ran s) \<and> (\<forall>known. ee = Some known \<and>
        (\<forall>r \<in> snd ` set (asked s). known r) \<longrightarrow> (\<exists>r \<in> snd ` set (asked s). f = Some r))" by (intro exI conjI)
  qed
qed

theorem join_after_return_witness:
  "\<exists>s polls. reachable (Some ((=) ''worker'')) 2 [0x1000] s \<and>
     joinThread (load64 (smem s) 0 ([0x1000] ! 0)) [apps s 0] = Returned polls \<and> 1 \<in> set (reported s) \<and>
     (1, Some ''worker'') \<in> set (ran s)"
proof -
  from reaches_end [OF example_reachable] obtain s where
    s: "reachable (Some ((=) ''worker'')) 2 [0x1000] s" "\<nexists>s'. thread_step (Some ((=) ''worker'')) s s'"
      "asked s = asked example_system" by blast
  note ok = reachable_ok [OF s(1)]
  have "life s = reported s" using stuck_quiet [OF ok s(2)] by (simp add: life_def)
  with life_created [OF ok] have r: "of_nat (Suc 0) \<in> set (reported s)" by (simp add: created_def)
  have a: "snd ` set (asked s) = {''worker''}"
    unfolding s(3) by (simp add: example_system_def dstm_pthread_create_def spawnThread_def getNextGTID_def Let_def split: prod.splits)
  from join_after_return [OF s(1), of 0] r a obtain f polls where
    "(1, f) \<in> set (ran s)" "f = Some ''worker''" "joinThread (load64 (smem s) 0 ([0x1000] ! 0)) [apps s 0] = Returned polls" by auto
  with s(1) r show ?thesis by auto
qed

theorem joins_open_at_end_witness:
  "\<exists>s polls. reachable (Some ((=) ''worker'')) 2 [0x1000] s \<and>
     joinThread (load64 (smem s) 0 ([0x1000] ! 0)) [apps s 0] = Returned polls"
proof -
  from reaches_end [OF example_reachable] obtain s where
    s: "reachable (Some ((=) ''worker'')) 2 [0x1000] s" "\<nexists>s'. thread_step (Some ((=) ''worker'')) s s'" by blast
  with joins_open_at_end [OF s, of 0] show ?thesis by auto
qed

subsection \<open>Placement of threads\<close>

fun victims :: "nat \<Rightarrow> balancer \<Rightarrow> int list" where
  "victims 0 lb = []"
| "victims (Suc k) lb = (let (v, lb) = getVictim lb in v # victims k lb)"

lemma getVictim_mod:
  "- 1 \<le> lastNode lb \<Longrightarrow> lastNode lb < nodesNum lb \<Longrightarrow>
   getVictim lb = ((lastNode lb + 1) mod nodesNum lb, lb\<lparr>lastNode := (lastNode lb + 1) mod nodesNum lb\<rparr>)"
proof -
  assume l: "- 1 \<le> lastNode lb" "lastNode lb < nodesNum lb"
  show ?thesis
  proof (cases "lastNode lb < nodesNum lb - 1")
    case True
    with l show ?thesis by (simp add: getVictim_def)
  next
    case False
    with l have "nodesNum lb = lastNode lb + 1" by simp
    then show ?thesis by (simp add: getVictim_def)
  qed
qed

lemma victims_from:
  "0 < nodesNum lb \<Longrightarrow> - 1 \<le> lastNode lb \<Longrightarrow> lastNode lb < nodesNum lb \<Longrightarrow>
   victims k lb = map (\<lambda>i. (lastNode lb + 1 + int i) mod nodesNum lb) [0..<k]"
proof (induction k arbitrary: lb)
  case (Suc k)
  let ?l = "(lastNode lb + 1) mod nodesNum lb"
  have "- 1 \<le> ?l" "?l < nodesNum lb"
    using Suc.prems(1) by (simp_all add: order_trans [of "- 1" 0])
  then have "victims k (lb\<lparr>lastNode := ?l\<rparr>) = map (\<lambda>i. (?l + 1 + int i) mod nodesNum lb) [0..<k]"
    using Suc.IH [of "lb\<lparr>lastNode := ?l\<rparr>"] Suc.prems(1) by simp
  also have "\<dots> = map (\<lambda>i. (lastNode lb + 1 + int (Suc i)) mod nodesNum lb) [0..<k]"
    by (intro map_cong refl) (simp add: mod_simps add.assoc)
  finally show ?case
    by (simp add: getVictim_mod [OF Suc.prems(2,3)] map_upt_Suc del: upt_Suc)
qed simp

text \<open>
  Threads are placed in turn: the \<open>i\<close>-th thread created goes to node \<open>i mod n\<close>, the first one
  to the main node, so the numbers of threads of two nodes differ by at most one.
\<close>

theorem victims_round_robin:
  "0 < n \<Longrightarrow> victims k (balancer_new n) = map (\<lambda>i. int i mod n) [0..<k]"
  using victims_from [of "balancer_new n" k] by (simp add: balancer_new_def)

theorem victims_round_robin_witness: "victims 5 (balancer_new 3) = map (\<lambda>i. int i mod 3) [0..<5]"
  by (rule victims_round_robin) simp

subsection \<open>Two threads\<close>

text \<open>
  The pointer to the user's function is kept for the whole process: once a node has run a
  thread, every later thread of that node runs the function of the first one, whatever start
  routine it was created with.
\<close>

theorem jobChild_reuses_function:
  assumes "pfn_c app = None" "known (targ_func t)"
    and "jobChild_call (Some known) t app = (f, app')" "jobChild_call (Some known) t' app' = (f', app'')"
  shows "f = Some (targ_func t) \<and> f' = Some (targ_func t)"
  using assms by (auto simp: jobChild_call_def)

theorem jobChild_reuses_function_witness:
  "Some ''reader'' = Some (targ_func \<lparr>targ_mainNode = 0, targ_gtid = 1, targ_func = ''reader'', targ_arg = 0\<rparr>) \<and>
   Some ''reader'' = Some (targ_func \<lparr>targ_mainNode = 0, targ_gtid = 1, targ_func = ''reader'', targ_arg = 0\<rparr>)"
  by (rule jobChild_reuses_function [where app = application_new
        and app' = "application_new\<lparr>pfn_c := Some ''reader''\<rparr>"
        and app'' = "application_new\<lparr>pfn_c := Some ''reader''\<rparr>" and known = "\<lambda>f. f = ''reader'' \<or> f = ''writer''"
        and t' = "\<lparr>targ_mainNode = 0, targ_gtid = 2, targ_func = ''writer'', targ_arg = 0\<rparr>"])
    (simp_all add: jobChild_call_def application_new_def)

text \<open>
  C15. The reply to a creation finds the thread through the handle variable of the caller.  When the
  variable has been used for another creation before the reply arrives, the reply goes to the
  record of the second thread and the first one stays \<open>RUNNABLE\<close>.
\<close>

theorem spawn_reply_wrong_thread:
  assumes "dstm_pthread_create me cell r1 a1 (Some s) app m = Some (0, Some s1, app1, m1, [(v1, SpawnThread me nt1 g1)])"
    and "dstm_pthread_create me cell r2 a2 (Some s1) app1 m1 = Some (0, Some s2, app2, m2, [(v2, SpawnThread me nt2 g2)])"
    and "\<not> inLocalThreads g2 app" "\<not> inRemoteThreads g2 app"
  shows "\<exists>app3. spawnthread_succ_medhandler me nt1 l m2 app2 = Some app3 \<and> g1 \<noteq> g2 \<and>
    (localThreads app3 g1, remoteThreads app3 g1) = (localThreads app2 g1, remoteThreads app2 g1) \<and>
    (localThreads app3 g2 = Some (Some \<lparr>ltid = l, state = RUNNING\<rparr>) \<or>
     remoteThreads app3 g2 = Some (Some \<lparr>ltid = l, state = RUNNING\<rparr>))"
proof -
  have g: "g1 = next_gtid s" "g2 = g1 + 1" "nt_new_thread nt1 = cell" "next_gtid s1 = g1 + 1"
    and m2: "m2 = store64 m1 me cell (scast g2)"
    using assms(1,2) by (auto simp: dstm_pthread_create_def spawnThread_def getNextGTID_def Let_def
        split: if_splits prod.splits)
  have id: "ucast (load64 m2 me (nt_new_thread nt1)) = g2"
    by (simp add: g(3) m2 load_store64_same gtid_roundtrip)
  have ne: "g1 \<noteq> g2" by (simp add: g(2))
  have one: "app1 = addLocalThread g1 0 RUNNABLE app \<or> app1 = addRemoteThread g1 0 RUNNABLE app"
    using assms(1) by (auto simp: dstm_pthread_create_def spawnThread_def getNextGTID_def Let_def
        split: if_splits prod.splits)
  then have none: "localThreads app1 g2 = None" "remoteThreads app1 g2 = None"
    using assms(3,4) ne by (auto simp: addLocalThread_def addRemoteThread_def table_ops)
  have two: "app2 = addLocalThread g2 0 RUNNABLE app1 \<or> app2 = addRemoteThread g2 0 RUNNABLE app1"
    using assms(2) g(2,4) by (auto simp: dstm_pthread_create_def spawnThread_def getNextGTID_def Let_def
        split: if_splits prod.splits)
  then show ?thesis
  proof
    assume "app2 = addLocalThread g2 0 RUNNABLE app1"
    with none ne show ?thesis
      by (simp add: spawnthread_succ_medhandler_def id table_ops Let_def addLocalThread_def setLocalThread_def)
  next
    assume "app2 = addRemoteThread g2 0 RUNNABLE app1"
    with none ne show ?thesis
      by (simp add: spawnthread_succ_medhandler_def id table_ops Let_def addRemoteThread_def setRemoteThread_def)
  qed
qed

theorem spawn_reply_wrong_thread_witness:
  "\<exists>s2 app2 m2 nt1 app3. dstm_pthread_create 0 0x1000 ''b'' 0
      (fst (snd (the (dstm_pthread_create 0 0x1000 ''a'' 0 (Some (spawner_new (balancer_new 2))) application_new (\<lambda>_ _. 0)))))
      (fst (snd (snd (the (dstm_pthread_create 0 0x1000 ''a'' 0 (Some (spawner_new (balancer_new 2))) application_new (\<lambda>_ _. 0))))))
      (store64 (\<lambda>_ _. 0) 0 0x1000 1) = Some (0, Some s2, app2, m2, [(1, SpawnThread 0 nt1 2)]) \<and>
    spawnthread_succ_medhandler 0 \<lparr>nt_new_thread = 0x1000, nt_start_routine = ''a'', nt_arg = 0\<rparr> 7 m2 app2 = Some app3 \<and>
    (localThreads app3 2 = Some (Some \<lparr>ltid = 7, state = RUNNING\<rparr>) \<or>
     remoteThreads app3 2 = Some (Some \<lparr>ltid = 7, state = RUNNING\<rparr>))"
proof -
  let ?nt = "\<lambda>r. \<lparr>nt_new_thread = 0x1000, nt_start_routine = r, nt_arg = 0\<rparr>"
  let ?s1 = "\<lparr>loadBalancer = \<lparr>nodesNum = 2, lastNode = 0\<rparr>, next_gtid = 2\<rparr>"
  let ?s2 = "\<lparr>loadBalancer = \<lparr>nodesNum = 2, lastNode = 1\<rparr>, next_gtid = 3\<rparr>"
  let ?a1 = "addLocalThread 1 0 RUNNABLE application_new"
  let ?a2 = "addRemoteThread 2 0 RUNNABLE ?a1"
  have 1: "dstm_pthread_create 0 0x1000 ''a'' 0 (Some (spawner_new (balancer_new 2))) application_new (\<lambda>_ _. 0)
      = Some (0, Some ?s1, ?a1, store64 (\<lambda>_ _. 0) 0 0x1000 1, [(0, SpawnThread 0 (?nt ''a'') 1)])"
    by (simp add: dstm_pthread_create_def spawnThread_def getNextGTID_def getVictim_def spawner_new_def balancer_new_def)
  have 2: "dstm_pthread_create 0 0x1000 ''b'' 0 (Some ?s1) ?a1 (store64 (\<lambda>_ _. 0) 0 0x1000 1)
      = Some (0, Some ?s2, ?a2, store64 (store64 (\<lambda>_ _. 0) 0 0x1000 1) 0 0x1000 2, [(1, SpawnThread 0 (?nt ''b'') 2)])"
    by (simp add: dstm_pthread_create_def spawnThread_def getNextGTID_def getVictim_def)
  from spawn_reply_wrong_thread [OF 1 2, of 7] 1 2 show ?thesis
    by (auto simp: table_ops application_new_def)
qed

end
