(* ===== verification/Node_Main.thy ===== *)
theory Node_Main
  imports Stats "HOL-Library.Multiset"
begin

text \<open>
  The program of a node (\<^verbatim>\<open>src/src/dstm_main.cpp\<close>): start, the two barriers, the end of the
  execution that node 0 announces to the others, and the collection of the statistics by
  messages (\<^verbatim>\<open>gasnet_handlers.cpp\<close>, \<^verbatim>\<open>glue.cpp\<close>).  All nodes run in parallel; a step is one
  action of one node, the arrival of one message, or, once a node has called \<^verbatim>\<open>gasnet_exit\<close>, the
  termination of another node: the documented effect of this call is to end the whole job.
\<close>

subsection \<open>The program\<close>

datatype action = App_init | Barrier_notify | Barrier_wait | Run_main | Init_stats | Send_endexec nat
  | Wait_endexec | App_reset | Wait_stats | Print_stats | Exit

text \<open>\<open>st\<close> is the build switch \<^verbatim>\<open>TRANSACTIONS_STATS\<close>.\<close>

definition main_program :: "bool \<Rightarrow> nat \<Rightarrow> nat \<Rightarrow> action list" where
  "main_program st nodes rank =
     (if rank = 0
      then [App_init, Barrier_notify, Barrier_wait, Run_main] @ (if st then [Init_stats] else []) @
           map Send_endexec [1..<nodes] @ [Barrier_notify, Barrier_wait] @
           (if st then [App_reset, Wait_stats, Print_stats] else [])
      else [App_init, Barrier_notify, Barrier_wait, Wait_endexec, Barrier_notify, Barrier_wait] @
           (if st then [App_reset] else [])) @ [Exit]"

datatype job_msg = EndExec | EndExec_succ | NodeStats nat node_stats

text \<open>
  The state of all nodes: the position of each in its program, the barriers it has announced
  (GASNet lets a node pass a barrier when all have announced it), \<^verbatim>\<open>GLOBAL_END_EXECUTION\<close>, the
  counters at the end of the execution, the table and the count of node 0, the messages in
  flight, whether some node has called \<^verbatim>\<open>gasnet_exit\<close> and which processes are gone, and, for the
  statements, what was printed and whose statistics have arrived.
\<close>

record job =
  pc :: "nat \<Rightarrow> nat"
  notified :: "nat \<Rightarrow> nat"
  END_EXECUTION :: "nat \<Rightarrow> bool"
  TRANSACTIONS_STATS :: "nat \<Rightarrow> node_stats"
  nodes_stats :: "node_stats list"
  RETRIVE_STATS :: nat
  job_net :: "(nat \<times> job_msg) list"
  ended :: bool
  gone :: "nat \<Rightarrow> bool"
  printed :: "(string \<times> u32) list list option"
  arrived :: "nat list"

definition job_init :: "(nat \<Rightarrow> node_stats) \<Rightarrow> job" where
  "job_init final = \<lparr>pc = (\<lambda>_. 0), notified = (\<lambda>_. 0), END_EXECUTION = (\<lambda>_. False), TRANSACTIONS_STATS = final,
     nodes_stats = [], RETRIVE_STATS = 0, job_net = [], ended = False, gone = (\<lambda>_. False), printed = None, arrived = []\<rparr>"

text \<open>\<open>sendNodeStats\<close> runs when the application object is destroyed, in \<^verbatim>\<open>_ITM_finalizeProcess\<close>.\<close>

definition sendNodeStats :: "nat \<Rightarrow> node_stats \<Rightarrow> (nat \<times> job_msg) list" where
  "sendNodeStats me ns = [(0, NodeStats me ns)]"

text \<open>One action of node \<open>n\<close>; \<open>None\<close> when it has to wait.\<close>

definition do_action :: "nat \<Rightarrow> nat \<Rightarrow> action \<Rightarrow> job \<Rightarrow> job option" where
  "do_action nodes n a s =
     (case a of
        App_init \<Rightarrow> Some s
      | Barrier_notify \<Rightarrow> Some (s\<lparr>notified := (notified s)(n := notified s n + 1)\<rparr>)
      | Barrier_wait \<Rightarrow> (if list_all (\<lambda>i. notified s n \<le> notified s i) [0..<nodes] then Some s else None)
      | Run_main \<Rightarrow> Some s
      | Init_stats \<Rightarrow> Some (s\<lparr>nodes_stats := init_nodes_stats nodes (nodes_stats s)\<rparr>)
      | Send_endexec i \<Rightarrow> Some (s\<lparr>job_net := job_net s @ [(i, EndExec)]\<rparr>)
      | Wait_endexec \<Rightarrow> (if END_EXECUTION s n then Some s else None)
      | App_reset \<Rightarrow> Some (s\<lparr>job_net := job_net s @ sendNodeStats n (TRANSACTIONS_STATS s n)\<rparr>)
      | Wait_stats \<Rightarrow> (if RETRIVE_STATS s = nodes then Some s else None)
      | Print_stats \<Rightarrow> Some (s\<lparr>printed := Some (print_nodes_stats (nodes_stats s))\<rparr>)
      | Exit \<Rightarrow> Some (s\<lparr>ended := True, gone := (gone s)(n := True)\<rparr>))"

definition endexec_shrthandler :: "nat \<Rightarrow> job \<Rightarrow> job" where
  "endexec_shrthandler n s = s\<lparr>END_EXECUTION := (END_EXECUTION s)(n := True), job_net := job_net s @ [(0, EndExec_succ)]\<rparr>"

definition endexec_succ_shrthandler :: "job \<Rightarrow> job" where
  "endexec_succ_shrthandler s = s"

definition dstmstats_medhandler :: "nat \<Rightarrow> node_stats \<Rightarrow> job \<Rightarrow> job option" where
  "dstmstats_medhandler node ns s =
     (case add_node_to_stat node ns (nodes_stats s) of
        None \<Rightarrow> None
      | Some t \<Rightarrow> Some (s\<lparr>nodes_stats := t, RETRIVE_STATS := RETRIVE_STATS s + 1, arrived := arrived s @ [node]\<rparr>))"

definition handle :: "nat \<Rightarrow> job_msg \<Rightarrow> job \<Rightarrow> job option" where
  "handle n msg s =
     (case msg of
        EndExec \<Rightarrow> Some (endexec_shrthandler n s)
      | EndExec_succ \<Rightarrow> Some (endexec_succ_shrthandler s)
      | NodeStats node ns \<Rightarrow> dstmstats_medhandler node ns s)"

text \<open>A process that is gone neither acts nor handles messages.\<close>

inductive job_step :: "bool \<Rightarrow> nat \<Rightarrow> job \<Rightarrow> job \<Rightarrow> bool" for st nodes where
  act: "n < nodes \<Longrightarrow> \<not> gone s n \<Longrightarrow> pc s n < length (main_program st nodes n) \<Longrightarrow>
    do_action nodes n (main_program st nodes n ! pc s n) s = Some s' \<Longrightarrow>
    job_step st nodes s (s'\<lparr>pc := (pc s')(n := Suc (pc s' n))\<rparr>)"
| msg: "job_net s = xs @ (n, msg) # ys \<Longrightarrow> \<not> gone s n \<Longrightarrow> handle n msg (s\<lparr>job_net := xs @ ys\<rparr>) = Some s' \<Longrightarrow>
    job_step st nodes s s'"
| kill: "ended s \<Longrightarrow> n < nodes \<Longrightarrow> \<not> gone s n \<Longrightarrow> job_step st nodes s (s\<lparr>gone := (gone s)(n := True)\<rparr>)"

inductive job_reach :: "bool \<Rightarrow> nat \<Rightarrow> (nat \<Rightarrow> node_stats) \<Rightarrow> job \<Rightarrow> bool" for st nodes final where
  init: "job_reach st nodes final (job_init final)"
| step: "job_reach st nodes final s \<Longrightarrow> job_step st nodes s s' \<Longrightarrow> job_reach st nodes final s'"

subsection \<open>Positions in the program\<close>

lemma main_length: "0 < nodes \<Longrightarrow> length (main_program True nodes n) = (if n = 0 then nodes + 10 else 8)"
  by (simp add: main_program_def)

lemma main_nth_0:
  assumes "i < nodes + 10" "0 < nodes"
  shows "main_program True nodes 0 ! i =
    (if i = 0 then App_init else if i = 1 then Barrier_notify else if i = 2 then Barrier_wait
     else if i = 3 then Run_main else if i = 4 then Init_stats else if i < nodes + 4 then Send_endexec (i - 4)
     else if i = nodes + 4 then Barrier_notify else if i = nodes + 5 then Barrier_wait
     else if i = nodes + 6 then App_reset else if i = nodes + 7 then Wait_stats
     else if i = nodes + 8 then Print_stats else Exit)"
proof -
  let ?front = "[App_init, Barrier_notify, Barrier_wait, Run_main, Init_stats]"
  let ?rear = "[Barrier_notify, Barrier_wait, App_reset, Wait_stats, Print_stats, Exit]"
  have prog: "main_program True nodes 0 = ?front @ map Send_endexec [1..<nodes] @ ?rear"
    by (simp add: main_program_def)
  consider "i < 5" | "5 \<le> i" "i < nodes + 4" | "nodes + 4 \<le> i" by linarith
  then show ?thesis
  proof cases
    case 1
    then have "i = 0 \<or> i = 1 \<or> i = 2 \<or> i = 3 \<or> i = 4" by auto
    then show ?thesis unfolding prog by (elim disjE) simp_all
  next
    case 2
    then have "main_program True nodes 0 ! i = map Send_endexec [1..<nodes] ! (i - 5)"
      unfolding prog by (simp add: nth_append numeral_eq_Suc)
    also have "\<dots> = Send_endexec (i - 4)" using 2 by (subst nth_map) simp_all
    finally show ?thesis using 2 by simp
  next
    case 3
    with assms have "i - (nodes + 4) < 6" by simp
    then have "i = nodes + 4 \<or> i = nodes + 5 \<or> i = nodes + 6 \<or> i = nodes + 7 \<or> i = nodes + 8 \<or> i = nodes + 9"
      using 3 by linarith
    moreover have len: "length (?front @ map Send_endexec [1..<nodes]) = nodes + 4" using assms by simp
    have "main_program True nodes 0 = (?front @ map Send_endexec [1..<nodes]) @ ?rear" by (simp add: prog)
    then have "main_program True nodes 0 ! i = ?rear ! (i - (nodes + 4))"
      using 3 by (simp only: nth_append len) simp
    ultimately show ?thesis using assms by (elim disjE) simp_all
  qed
qed

lemma main_nth:
  assumes "i < 8" "0 < n"
  shows "main_program True nodes n ! i =
    (if i = 0 then App_init else if i = 1 then Barrier_notify else if i = 2 then Barrier_wait
     else if i = 3 then Wait_endexec else if i = 4 then Barrier_notify else if i = 5 then Barrier_wait
     else if i = 6 then App_reset else Exit)"
proof -
  from assms(1) have "i = 0 \<or> i = 1 \<or> i = 2 \<or> i = 3 \<or> i = 4 \<or> i = 5 \<or> i = 6 \<or> i = 7" by linarith
  with assms(2) show ?thesis unfolding main_program_def by (elim disjE) simp_all
qed

subsection \<open>The invariant\<close>

definition announced :: "nat \<Rightarrow> nat \<Rightarrow> nat \<Rightarrow> nat" where
  "announced nodes n p = (if p \<le> 1 then 0 else if p \<le> (if n = 0 then nodes + 4 else 4) then 1 else 2)"

definition reset_at :: "nat \<Rightarrow> nat \<Rightarrow> nat" where
  "reset_at nodes n = (if n = 0 then nodes + 6 else 6)"

definition pos_ok :: "nat \<Rightarrow> job \<Rightarrow> bool" where
  "pos_ok nodes s \<longleftrightarrow> (\<forall>n < nodes. pc s n \<le> length (main_program True nodes n) \<and> notified s n = announced nodes n (pc s n))"

definition end_ok :: "nat \<Rightarrow> job \<Rightarrow> bool" where
  "end_ok nodes s \<longleftrightarrow> (\<forall>n < nodes. 0 < n \<longrightarrow>
     (END_EXECUTION s n \<or> (n, EndExec) \<in> set (job_net s) \<longleftrightarrow> 4 + n < pc s 0) \<and> (3 < pc s n \<longrightarrow> END_EXECUTION s n))"

definition net_ok :: "nat \<Rightarrow> job \<Rightarrow> bool" where
  "net_ok nodes s \<longleftrightarrow> (\<forall>(d, msg) \<in> set (job_net s). case msg of
      EndExec \<Rightarrow> 0 < d \<and> d < nodes
    | EndExec_succ \<Rightarrow> d = 0
    | NodeStats n ns \<Rightarrow> d = 0 \<and> ns = TRANSACTIONS_STATS s n)"

definition sources :: "job_msg \<Rightarrow> nat list" where
  "sources msg = (case msg of NodeStats n ns \<Rightarrow> [n] | _ \<Rightarrow> [])"

text \<open>The nodes whose statistics are in flight or have arrived are those past their reset.\<close>

definition sent_ok :: "nat \<Rightarrow> job \<Rightarrow> bool" where
  "sent_ok nodes s \<longleftrightarrow> mset (concat (map (sources \<circ> snd) (job_net s)) @ arrived s) =
     mset (filter (\<lambda>n. reset_at nodes n < pc s n) [0..<nodes])"

definition table_ok :: "nat \<Rightarrow> job \<Rightarrow> bool" where
  "table_ok nodes s \<longleftrightarrow> (4 < pc s 0 \<longrightarrow> length (nodes_stats s) = nodes) \<and>
     RETRIVE_STATS s = length (arrived s) \<and>
     (\<forall>n \<in> set (arrived s). nodes_stats s ! n = TRANSACTIONS_STATS s n) \<and>
     (nodes + 7 < pc s 0 \<longrightarrow> length (arrived s) = nodes)"

definition print_ok :: "nat \<Rightarrow> job \<Rightarrow> bool" where
  "print_ok nodes s \<longleftrightarrow>
     printed s = (if nodes + 8 < pc s 0 then Some (print_nodes_stats (map (TRANSACTIONS_STATS s) [0..<nodes])) else None)"

definition job_ok :: "nat \<Rightarrow> job \<Rightarrow> bool" where
  "job_ok nodes s \<longleftrightarrow> pos_ok nodes s \<and> end_ok nodes s \<and> net_ok nodes s \<and> sent_ok nodes s \<and> table_ok nodes s \<and> print_ok nodes s"

lemma init_job_ok: "0 < nodes \<Longrightarrow> job_ok nodes (job_init final)"
  by (simp add: job_ok_def pos_ok_def end_ok_def net_ok_def sent_ok_def table_ok_def print_ok_def job_init_def
      announced_def)

text \<open>No statistics can arrive before the table has its size.\<close>

lemma sent_after_init:
  assumes ok: "job_ok nodes s" and n: "n \<in> set (filter (\<lambda>n. reset_at nodes n < pc s n) [0..<nodes])"
  shows "4 < pc s 0"
proof (cases "n = 0")
  case True
  with n show ?thesis by (simp add: reset_at_def)
next
  case False
  with n have n': "n < nodes" "3 < pc s n" "0 < n" by (simp_all add: reset_at_def)
  with ok have "END_EXECUTION s n" by (simp add: job_ok_def end_ok_def)
  with n' ok have "4 + n < pc s 0" unfolding job_ok_def end_ok_def by blast
  then show ?thesis by simp
qed

lemma sent_mem:
  assumes "job_ok nodes s"
  shows "n \<in> set (arrived s) \<Longrightarrow> n \<in> set (filter (\<lambda>n. reset_at nodes n < pc s n) [0..<nodes])"
    and "(d, NodeStats n ns) \<in> set (job_net s) \<Longrightarrow> n \<in> set (filter (\<lambda>n. reset_at nodes n < pc s n) [0..<nodes])"
proof -
  have "set (concat (map (sources \<circ> snd) (job_net s)) @ arrived s) = set (filter (\<lambda>n. reset_at nodes n < pc s n) [0..<nodes])"
    using assms unfolding job_ok_def sent_ok_def by (metis set_mset_mset)
  moreover have "(d, NodeStats n ns) \<in> set (job_net s) \<Longrightarrow> n \<in> set (concat (map (sources \<circ> snd) (job_net s)))"
    by (force simp: sources_def)
  ultimately show "n \<in> set (arrived s) \<Longrightarrow> n \<in> set (filter (\<lambda>n. reset_at nodes n < pc s n) [0..<nodes])"
    and "(d, NodeStats n ns) \<in> set (job_net s) \<Longrightarrow> n \<in> set (filter (\<lambda>n. reset_at nodes n < pc s n) [0..<nodes])"
    by auto
qed

lemma all_arrived:
  assumes ok: "job_ok nodes s" and all: "length (arrived s) = nodes"
  shows "set (arrived s) = {0..<nodes}" "concat (map (sources \<circ> snd) (job_net s)) = []"
proof -
  let ?in_flight = "concat (map (sources \<circ> snd) (job_net s))"
  let ?sent = "filter (\<lambda>n. reset_at nodes n < pc s n) [0..<nodes]"
  have eq: "mset (?in_flight @ arrived s) = mset ?sent" using ok by (simp add: job_ok_def sent_ok_def)
  then have "length ?in_flight + length (arrived s) = length ?sent"
    by (metis length_append size_mset)
  moreover have "length ?sent \<le> nodes" using length_filter_le [of _ "[0..<nodes]"] by simp
  ultimately have e: "length ?in_flight = 0" "length ?sent = length [0..<nodes]"
    unfolding all length_upt by linarith+
  from e(1) show nil: "?in_flight = []" by (simp only: length_0_conv)
  have "?sent = [0..<nodes]" using e(2) by (metis filter_True length_filter_less nat_less_le)
  with eq nil show "set (arrived s) = {0..<nodes}" by (metis append_Nil set_mset_mset set_upt)
qed

subsection \<open>Every action keeps the invariant\<close>

text \<open>Which action stands where.\<close>

lemma action_at_0:
  assumes "0 < nodes" "i < nodes + 10"
  shows "(main_program True nodes 0 ! i = Barrier_notify \<longleftrightarrow> i = 1 \<or> i = nodes + 4) \<and>
    (main_program True nodes 0 ! i = Send_endexec j \<longleftrightarrow> 4 < i \<and> i < nodes + 4 \<and> i = j + 4) \<and>
    (main_program True nodes 0 ! i = App_reset \<longleftrightarrow> i = nodes + 6) \<and>
    (main_program True nodes 0 ! i = Init_stats \<longleftrightarrow> i = 4) \<and>
    (main_program True nodes 0 ! i = Wait_stats \<longleftrightarrow> i = nodes + 7) \<and>
    (main_program True nodes 0 ! i = Print_stats \<longleftrightarrow> i = nodes + 8) \<and>
    (main_program True nodes 0 ! i = Wait_endexec \<longleftrightarrow> False) \<and>
    (main_program True nodes 0 ! i = Barrier_wait \<longleftrightarrow> i = 2 \<or> i = nodes + 5)"
proof -
  consider "i < 5" | "4 < i" "i < nodes + 4" | "nodes + 4 \<le> i" by linarith
  then show ?thesis
  proof cases
    case 1
    then have "i = 0 \<or> i = 1 \<or> i = 2 \<or> i = 3 \<or> i = 4" by linarith
    then show ?thesis using assms by (elim disjE) (simp_all add: main_nth_0)
  next
    case 2
    then have "main_program True nodes 0 ! i = Send_endexec (i - 4)"
      using assms by (simp add: main_nth_0)
    then show ?thesis using 2 assms by auto
  next
    case 3
    with assms have "i = nodes + 4 \<or> i = nodes + 5 \<or> i = nodes + 6 \<or> i = nodes + 7 \<or> i = nodes + 8 \<or> i = nodes + 9"
      by linarith
    then show ?thesis using assms by (elim disjE) (simp_all add: main_nth_0)
  qed
qed

lemma action_at_1:
  assumes "0 < n" "i < 8"
  shows "(main_program True nodes n ! i = Barrier_notify \<longleftrightarrow> i = 1 \<or> i = 4) \<and>
    (main_program True nodes n ! i = Send_endexec j \<longleftrightarrow> False) \<and>
    (main_program True nodes n ! i = App_reset \<longleftrightarrow> i = 6) \<and>
    (main_program True nodes n ! i = Init_stats \<longleftrightarrow> False) \<and>
    (main_program True nodes n ! i = Wait_stats \<longleftrightarrow> False) \<and>
    (main_program True nodes n ! i = Print_stats \<longleftrightarrow> False) \<and>
    (main_program True nodes n ! i = Wait_endexec \<longleftrightarrow> i = 3) \<and>
    (main_program True nodes n ! i = Barrier_wait \<longleftrightarrow> i = 2 \<or> i = 5)"
proof -
  from assms(2) have "i = 0 \<or> i = 1 \<or> i = 2 \<or> i = 3 \<or> i = 4 \<or> i = 5 \<or> i = 6 \<or> i = 7" by linarith
  with assms(1) show ?thesis by (elim disjE) (simp_all add: main_nth)
qed

lemma action_at:
  assumes "0 < nodes" "i < length (main_program True nodes n)"
  shows "main_program True nodes n ! i = Barrier_notify \<longleftrightarrow> i = 1 \<or> i = (if n = 0 then nodes + 4 else 4)"
    and "main_program True nodes n ! i = Send_endexec j \<longleftrightarrow> n = 0 \<and> 4 < i \<and> i < nodes + 4 \<and> i = j + 4"
    and "main_program True nodes n ! i = App_reset \<longleftrightarrow> i = reset_at nodes n"
    and "main_program True nodes n ! i = Init_stats \<longleftrightarrow> n = 0 \<and> i = 4"
    and "main_program True nodes n ! i = Wait_stats \<longleftrightarrow> n = 0 \<and> i = nodes + 7"
    and "main_program True nodes n ! i = Print_stats \<longleftrightarrow> n = 0 \<and> i = nodes + 8"
    and "main_program True nodes n ! i = Wait_endexec \<longleftrightarrow> n \<noteq> 0 \<and> i = 3"
    and "main_program True nodes n ! i = Barrier_wait \<longleftrightarrow> i = 2 \<or> i = (if n = 0 then nodes + 5 else 5)"
  using assms action_at_0 [of nodes i j] action_at_1 [of n i nodes j]
  by (cases "n = 0"; simp add: main_length reset_at_def)+

lemma do_action_frame:
  assumes "do_action nodes n a s = Some s'"
  shows "pc s' = pc s" "TRANSACTIONS_STATS s' = TRANSACTIONS_STATS s" "END_EXECUTION s' = END_EXECUTION s"
    "RETRIVE_STATS s' = RETRIVE_STATS s" "arrived s' = arrived s"
    and "notified s' = (if a = Barrier_notify then (notified s)(n := notified s n + 1) else notified s)"
    and "job_net s' = job_net s @ (case a of Send_endexec i \<Rightarrow> [(i, EndExec)]
           | App_reset \<Rightarrow> [(0, NodeStats n (TRANSACTIONS_STATS s n))] | _ \<Rightarrow> [])"
    and "nodes_stats s' = (if a = Init_stats then init_nodes_stats nodes (nodes_stats s) else nodes_stats s)"
    and "printed s' = (if a = Print_stats then Some (print_nodes_stats (nodes_stats s)) else printed s)"
    and "ended s' = (ended s \<or> a = Exit)" "gone s' = (if a = Exit then (gone s)(n := True) else gone s)"
  using assms by (cases a; force simp: do_action_def sendNodeStats_def split: if_splits)+

text \<open>Node \<open>n\<close> is able to take its next action, with the result \<open>s'\<close>.\<close>

definition takes_action :: "nat \<Rightarrow> nat \<Rightarrow> job \<Rightarrow> job \<Rightarrow> bool" where
  "takes_action nodes n s s' \<longleftrightarrow> job_ok nodes s \<and> n < nodes \<and> pc s n < length (main_program True nodes n) \<and>
     do_action nodes n (main_program True nodes n ! pc s n) s = Some s'"

lemma takes_action_at:
  assumes "takes_action nodes n s s'"
  shows "0 < nodes" "pc s n < length (main_program True nodes n)"
  using assms by (auto simp: takes_action_def)

lemmas at = action_at [OF takes_action_at]

lemma takes_action_frame:
  "takes_action nodes n s s' \<Longrightarrow> do_action nodes n (main_program True nodes n ! pc s n) s = Some s'"
  by (simp add: takes_action_def)

lemmas frame = do_action_frame [OF takes_action_frame]

lemma act_pos_ok:
  assumes t: "takes_action nodes n s s'"
  shows "pos_ok nodes (s'\<lparr>pc := (pc s')(n := Suc (pc s' n))\<rparr>)"
proof -
  have "announced nodes n (Suc (pc s n)) =
      announced nodes n (pc s n) + (if main_program True nodes n ! pc s n = Barrier_notify then 1 else 0)"
    unfolding at(1) [OF t t] announced_def using takes_action_at [OF t] by auto
  with t show ?thesis by (auto simp: takes_action_def job_ok_def pos_ok_def frame [OF t])
qed

lemma act_end_ok:
  assumes t: "takes_action nodes n s s'"
  shows "end_ok nodes (s'\<lparr>pc := (pc s')(n := Suc (pc s' n))\<rparr>)"
  unfolding end_ok_def
proof (intro allI impI conjI)
  let ?s = "s'\<lparr>pc := (pc s')(n := Suc (pc s' n))\<rparr>" and ?a = "main_program True nodes n ! pc s n"
  fix k assume k: "k < nodes" "0 < k"
  have old: "END_EXECUTION s k \<or> (k, EndExec) \<in> set (job_net s) \<longleftrightarrow> 4 + k < pc s 0"
    "3 < pc s k \<longrightarrow> END_EXECUTION s k"
    using t k by (auto simp: takes_action_def job_ok_def end_ok_def)
  have sent: "(k, EndExec) \<in> set (job_net ?s) \<longleftrightarrow> (k, EndExec) \<in> set (job_net s) \<or> ?a = Send_endexec k"
    by (cases ?a) (auto simp: frame [OF t])
  have "4 + k < pc ?s 0 \<longleftrightarrow> 4 + k < pc s 0 \<or> ?a = Send_endexec k"
    unfolding at(2) [OF t t] using k by (cases "n = 0") (auto simp: frame [OF t])
  with old sent show "END_EXECUTION ?s k \<or> (k, EndExec) \<in> set (job_net ?s) \<longleftrightarrow> 4 + k < pc ?s 0"
    by (auto simp: frame [OF t])
  assume p: "3 < pc ?s k"
  show "END_EXECUTION ?s k"
  proof (cases "k = n \<and> pc s n = 3")
    case True
    then have "?a = Wait_endexec" unfolding at(7) [OF t t] using k by simp
    with t True show ?thesis by (auto simp: takes_action_def do_action_def frame [OF t] split: if_splits)
  next
    case False
    with p have "3 < pc s k" by (auto simp: frame [OF t] split: if_splits)
    with old show ?thesis by (simp add: frame [OF t])
  qed
qed

lemma act_net_ok:
  assumes t: "takes_action nodes n s s'"
  shows "net_ok nodes (s'\<lparr>pc := (pc s')(n := Suc (pc s' n))\<rparr>)"
proof -
  let ?a = "main_program True nodes n ! pc s n"
  have old: "net_ok nodes s" using t by (simp add: takes_action_def job_ok_def)
  have dest: "0 < j \<and> j < nodes" if "?a = Send_endexec j" for j
    using that unfolding at(2) [OF t t] by auto
  show ?thesis
    using old dest by (cases ?a) (auto simp: net_ok_def frame [OF t] split: job_msg.splits)
qed

lemma filter_upt_mset: "mset (filter P [0..<N]) = mset_set {k. k < N \<and> P k}"
proof -
  have "mset (filter P [0..<N]) = mset_set (set (filter P [0..<N]))" by (rule mset_set_set [symmetric]) simp
  also have "set (filter P [0..<N]) = {k. k < N \<and> P k}" by auto
  finally show ?thesis .
qed

lemma act_sent_ok:
  assumes t: "takes_action nodes n s s'"
  shows "sent_ok nodes (s'\<lparr>pc := (pc s')(n := Suc (pc s' n))\<rparr>)"
proof -
  let ?a = "main_program True nodes n ! pc s n" and ?s = "s'\<lparr>pc := (pc s')(n := Suc (pc s' n))\<rparr>"
  have n: "n < nodes" using t by (simp add: takes_action_def)
  have old: "mset (concat (map (sources \<circ> snd) (job_net s)) @ arrived s) =
     mset (filter (\<lambda>n. reset_at nodes n < pc s n) [0..<nodes])"
    using t by (simp add: takes_action_def job_ok_def sent_ok_def)
  have net: "mset (concat (map (sources \<circ> snd) (job_net ?s)) @ arrived ?s) =
      mset (concat (map (sources \<circ> snd) (job_net s)) @ arrived s) + (if ?a = App_reset then {#n#} else {#})"
    by (cases ?a) (simp_all add: frame [OF t] sources_def)
  have "mset (filter (\<lambda>k. reset_at nodes k < pc ?s k) [0..<nodes]) =
      mset (filter (\<lambda>k. reset_at nodes k < pc s k) [0..<nodes]) + (if ?a = App_reset then {#n#} else {#})"
  proof (cases "?a = App_reset")
    case True
    then have r: "reset_at nodes n = pc s n" unfolding at(3) [OF t t] by simp
    then have "{k. k < nodes \<and> reset_at nodes k < pc ?s k} = insert n {k. k < nodes \<and> reset_at nodes k < pc s k}"
      using n by (auto simp: frame(1) [OF t])
    then show ?thesis using True r by (simp add: filter_upt_mset)
  next
    case False
    then have "reset_at nodes n \<noteq> pc s n" unfolding at(3) [OF t t] by simp
    then have "reset_at nodes k < pc ?s k \<longleftrightarrow> reset_at nodes k < pc s k" for k
      by (auto simp: frame(1) [OF t])
    with False show ?thesis by simp
  qed
  from this [symmetric] show ?thesis unfolding sent_ok_def net old .
qed

lemma act_table_ok:
  assumes t: "takes_action nodes n s s'"
  shows "table_ok nodes (s'\<lparr>pc := (pc s')(n := Suc (pc s' n))\<rparr>)"
proof -
  let ?a = "main_program True nodes n ! pc s n" and ?s = "s'\<lparr>pc := (pc s')(n := Suc (pc s' n))\<rparr>"
  have ok: "job_ok nodes s" using t by (simp add: takes_action_def)
  then have old: "4 < pc s 0 \<longrightarrow> length (nodes_stats s) = nodes" "RETRIVE_STATS s = length (arrived s)"
    "\<forall>k \<in> set (arrived s). nodes_stats s ! k = TRANSACTIONS_STATS s k" "nodes + 7 < pc s 0 \<longrightarrow> length (arrived s) = nodes"
    by (simp_all add: job_ok_def table_ok_def)
  have size: "length (nodes_stats ?s) = nodes" if p: "4 < pc ?s 0"
  proof (cases "?a = Init_stats")
    case True
    then show ?thesis by (simp add: frame [OF t] init_nodes_stats_def)
  next
    case False
    with p have "4 < pc s 0" unfolding at(4) [OF t t] by (auto simp: frame [OF t] split: if_splits)
    with old False show ?thesis by (simp add: frame [OF t])
  qed
  have rows: "nodes_stats ?s ! k = TRANSACTIONS_STATS ?s k" if k: "k \<in> set (arrived ?s)" for k
  proof (cases "?a = Init_stats")
    case True
    then have "pc s 0 = 4" unfolding at(4) [OF t t] by auto
    with k sent_after_init [OF ok sent_mem(1) [OF ok, of k]] show ?thesis by (simp add: frame [OF t])
  next
    case False
    with k old show ?thesis by (simp add: frame [OF t])
  qed
  have all: "length (arrived ?s) = nodes" if p: "nodes + 7 < pc ?s 0"
  proof (cases "?a = Wait_stats")
    case True
    with t old show ?thesis by (auto simp: takes_action_def do_action_def frame [OF t] split: if_splits)
  next
    case False
    with p have "nodes + 7 < pc s 0" unfolding at(5) [OF t t] by (auto simp: frame [OF t] split: if_splits)
    with old show ?thesis by (simp add: frame [OF t])
  qed
  from old size rows all show ?thesis unfolding table_ok_def by (simp add: frame [OF t])
qed

lemma full_table:
  assumes ok: "job_ok nodes s" and "nodes + 7 < pc s 0"
  shows "nodes_stats s = map (TRANSACTIONS_STATS s) [0..<nodes]"
proof (rule nth_equalityI)
  have t: "length (nodes_stats s) = nodes" "length (arrived s) = nodes"
    "\<forall>k \<in> set (arrived s). nodes_stats s ! k = TRANSACTIONS_STATS s k"
    using assms by (simp_all add: job_ok_def table_ok_def)
  then show "length (nodes_stats s) = length (map (TRANSACTIONS_STATS s) [0..<nodes])" by simp
  fix k assume "k < length (nodes_stats s)"
  with t all_arrived(1) [OF ok t(2)] show "nodes_stats s ! k = map (TRANSACTIONS_STATS s) [0..<nodes] ! k" by simp
qed

lemma act_print_ok:
  assumes t: "takes_action nodes n s s'"
  shows "print_ok nodes (s'\<lparr>pc := (pc s')(n := Suc (pc s' n))\<rparr>)"
proof -
  let ?a = "main_program True nodes n ! pc s n" and ?s = "s'\<lparr>pc := (pc s')(n := Suc (pc s' n))\<rparr>"
  have ok: "job_ok nodes s" using t by (simp add: takes_action_def)
  then have old: "printed s = (if nodes + 8 < pc s 0
      then Some (print_nodes_stats (map (TRANSACTIONS_STATS s) [0..<nodes])) else None)"
    by (simp add: job_ok_def print_ok_def)
  show ?thesis
  proof (cases "?a = Print_stats")
    case True
    then have "n = 0" "pc s 0 = nodes + 8" unfolding at(6) [OF t t] by auto
    with True full_table [OF ok] show ?thesis by (simp add: print_ok_def frame [OF t])
  next
    case False
    then have "n \<noteq> 0 \<or> pc s 0 \<noteq> nodes + 8" unfolding at(6) [OF t t] by auto
    then have "nodes + 8 < pc ?s 0 \<longleftrightarrow> nodes + 8 < pc s 0" by (auto simp: frame [OF t])
    with False old show ?thesis unfolding print_ok_def by (simp add: frame(2,9) [OF t])
  qed
qed

lemma act_ok: "takes_action nodes n s s' \<Longrightarrow> job_ok nodes (s'\<lparr>pc := (pc s')(n := Suc (pc s' n))\<rparr>)"
  unfolding job_ok_def
  by (intro conjI act_pos_ok act_end_ok act_net_ok act_sent_ok act_table_ok act_print_ok)

subsection \<open>Every message is handled and keeps the invariant\<close>

lemma stats_msg_ok:
  assumes ok: "job_ok nodes s" and net: "job_net s = xs @ (d, NodeStats n ns) # ys"
  obtains s' where "dstmstats_medhandler n ns (s\<lparr>job_net := xs @ ys\<rparr>) = Some s'" "job_ok nodes s'"
proof -
  have sent: "n \<in> set (filter (\<lambda>n. reset_at nodes n < pc s n) [0..<nodes])"
    by (rule sent_mem(2) [OF ok, of d n ns]) (simp add: net)
  have size: "length (nodes_stats s) = nodes"
    using ok sent_after_init [OF ok sent] by (simp add: job_ok_def table_ok_def)
  have ns: "d = 0" "ns = TRANSACTIONS_STATS s n" using ok by (simp_all add: job_ok_def net_ok_def net)
  have n: "n < nodes" using sent by simp
  let ?s = "s\<lparr>job_net := xs @ ys, nodes_stats := (nodes_stats s)[n := ns], RETRIVE_STATS := RETRIVE_STATS s + 1,
    arrived := arrived s @ [n]\<rparr>"
  have "dstmstats_medhandler n ns (s\<lparr>job_net := xs @ ys\<rparr>) = Some ?s"
    using n size by (simp add: dstmstats_medhandler_def add_node_to_stat_def)
  moreover have "job_ok nodes ?s"
    unfolding job_ok_def
  proof (intro conjI)
    show "pos_ok nodes ?s" "print_ok nodes ?s" using ok by (simp_all add: job_ok_def pos_ok_def print_ok_def)
    show "end_ok nodes ?s" using ok unfolding job_ok_def end_ok_def net by simp
    show "net_ok nodes ?s" using ok unfolding job_ok_def net_ok_def net by auto
    show "sent_ok nodes ?s" using ok unfolding job_ok_def sent_ok_def net by (simp add: sources_def)
    have "length (arrived s) \<noteq> nodes" using all_arrived(2) [OF ok] by (auto simp: net sources_def)
    then show "table_ok nodes ?s"
      using ok ns size n by (auto simp: job_ok_def table_ok_def nth_list_update)
  qed
  ultimately show ?thesis by (rule that)
qed

lemma msg_ok:
  assumes ok: "job_ok nodes s" and net: "job_net s = xs @ (d, msg) # ys"
  obtains s' where "handle d msg (s\<lparr>job_net := xs @ ys\<rparr>) = Some s'" "job_ok nodes s'"
proof (cases msg)
  case EndExec
  let ?s = "s\<lparr>END_EXECUTION := (END_EXECUTION s)(d := True), job_net := (xs @ ys) @ [(0, EndExec_succ)]\<rparr>"
  have "job_ok nodes ?s"
    unfolding job_ok_def
  proof (intro conjI)
    show "pos_ok nodes ?s" "print_ok nodes ?s" "table_ok nodes ?s"
      using ok by (simp_all add: job_ok_def pos_ok_def print_ok_def table_ok_def)
    show "end_ok nodes ?s" using ok unfolding job_ok_def end_ok_def net EndExec by auto
    show "net_ok nodes ?s" using ok unfolding job_ok_def net_ok_def net EndExec by auto
    show "sent_ok nodes ?s" using ok unfolding job_ok_def sent_ok_def net EndExec by (simp add: sources_def)
  qed
  then show ?thesis by (intro that) (simp_all add: handle_def EndExec endexec_shrthandler_def)
next
  case EndExec_succ
  have "job_ok nodes (s\<lparr>job_net := xs @ ys\<rparr>)"
    unfolding job_ok_def
  proof (intro conjI)
    show "pos_ok nodes (s\<lparr>job_net := xs @ ys\<rparr>)" "print_ok nodes (s\<lparr>job_net := xs @ ys\<rparr>)" "table_ok nodes (s\<lparr>job_net := xs @ ys\<rparr>)"
      using ok by (simp_all add: job_ok_def pos_ok_def print_ok_def table_ok_def)
    show "end_ok nodes (s\<lparr>job_net := xs @ ys\<rparr>)" using ok unfolding job_ok_def end_ok_def net EndExec_succ by simp
    show "net_ok nodes (s\<lparr>job_net := xs @ ys\<rparr>)" using ok unfolding job_ok_def net_ok_def net EndExec_succ by auto
    show "sent_ok nodes (s\<lparr>job_net := xs @ ys\<rparr>)"
      using ok unfolding job_ok_def sent_ok_def net EndExec_succ by (simp add: sources_def)
  qed
  then show ?thesis by (intro that) (simp_all add: handle_def EndExec_succ endexec_succ_shrthandler_def)
next
  case (NodeStats n ns)
  from stats_msg_ok [OF ok net [unfolded NodeStats]] obtain s' where
    "dstmstats_medhandler n ns (s\<lparr>job_net := xs @ ys\<rparr>) = Some s'" "job_ok nodes s'" .
  then show ?thesis by (intro that) (simp_all add: handle_def NodeStats)
qed

lemma job_step_ok: "job_step True nodes s s' \<Longrightarrow> job_ok nodes s \<Longrightarrow> job_ok nodes s'"
proof (induction rule: job_step.cases)
  case (act n s s')
  then show ?case by (simp add: act_ok takes_action_def)
next
  case (msg s xs n m ys s')
  then show ?case using msg_ok [of nodes s xs n m ys] by fastforce
next
  case (kill s n)
  then show ?case
    by (simp add: job_ok_def pos_ok_def end_ok_def net_ok_def sent_ok_def table_ok_def print_ok_def)
qed

lemma job_reach_ok: "job_reach True nodes final s \<Longrightarrow> 0 < nodes \<Longrightarrow> job_ok nodes s"
  by (induction rule: job_reach.induct) (auto intro: init_job_ok job_step_ok)

lemma handle_frame: "handle n msg s = Some s' \<Longrightarrow> pc s' = pc s \<and> TRANSACTIONS_STATS s' = TRANSACTIONS_STATS s \<and>
    ended s' = ended s \<and> gone s' = gone s \<and> notified s' = notified s"
  by (auto simp: handle_def endexec_shrthandler_def endexec_succ_shrthandler_def dstmstats_medhandler_def
      split: job_msg.splits option.splits)

lemma job_reach_final: "job_reach st nodes final s \<Longrightarrow> TRANSACTIONS_STATS s = final"
proof (induction rule: job_reach.induct)
  case init
  show ?case by (simp add: job_init_def)
next
  case (step s s')
  from step(2,3) show ?case
    by (induction rule: job_step.cases) (auto dest!: handle_frame do_action_frame(2))
qed

subsection \<open>The report\<close>

text \<open>
  C20. What node 0 prints is the report of the statistics of all nodes, each at its place, in
  whatever order their messages arrive and however the nodes interleave; and no message comes
  before the table has its size.
\<close>

theorem report_complete:
  assumes "job_reach True nodes final s" "0 < nodes"
  shows "(printed s = None \<or> printed s = Some (print_nodes_stats (map final [0..<nodes]))) \<and>
    (\<forall>xs d msg ys. job_net s = xs @ (d, msg) # ys \<longrightarrow> handle d msg (s\<lparr>job_net := xs @ ys\<rparr>) \<noteq> None)"
proof -
  have ok: "job_ok nodes s" by (rule job_reach_ok [OF assms])
  then have "printed s = None \<or> printed s = Some (print_nodes_stats (map final [0..<nodes]))"
    using job_reach_final [OF assms(1)] by (simp add: job_ok_def print_ok_def)
  moreover have "handle d msg (s\<lparr>job_net := xs @ ys\<rparr>) \<noteq> None" if "job_net s = xs @ (d, msg) # ys" for xs d msg ys
    by (rule msg_ok [OF ok that]) simp
  ultimately show ?thesis by blast
qed

text \<open>What is left to do shrinks with every step.\<close>

definition msg_cost :: "job_msg \<Rightarrow> nat" where
  "msg_cost msg = (case msg of EndExec \<Rightarrow> 3 | _ \<Rightarrow> 1)"

definition job_weight :: "nat \<Rightarrow> job \<Rightarrow> nat" where
  "job_weight nodes s =
     (\<Sum>n<nodes. 4 * (length (main_program True nodes n) - pc s n)) +
     sum_list (map (msg_cost \<circ> snd) (job_net s)) + length (filter (\<lambda>n. \<not> gone s n) [0..<nodes])"

lemma fewer_left: "length (filter (\<lambda>k. \<not> (g(n := True)) k) xs) \<le> length (filter (\<lambda>k. \<not> g k) xs)"
  by (induction xs) auto

lemma one_left: "n < nodes \<Longrightarrow> \<not> g n \<Longrightarrow>
    length (filter (\<lambda>k. \<not> (g(n := True)) k) [0..<nodes]) < length (filter (\<lambda>k. \<not> g k) [0..<nodes])"
proof -
  assume n: "n < nodes" "\<not> g n"
  have "filter (\<lambda>k. \<not> (g(n := True)) k) [0..<nodes] = filter (\<lambda>k. k \<noteq> n) (filter (\<lambda>k. \<not> g k) [0..<nodes])"
    by (simp add: filter_filter) (rule filter_cong, auto)
  moreover have "n \<in> set (filter (\<lambda>k. \<not> g k) [0..<nodes])" using n by simp
  ultimately show ?thesis by (metis (mono_tags, lifting) length_filter_less)
qed

lemma job_step_weight: "job_step True nodes s s' \<Longrightarrow> job_weight nodes s' < job_weight nodes s"
proof (induction rule: job_step.cases)
  case (act n s s')
  let ?s = "s'\<lparr>pc := (pc s')(n := Suc (pc s' n))\<rparr>"
  let ?f = "\<lambda>s n. 4 * (length (main_program True nodes n) - pc s n)"
  have "sum_list (map (msg_cost \<circ> snd) (job_net s')) \<le>
      sum_list (map (msg_cost \<circ> snd) (job_net s)) + (3 :: nat)"
    using act(6) by (auto simp: do_action_def sendNodeStats_def msg_cost_def split: action.splits if_splits)
  moreover have "length (filter (\<lambda>n. \<not> gone ?s n) [0..<nodes]) \<le> length (filter (\<lambda>n. \<not> gone s n) [0..<nodes])"
    using fewer_left [of "gone s" n "[0..<nodes]"] by (simp add: do_action_frame(11) [OF act(6)])
  moreover have split: "sum f {..<nodes} = f n + sum f ({..<nodes} - {n})" for f :: "nat \<Rightarrow> nat"
    using act(3) by (intro sum.remove) simp_all
  note split [of "?f s"] split [of "?f ?s"]
  moreover have "sum (?f ?s) ({..<nodes} - {n}) = sum (?f s) ({..<nodes} - {n})"
    by (rule sum.cong) (simp_all add: do_action_frame(1) [OF act(6)])
  moreover have "?f ?s n + 4 = ?f s n"
    using act(5) by (simp add: do_action_frame(1) [OF act(6)])
  ultimately have "sum (?f ?s) {..<nodes} + sum_list (map (msg_cost \<circ> snd) (job_net s')) +
      length (filter (\<lambda>n. \<not> gone ?s n) [0..<nodes])
    < sum (?f s) {..<nodes} + sum_list (map (msg_cost \<circ> snd) (job_net s)) + length (filter (\<lambda>n. \<not> gone s n) [0..<nodes])"
    by linarith
  then show ?case unfolding job_weight_def act(1,2) by simp
next
  case (msg s xs n m ys s')
  have "sum_list (map (msg_cost \<circ> snd) (job_net s')) <
      sum_list (map (msg_cost \<circ> snd) (job_net s))"
    using msg(5) unfolding msg(3)
    by (auto simp: handle_def endexec_shrthandler_def endexec_succ_shrthandler_def dstmstats_medhandler_def
        msg_cost_def split: job_msg.splits option.splits)
  moreover have "pc s' = pc s" "gone s' = gone s" using handle_frame [OF msg(5)] by simp_all
  ultimately show ?case unfolding job_weight_def msg(1,2) by simp
next
  case (kill s n)
  then show ?case using one_left [of n nodes "gone s"] by (simp add: job_weight_def)
qed

lemma wf_job_step: "wf {(s', s). job_step True nodes s s'}"
  by (rule wf_subset [OF wf_measure [of "job_weight nodes"]]) (auto dest: job_step_weight)

subsection \<open>The end of the job\<close>

lemma blocked:
  assumes "do_action nodes n a s = None"
  shows "(a = Barrier_wait \<and> (\<exists>i<nodes. notified s i < notified s n)) \<or> (a = Wait_endexec \<and> \<not> END_EXECUTION s n) \<or>
    (a = Wait_stats \<and> RETRIVE_STATS s \<noteq> nodes)"
  using assms by (auto simp: do_action_def list_all_iff not_le split: action.splits if_splits)

lemma exit_at:
  assumes "0 < nodes" "i < length (main_program True nodes n)"
  shows "main_program True nodes n ! i = Exit \<longleftrightarrow> Suc i = length (main_program True nodes n)"
proof -
  have "main_program True nodes n ! i = Exit \<longleftrightarrow> (if n = 0 then i = nodes + 9 else i = 7)"
    using assms by (cases "n = 0") (auto simp: main_length main_nth_0 main_nth)
  then show ?thesis using assms by (auto simp: main_length)
qed

text \<open>
  No node passes the second barrier before all have announced it; the job is ended by the first
  node that comes to the end of its program, and no process is gone before that.
\<close>

definition past_second :: "nat \<Rightarrow> job \<Rightarrow> bool" where
  "past_second nodes s \<longleftrightarrow>
     (\<forall>n < nodes. (if n = 0 then nodes + 5 else 5) < pc s n \<longrightarrow> (\<forall>i < nodes. notified s i = 2))"

definition exit_ok :: "nat \<Rightarrow> job \<Rightarrow> bool" where
  "exit_ok nodes s \<longleftrightarrow> (\<forall>n. gone s n \<longrightarrow> ended s) \<and>
     (ended s \<longleftrightarrow> (\<exists>n < nodes. pc s n = length (main_program True nodes n)))"

lemma notified_2: "job_ok nodes s \<Longrightarrow> n < nodes \<Longrightarrow>
    notified s n = (if (if n = 0 then nodes + 4 else 4) < pc s n then 2 else notified s n) \<and> notified s n \<le> 2 \<and>
    (notified s n = 2 \<longrightarrow> (if n = 0 then nodes + 4 else 4) < pc s n)"
  by (auto simp: job_ok_def pos_ok_def announced_def)

lemma act_past_second:
  assumes t: "takes_action nodes n s s'" and old: "past_second nodes s"
  shows "past_second nodes (s'\<lparr>pc := (pc s')(n := Suc (pc s' n))\<rparr>)"
  unfolding past_second_def
proof (intro allI impI)
  let ?s = "s'\<lparr>pc := (pc s')(n := Suc (pc s' n))\<rparr>" and ?a = "main_program True nodes n ! pc s n"
  have ok: "job_ok nodes s" "n < nodes" using t by (simp_all add: takes_action_def)
  fix k i assume k: "k < nodes" "(if k = 0 then nodes + 5 else 5) < pc ?s k" and i: "i < nodes"
  have "notified s i = 2"
  proof (cases "(if k = 0 then nodes + 5 else 5) < pc s k")
    case True
    with old k(1) i show ?thesis unfolding past_second_def by blast
  next
    case False
    with k have n: "k = n" "pc s n = (if n = 0 then nodes + 5 else 5)"
      by (auto simp: frame [OF t] split: if_splits)
    then have "?a = Barrier_wait" unfolding at(8) [OF t t] by simp
    with t i have "notified s n \<le> notified s i"
      by (auto simp: takes_action_def do_action_def list_all_iff split: if_splits)
    moreover have "notified s n = 2" using notified_2 [OF ok] n(2) by (simp split: if_splits)
    ultimately show ?thesis using notified_2 [OF ok(1) i] by linarith
  qed
  moreover have "notified ?s i \<le> 2" using notified_2 [OF act_ok [OF t] i] by blast
  moreover have "notified s i \<le> notified ?s i" by (simp add: frame [OF t])
  ultimately show "notified ?s i = 2" by linarith
qed

lemma act_exit_ok:
  assumes t: "takes_action nodes n s s'" and old: "exit_ok nodes s"
  shows "exit_ok nodes (s'\<lparr>pc := (pc s')(n := Suc (pc s' n))\<rparr>)"
proof -
  let ?s = "s'\<lparr>pc := (pc s')(n := Suc (pc s' n))\<rparr>" and ?a = "main_program True nodes n ! pc s n"
  let ?len = "\<lambda>n. length (main_program True nodes n)"
  have a: "?a = Exit \<longleftrightarrow> pc ?s n = ?len n"
    using exit_at [OF takes_action_at [OF t]] by (simp add: frame [OF t])
  have "(\<exists>k<nodes. pc ?s k = ?len k) \<longleftrightarrow> (\<exists>k<nodes. pc s k = ?len k) \<or> ?a = Exit"
  proof
    assume "\<exists>k<nodes. pc ?s k = ?len k"
    then obtain k where k: "k < nodes" "pc ?s k = ?len k" by blast
    then show "(\<exists>k<nodes. pc s k = ?len k) \<or> ?a = Exit"
      using a by (cases "k = n") (auto simp: frame [OF t])
  next
    assume "(\<exists>k<nodes. pc s k = ?len k) \<or> ?a = Exit"
    then show "\<exists>k<nodes. pc ?s k = ?len k"
    proof
      assume "\<exists>k<nodes. pc s k = ?len k"
      then obtain k where k: "k < nodes" "pc s k = ?len k" by blast
      with takes_action_at [OF t] have "k \<noteq> n" by auto
      with k have "pc ?s k = ?len k" by (simp add: frame [OF t])
      with k show ?thesis by blast
    next
      assume "?a = Exit"
      with a t show ?thesis unfolding takes_action_def by blast
    qed
  qed
  with old show ?thesis unfolding exit_ok_def by (auto simp: frame [OF t])
qed

lemma job_reach_end: "job_reach True nodes final s \<Longrightarrow> 0 < nodes \<Longrightarrow> past_second nodes s \<and> exit_ok nodes s"
proof (induction rule: job_reach.induct)
  case init
  then show ?case by (auto simp: past_second_def exit_ok_def job_init_def main_length)
next
  case (step s s')
  have ok: "job_ok nodes s" by (rule job_reach_ok [OF step(1,4)])
  from step(2) show ?case
  proof (cases rule: job_step.cases)
    case (act n s'')
    then have t: "takes_action nodes n s s''" using ok by (simp add: takes_action_def)
    show ?thesis unfolding act(1) using act_past_second [OF t] act_exit_ok [OF t] step(3,4) by blast
  next
    case (msg xs n m ys)
    have f: "pc s' = pc s" "notified s' = notified s" "ended s' = ended s" "gone s' = gone s"
      using handle_frame [OF msg(3)] by simp_all
    from step(3,4) show ?thesis unfolding past_second_def exit_ok_def f by blast
  next
    case (kill n)
    then show ?thesis using step(3,4) by (simp add: past_second_def exit_ok_def)
  qed
qed

text \<open>
  Where a job comes to rest in which node \<open>n\<close> takes no action from position \<open>h n\<close> on: all barriers
  and waits have been passed.
\<close>

lemma parked:
  assumes ok: "job_ok nodes s" and nodes: "0 < nodes" and net: "job_net s = []"
    and h: "h 0 \<in> {nodes + 6, nodes + 9, nodes + 10}" "\<And>n. 0 < n \<Longrightarrow> h n \<in> {7, 8 :: nat}"
    and still: "\<And>n. n < nodes \<Longrightarrow> pc s n < length (main_program True nodes n) \<Longrightarrow> pc s n \<noteq> h n \<Longrightarrow>
      do_action nodes n (main_program True nodes n ! pc s n) s = None"
  shows "n < nodes \<Longrightarrow> pc s n = length (main_program True nodes n) \<or> pc s n = h n"
proof -
  let ?len = "\<lambda>n. length (main_program True nodes n)" and ?act = "\<lambda>n. main_program True nodes n ! pc s n"
  have pos: "pc s n \<le> ?len n" "notified s n = announced nodes n (pc s n)" if "n < nodes" for n
    using ok that by (simp_all add: job_ok_def pos_ok_def)
  have hn: "h n = (if n = 0 then nodes + 6 else 7) \<or> h n = (if n = 0 then nodes + 9 else 7) \<or> h n = ?len n" for n
    using h(1) h(2) [of n] main_length [OF nodes, of n] by (cases "n = 0") auto
  have wait: "(?act n = Barrier_wait \<and> (\<exists>i<nodes. notified s i < notified s n)) \<or> (?act n = Wait_endexec \<and> \<not> END_EXECUTION s n) \<or>
    (?act n = Wait_stats \<and> RETRIVE_STATS s \<noteq> nodes)" if "n < nodes" "pc s n < ?len n" "pc s n \<noteq> h n" for n
    by (rule blocked [OF still [OF that]])
  have at: "pc s n = 2 \<or> pc s n = (if n = 0 then nodes + 5 else 5) \<or> (n \<noteq> 0 \<and> pc s n = 3) \<or> (n = 0 \<and> pc s n = nodes + 7)
      \<or> pc s n = ?len n \<or> pc s n = h n" if "n < nodes" for n
  proof (cases "pc s n = ?len n \<or> pc s n = h n")
    case False
    with pos(1) [OF that] have l: "pc s n < ?len n" "pc s n \<noteq> h n" by simp_all
    from wait [OF that l] action_at(5,7,8) [OF nodes l(1)] show ?thesis by blast
  qed blast
  have late: "(if n = 0 then nodes + 5 else 5) < h n" for n
    using hn [of n] main_length [OF nodes, of n] by (auto split: if_splits)
  have one: "1 \<le> notified s n" if "n < nodes" for n
    using at [OF that] pos(2) [OF that] late [of n] nodes by (cases "n = 0") (auto simp: announced_def main_length)
  have first: "pc s n \<noteq> 2" if n: "n < nodes" for n
  proof
    assume 2: "pc s n = 2"
    then have "notified s n = 1" using pos(2) [OF n] by (simp add: announced_def)
    moreover have "?act n = Barrier_wait" "pc s n < ?len n" "pc s n \<noteq> h n"
      using action_at(8) [OF nodes, of "pc s n" n] 2 nodes late [of n] by (auto simp: main_length split: if_splits)
    ultimately obtain i where "i < nodes" "notified s i < 1" using wait [OF n] by auto
    with one show False by fastforce
  qed
  have zero: "nodes + 5 \<le> pc s 0" using at [OF nodes] first [OF nodes] late [of 0] nodes by (auto simp: main_length)
  have "END_EXECUTION s n" if "n < nodes" "n \<noteq> 0" for n
    using ok that zero net by (auto simp: job_ok_def end_ok_def)
  then have past: "pc s n \<noteq> 3" if "n < nodes" "n \<noteq> 0" for n
    using wait [OF that(1)] action_at(7) [OF nodes, of "pc s n" n] that nodes late [of n] by (auto simp: main_length)
  have two: "notified s n = 2" if "n < nodes" for n
    using at [OF that] first [OF that] past [OF that] late [of n] pos(2) [OF that] nodes
    by (auto simp: announced_def main_length split: if_splits)
  have second: "pc s n \<noteq> (if n = 0 then nodes + 5 else 5)" if n: "n < nodes" for n
  proof
    assume p: "pc s n = (if n = 0 then nodes + 5 else 5)"
    then have l: "pc s n < ?len n" using nodes by (simp add: main_length)
    then have "?act n = Barrier_wait" "pc s n \<noteq> h n" using action_at(8) [OF nodes l] p late [of n] by simp_all
    with wait [OF n l] two show False using n by auto
  qed
  have others: "pc s n = ?len n \<or> pc s n = h n" if "n < nodes" "n \<noteq> 0" for n
    using at [OF that(1)] first [OF that(1)] past [OF that] second [OF that(1)] that by auto
  have z: "pc s 0 = nodes + 7 \<or> pc s 0 = ?len 0 \<or> pc s 0 = h 0"
    using at [OF nodes] first [OF nodes] second [OF nodes] by auto
  have main: "pc s 0 = ?len 0 \<or> pc s 0 = h 0"
  proof (rule ccontr)
    assume no: "\<not> (pc s 0 = ?len 0 \<or> pc s 0 = h 0)"
    with z have p: "pc s 0 = nodes + 7" by blast
    have "reset_at nodes n < pc s n" if "n < nodes" for n
      using others [OF that] h(2) [of n] p main_length [OF nodes, of n] by (cases "n = 0") (auto simp: reset_at_def)
    then have "filter (\<lambda>n. reset_at nodes n < pc s n) [0..<nodes] = [0..<nodes]" by (intro filter_True) simp
    then have "mset (arrived s) = mset [0..<nodes]" using ok net by (simp add: job_ok_def sent_ok_def)
    then have "length (arrived s) = nodes" by (metis length_upt diff_zero size_mset)
    then have all: "RETRIVE_STATS s = nodes" using ok by (simp add: job_ok_def table_ok_def)
    have l: "pc s 0 < ?len 0" using p main_length [OF nodes, of 0] by simp
    have a: "?act 0 = Wait_stats" using action_at(5) [OF nodes l] p by blast
    have nh: "pc s 0 \<noteq> h 0" using no by blast
    from wait [OF nodes l nh, unfolded a] show False by (simp only: all action.distinct simp_thms)
  qed
  show "n < nodes \<Longrightarrow> pc s n = ?len n \<or> pc s n = h n" using others main by (cases "n = 0") simp_all
qed

lemma still_action:
  assumes "\<And>s'. do_action nodes n (main_program True nodes n ! pc s n) s = Some s' \<Longrightarrow> False"
  shows "do_action nodes n (main_program True nodes n ! pc s n) s = None"
  using assms by (cases "do_action nodes n (main_program True nodes n ! pc s n) s") auto

lemma no_message:
  assumes ok: "job_ok nodes s" and alive: "\<And>n. \<not> gone s n"
    and still: "\<And>xs n msg ys s'. job_net s = xs @ (n, msg) # ys \<Longrightarrow> handle n msg (s\<lparr>job_net := xs @ ys\<rparr>) = Some s' \<Longrightarrow> False"
  shows "job_net s = []"
proof (rule ccontr)
  assume "job_net s \<noteq> []"
  then obtain d msg ys where m: "job_net s = [] @ (d, msg) # ys" by (cases "job_net s") auto
  obtain s' where "handle d msg (s\<lparr>job_net := [] @ ys\<rparr>) = Some s'" by (rule msg_ok [OF ok m])
  with still [OF m] show False by blast
qed

text \<open>As long as no node is at its end, some step is possible.\<close>

lemma job_goes_on:
  assumes reach: "job_reach True nodes final s" and nodes: "0 < nodes" and run: "\<not> ended s"
  shows "\<exists>s'. job_step True nodes s s'"
proof (rule ccontr)
  assume stuck: "\<nexists>s'. job_step True nodes s s'"
  have ok: "job_ok nodes s" and ex: "exit_ok nodes s"
    using job_reach_ok [OF reach nodes] job_reach_end [OF reach nodes] by simp_all
  have alive: "\<not> gone s n" for n using ex run unfolding exit_ok_def by blast
  have net: "job_net s = []"
    by (rule no_message [OF ok alive]) (use stuck alive job_step.msg in blast)
  have "pc s 0 = length (main_program True nodes 0) \<or> pc s 0 = length (main_program True nodes 0)"
  proof (rule parked [OF ok nodes net _ _ _ nodes])
    fix n assume n: "n < nodes" "pc s n < length (main_program True nodes n)"
    show "do_action nodes n (main_program True nodes n ! pc s n) s = None"
      by (rule still_action) (use stuck job_step.act [OF n(1) alive n(2)] in blast)
  qed (use nodes in \<open>simp_all add: main_length\<close>)
  with ex run nodes show False unfolding exit_ok_def by blast
qed

text \<open>Once the job is ended, all processes are terminated, whatever node 0 has still to do.\<close>

lemma job_terminates:
  assumes "job_reach True nodes final s" "0 < nodes" "ended s"
  shows "\<exists>s'. job_reach True nodes final s' \<and> pc s' = pc s \<and> (\<nexists>s''. job_step True nodes s' s'')"
proof -
  let ?X = "{s'. job_reach True nodes final s' \<and> ended s' \<and> pc s' = pc s}"
  have "s \<in> ?X" using assms by simp
  from wfE_min [OF wf_job_step [of nodes] this]
  obtain z where z: "z \<in> ?X" and min: "\<And>y. (y, z) \<in> {(s', s). job_step True nodes s s'} \<Longrightarrow> y \<notin> ?X" by blast
  have step: "\<not> (ended y \<and> pc y = pc z)" if "job_step True nodes z y" for y
    using min [of y] job_reach.step [OF _ that] z that by auto
  have all: "gone z n" if "n < nodes" for n
    using step [OF job_step.kill [of z n nodes True]] z that by auto
  have "\<nexists>y. job_step True nodes z y"
  proof
    assume "\<exists>y. job_step True nodes z y"
    then obtain y where y: "job_step True nodes z y" by blast
    from y show False
    proof (cases rule: job_step.cases)
      case (act n s'')
      with all show False by blast
    next
      case (msg xs n m ys)
      with step [OF y] handle_frame [OF msg(3)] z show False by simp
    next
      case (kill n)
      with all show False by blast
    qed
  qed
  with z show ?thesis by blast
qed

text \<open>There are runs in which node 0 comes to position \<open>z\<close> while all other nodes stand before their exit.\<close>

lemma run_to:
  assumes nodes: "0 < nodes" and z: "z \<in> {nodes + 6, nodes + 9}"
  shows "\<exists>s. job_reach True nodes final s \<and> \<not> ended s \<and> (\<forall>n < nodes. pc s n = (if n = 0 then z else 7))"
proof -
  let ?h = "\<lambda>n. if n = 0 then z else (7 :: nat)"
  let ?X = "{s. job_reach True nodes final s \<and> \<not> ended s \<and> (\<forall>n < nodes. pc s n \<le> ?h n)}"
  have "job_init final \<in> ?X" using job_reach.init [of True nodes final] by (simp add: job_init_def)
  from wfE_min [OF wf_job_step [of nodes] this]
  obtain s where s: "s \<in> ?X" and min: "\<And>y. (y, s) \<in> {(s', s). job_step True nodes s s'} \<Longrightarrow> y \<notin> ?X" by blast
  then have reach: "job_reach True nodes final s" and run: "\<not> ended s" and low: "\<And>n. n < nodes \<Longrightarrow> pc s n \<le> ?h n"
    by simp_all
  have step: "ended y \<or> (\<exists>n<nodes. ?h n < pc y n)" if "job_step True nodes s y" for y
    using min [of y] job_reach.step [OF reach that] that by (auto simp: not_le)
  have ok: "job_ok nodes s" and ex: "exit_ok nodes s"
    using job_reach_ok [OF reach nodes] job_reach_end [OF reach nodes] by simp_all
  have alive: "\<not> gone s n" for n using ex run unfolding exit_ok_def by blast
  have net: "job_net s = []"
  proof (rule no_message [OF ok alive])
    fix xs n m ys s' assume m: "job_net s = xs @ (n, m) # ys" "handle n m (s\<lparr>job_net := xs @ ys\<rparr>) = Some s'"
    from step [OF job_step.msg [OF m(1) alive m(2)]] handle_frame [OF m(2)] run low show False
      by (auto simp: not_le [symmetric])
  qed
  have still: "do_action nodes n (main_program True nodes n ! pc s n) s = None"
    if n: "n < nodes" "pc s n < length (main_program True nodes n)" "pc s n \<noteq> ?h n" for n
  proof (rule still_action)
    fix s' assume a: "do_action nodes n (main_program True nodes n ! pc s n) s = Some s'"
    have l: "pc s n < ?h n" using low [OF n(1)] n(3) by linarith
    have "main_program True nodes n ! pc s n \<noteq> Exit"
      using exit_at [OF nodes n(2)] l z main_length [OF nodes, of n] by (auto split: if_splits)
    with step [OF job_step.act [OF n(1) alive n(2) a]] do_action_frame(10) [OF a] run
    obtain k where k: "k < nodes" "?h k < pc (s'\<lparr>pc := (pc s')(n := Suc (pc s' n))\<rparr>) k" by auto
    with low [OF k(1)] l do_action_frame(1) [OF a] show False by (cases "k = n") simp_all
  qed
  have "pc s n = length (main_program True nodes n) \<or> pc s n = ?h n" if "n < nodes" for n
    by (rule parked [OF ok nodes net _ _ still that]) (use z in auto)
  moreover have "pc s n \<noteq> length (main_program True nodes n)" if "n < nodes" for n
    using ex run that unfolding exit_ok_def by blast
  ultimately show ?thesis using reach run by blast
qed

lemma exits:
  assumes reach: "job_reach True nodes final s" and nodes: "0 < nodes" and run: "\<not> ended s"
    and n: "n < nodes" "Suc (pc s n) = length (main_program True nodes n)"
  shows "\<exists>s'. job_reach True nodes final s' \<and> pc s' = (pc s)(n := Suc (pc s n)) \<and> (\<nexists>s''. job_step True nodes s' s'')"
proof -
  have l: "pc s n < length (main_program True nodes n)" using n(2) by simp
  have "\<not> gone s n" using job_reach_end [OF reach nodes] run unfolding exit_ok_def by blast
  let ?s = "s\<lparr>ended := True, gone := (gone s)(n := True), pc := (pc s)(n := Suc (pc s n))\<rparr>"
  have "job_step True nodes s ?s"
    using job_step.act [OF n(1) \<open>\<not> gone s n\<close> l, of "s\<lparr>ended := True, gone := (gone s)(n := True)\<rparr>"]
      exit_at [OF nodes l] n(2) by (simp add: do_action_def)
  from job_terminates [OF job_reach.step [OF reach this] nodes] show ?thesis by simp
qed

lemma printed_iff:
  assumes "job_reach True nodes final s" "0 < nodes"
  shows "printed s = (if nodes + 8 < pc s 0 then Some (print_nodes_stats (map final [0..<nodes])) else None)"
  using job_reach_ok [OF assms] job_reach_final [OF assms(1)] by (simp add: job_ok_def print_ok_def)

text \<open>Node 0 may print, and the job may end before it does.\<close>

lemma report_printed:
  assumes "0 < nodes"
  shows "\<exists>s. job_reach True nodes final s \<and> (\<nexists>s'. job_step True nodes s s') \<and>
    printed s = Some (print_nodes_stats (map final [0..<nodes]))"
proof -
  from run_to [OF assms, of "nodes + 9" final] obtain s where
    s: "job_reach True nodes final s" "\<not> ended s" "pc s 0 = nodes + 9" using assms by auto
  from exits [OF s(1) assms s(2) assms] obtain s' where
    s': "job_reach True nodes final s'" "pc s' = (pc s)(0 := Suc (pc s 0))" "\<nexists>s''. job_step True nodes s' s''"
    using s(3) main_length [OF assms, of 0] by auto
  then show ?thesis using s(3) printed_iff [OF s'(1) assms] by auto
qed

lemma report_lost:
  assumes "1 < nodes"
  shows "\<exists>s. job_reach True nodes final s \<and> (\<nexists>s'. job_step True nodes s s') \<and> printed s = None"
proof -
  have nodes: "0 < nodes" using assms by simp
  from run_to [OF nodes, of "nodes + 6" final] obtain s where
    s: "job_reach True nodes final s" "\<not> ended s" "pc s 0 = nodes + 6" "pc s 1 = 7" using assms by auto
  from exits [OF s(1) nodes s(2) assms] obtain s' where
    s': "job_reach True nodes final s'" "pc s' = (pc s)(1 := Suc (pc s 1))" "\<nexists>s''. job_step True nodes s' s''"
    using s(4) main_length [OF nodes, of 1] by auto
  then show ?thesis using s(3) printed_iff [OF s'(1) nodes] by auto
qed

text \<open>
  C16. In a build with \<^verbatim>\<open>TRANSACTIONS_STATS\<close>, every run of the job ends, since the
  step relation is well-founded, and none is stuck before some node has called \<^verbatim>\<open>gasnet_exit\<close>: neither the barriers nor the waits for the end of
  the execution and for the statistics can block for ever.  That call comes only after node 0
  has run the main thread and told all others to end, and all nodes have announced the second
  barrier; then all processes are terminated.  If node 0 itself got to its end, it has printed
  the report of all nodes; there is such a run.  But with more than one node there is also a
  run in which another node exits first and the job ends without the report.
\<close>

theorem main_no_deadlock:
  assumes nodes: "0 < nodes"
  shows "wf {(s', s). job_step True nodes s s'} \<and>
    (\<forall>s. job_reach True nodes final s \<longrightarrow>
       (\<not> ended s \<longrightarrow> (\<exists>s'. job_step True nodes s s')) \<and>
       (ended s \<longrightarrow> nodes + 4 < pc s 0 \<and> (\<forall>n<nodes. notified s n = 2)) \<and>
       ((\<nexists>s'. job_step True nodes s s') \<longrightarrow> (\<forall>n<nodes. gone s n) \<and>
          (pc s 0 = length (main_program True nodes 0) \<longrightarrow> printed s = Some (print_nodes_stats (map final [0..<nodes]))))) \<and>
    (\<exists>s. job_reach True nodes final s \<and> (\<nexists>s'. job_step True nodes s s') \<and>
       printed s = Some (print_nodes_stats (map final [0..<nodes]))) \<and>
    (1 < nodes \<longrightarrow> (\<exists>s. job_reach True nodes final s \<and> (\<nexists>s'. job_step True nodes s s') \<and> printed s = None))"
proof (intro conjI allI impI)
  fix s assume s: "job_reach True nodes final s"
  note inv = job_reach_end [OF s nodes]
  show "\<exists>s'. job_step True nodes s s'" if "\<not> ended s" by (rule job_goes_on [OF s nodes that])
  show "notified s n = 2" if "ended s" "n < nodes" for n
    using inv that main_length [OF nodes] unfolding past_second_def exit_ok_def by fastforce
  then show "nodes + 4 < pc s 0" if "ended s" using notified_2 [OF job_reach_ok [OF s nodes] nodes] nodes that by simp
  show "gone s n" if "\<nexists>s'. job_step True nodes s s'" "n < nodes" for n
    using job_goes_on [OF s nodes] job_step.kill [of s n nodes True] that by blast
  show "printed s = Some (print_nodes_stats (map final [0..<nodes]))" if "pc s 0 = length (main_program True nodes 0)"
    using printed_iff [OF s nodes] that main_length [OF nodes, of 0] by simp
qed (rule wf_job_step report_printed [OF nodes] report_lost, assumption?)+

theorem main_no_deadlock_witness:
  "(\<exists>s. job_reach True 2 (\<lambda>_. no_node_stats) s \<and> (\<nexists>s'. job_step True 2 s s') \<and>
      printed s = Some (print_nodes_stats (map (\<lambda>_. no_node_stats) [0..<2]))) \<and>
   (\<exists>s. job_reach True 2 (\<lambda>_. no_node_stats) s \<and> (\<nexists>s'. job_step True 2 s s') \<and> printed s = None)"
  using main_no_deadlock [of 2 "\<lambda>_. no_node_stats"] by simp

theorem report_complete_witness:
  "\<exists>s. job_reach True 2 (\<lambda>_. no_node_stats) s \<and> printed s \<noteq> None \<and>
    (\<forall>xs d msg ys. job_net s = xs @ (d, msg) # ys \<longrightarrow> handle d msg (s\<lparr>job_net := xs @ ys\<rparr>) \<noteq> None)"
proof -
  obtain s where s: "job_reach True 2 (\<lambda>_. no_node_stats) s"
    "printed s = Some (print_nodes_stats (map (\<lambda>_. no_node_stats) [0..<2]))"
    using report_printed [of 2 "\<lambda>_. no_node_stats"] by auto
  from report_complete [OF s(1)] s show ?thesis by (intro exI [of _ s]) simp
qed

end
