(* ===== verification/Barrier.thy ===== *)
theory Barrier
  imports Main
begin

text \<open>
  The barrier of application threads (\<^verbatim>\<open>src/src/dstm_barrier.cpp\<close>): the distribution of threads
  to nodes, and the crossing of a barrier by the threads of one node, of which the last one
  performs the GASNet barrier with the other nodes.  The mutex makes each entry one step; a
  wait for the condition variable ends in a step of its own after the broadcast.
\<close>

record barrier =
  count :: int
  crossing :: int
  start_sec :: int
  start_usec :: int

definition barrier_init :: "nat \<Rightarrow> int \<Rightarrow> barrier \<Rightarrow> barrier" where
  "barrier_init me n b = b\<lparr>count := (if me = 0 then n + 1 else n), crossing := 0\<rparr>"

definition barrier_calculate_threads :: "int \<Rightarrow> int \<Rightarrow> int \<Rightarrow> int" where
  "barrier_calculate_threads nodes me tnum =
     (let mynode = me + 1; d = tnum div nodes; r = tnum mod nodes
      in if d > 0
         then if r > 0 then if mynode > r then d else d + 1
              else d
         else if mynode > tnum then 0 else 1)"

text \<open>
  What an entry does: the thread waits for the broadcast, goes on at once, or completes the
  barrier: it performs the barrier of the nodes and wakes the waiting threads up.  \<open>now\<close> is
  the time of day.
\<close>

datatype crossed = Waits | Continues | Completes

definition barrier_cross :: "bool \<Rightarrow> int \<times> int \<Rightarrow> barrier \<Rightarrow> crossed \<times> barrier" where
  "barrier_cross local_wait now b =
     (let b = b\<lparr>crossing := crossing b + 1\<rparr>
      in if crossing b < count b
         then if local_wait then (Waits, b)
              else (Continues, if crossing b = 1 then b\<lparr>start_sec := fst now, start_usec := snd now\<rparr> else b)
         else let b = b\<lparr>count := crossing b\<rparr>
              in (Completes, if local_wait then b\<lparr>crossing := crossing b - 1\<rparr> else b\<lparr>crossing := 0\<rparr>))"

text \<open>A waiting thread after the broadcast.\<close>

definition barrier_wake :: "barrier \<Rightarrow> barrier" where
  "barrier_wake b = (if crossing b \<noteq> 0 then b\<lparr>crossing := crossing b - 1\<rparr> else b)"

definition barrier_canbe_destroyed :: "barrier \<Rightarrow> int" where
  "barrier_canbe_destroyed b = (if crossing b = 0 then 1 else 0)"

text \<open>Quotients of the non-negative microseconds, so the division of C is \<open>div\<close>.\<close>

definition barrier_elapsed :: "int \<times> int \<Rightarrow> barrier \<Rightarrow> int" where
  "barrier_elapsed now b = (fst now * 1000 + snd now div 1000) - (start_sec b * 1000 + start_usec b div 1000)"

subsection \<open>Distribution of threads\<close>

lemma calculate_eq:
  assumes "0 < n" "0 \<le> t" "0 \<le> k" "k < n"
  shows "barrier_calculate_threads n k t = t div n + (if k < t mod n then 1 else 0)"
proof (cases "t < n")
  case True
  with assms have "t div n = 0" "t mod n = t" by simp_all
  with assms show ?thesis by (simp add: barrier_calculate_threads_def)
next
  case False
  with assms have "0 < t div n" by (simp add: pos_imp_zdiv_pos_iff)
  with assms pos_mod_sign [of n t] show ?thesis by (auto simp: barrier_calculate_threads_def Let_def)
qed

lemma sum_first: "0 \<le> r \<Longrightarrow> r \<le> int n \<Longrightarrow> (\<Sum>k<n. if int k < r then 1 else 0) = r"
proof -
  assume r: "0 \<le> r" "r \<le> int n"
  have "(\<Sum>k<n. if int k < r then 1 else 0) = (\<Sum>k \<in> {k. k < n \<and> int k < r}. 1 :: int)"
    by (intro sum.mono_neutral_cong_right) auto
  also have "{k. k < n \<and> int k < r} = {..<nat r}" using r by auto
  finally show ?thesis using r by simp
qed

text \<open>
  All threads are distributed: the numbers of the nodes add up to the number of threads, and
  no node has more than one thread more than another.
\<close>

theorem threads_distributed:
  assumes n: "0 < n" and t: "0 \<le> t"
  shows "(\<Sum>k<n. barrier_calculate_threads (int n) (int k) t) = t \<and>
    (\<forall>k l. k < n \<longrightarrow> l < n \<longrightarrow> barrier_calculate_threads (int n) (int k) t \<le> barrier_calculate_threads (int n) (int l) t + 1)"
proof
  have "(\<Sum>k<n. barrier_calculate_threads (int n) (int k) t) = (\<Sum>k<n. t div int n + (if int k < t mod int n then 1 else 0))"
    using n t by (intro sum.cong refl calculate_eq) simp_all
  also have "\<dots> = int n * (t div int n) + t mod int n"
    using n sum_first [of "t mod int n" n] by (simp add: sum.distrib pos_mod_bound order_less_imp_le)
  finally show "(\<Sum>k<n. barrier_calculate_threads (int n) (int k) t) = t" by simp
  show "\<forall>k l. k < n \<longrightarrow> l < n \<longrightarrow> barrier_calculate_threads (int n) (int k) t \<le> barrier_calculate_threads (int n) (int l) t + 1"
    using n t by (simp add: calculate_eq)
qed

theorem threads_distributed_witness:
  "(\<Sum>k<3. barrier_calculate_threads (int 3) (int k) 8) = 8"
  using threads_distributed [of 3 8] by simp

subsection \<open>A round of the barrier\<close>

text \<open>The results of \<open>k\<close> entries one after the other, and the effect of \<open>k\<close> wake-ups.\<close>

fun entries :: "nat \<Rightarrow> bool \<Rightarrow> (int \<times> int) \<Rightarrow> barrier \<Rightarrow> crossed list \<times> barrier" where
  "entries 0 lw now b = ([], b)"
| "entries (Suc k) lw now b = (let (r, b) = barrier_cross lw now b; (rs, b) = entries k lw now b in (r # rs, b))"

lemma entries_short:
  "0 \<le> crossing b \<Longrightarrow> crossing b + int k < count b \<Longrightarrow>
   \<exists>b'. entries k lw now b = (replicate k (if lw then Waits else Continues), b') \<and>
        crossing b' = crossing b + int k \<and> count b' = count b"
proof (induction k arbitrary: b)
  case (Suc k)
  obtain r b1 where c: "barrier_cross lw now b = (r, b1)" by force
  with Suc.prems have b1: "r = (if lw then Waits else Continues)" "crossing b1 = crossing b + 1" "count b1 = count b"
    by (auto simp: barrier_cross_def Let_def split: if_splits)
  with Suc.prems obtain b' where "entries k lw now b1 = (replicate k (if lw then Waits else Continues), b')"
    "crossing b' = crossing b1 + int k" "count b' = count b1"
    using Suc.IH [of b1] by fastforce
  with b1 show ?case by (simp add: c)
qed simp

lemma entries_append:
  "entries (k + l) lw now b = (let (rs, b) = entries k lw now b; (rs', b) = entries l lw now b in (rs @ rs', b))"
  by (induction k arbitrary: b) (simp_all add: Let_def split: prod.splits)

lemma wakes: "0 \<le> crossing b \<Longrightarrow> crossing ((barrier_wake ^^ k) b) = max 0 (crossing b - int k) \<and> count ((barrier_wake ^^ k) b) = count b"
  by (induction k) (auto simp: barrier_wake_def)

lemma entries_full:
  assumes "crossing b = 0" "count b = int (Suc j)"
  shows "\<exists>b'. entries (Suc j) lw now b = (replicate j (if lw then Waits else Continues) @ [Completes], b') \<and>
    crossing b' = (if lw then int j else 0) \<and> count b' = int (Suc j)"
proof -
  obtain b1 where 1: "entries j lw now b = (replicate j (if lw then Waits else Continues), b1)"
    "crossing b1 = int j" "count b1 = int (Suc j)"
    using entries_short [of b j lw now] assms by auto
  then obtain b' where "barrier_cross lw now b1 = (Completes, b')" "crossing b' = (if lw then int j else 0)"
    "count b' = int (Suc j)"
    by (simp add: barrier_cross_def Let_def)
  with 1 show ?thesis using entries_append [of j 1 lw now b] by simp
qed

text \<open>
  A round: of \<open>k\<close> threads that enter a barrier for \<open>k\<close> threads which nobody is crossing, all but
  the last one wait (or go on, without local waiting), the last one completes the barrier, and
  after all waiting threads have left, the barrier is as before the round and may be destroyed.
\<close>

theorem barrier_round:
  assumes "crossing b = 0" "count b = int k" "0 < k"
  shows "\<exists>b'. entries k lw now b = (replicate (k - 1) (if lw then Waits else Continues) @ [Completes], b') \<and>
    (let b'' = (if lw then (barrier_wake ^^ (k - 1)) b' else b')
     in crossing b'' = 0 \<and> count b'' = count b \<and> barrier_canbe_destroyed b'' = 1)"
proof -
  from assms(3) obtain j where k: "k = Suc j" by (cases k) auto
  from entries_full [OF assms(1) assms(2) [unfolded k], of lw now] obtain b' where
    "entries k lw now b = (replicate j (if lw then Waits else Continues) @ [Completes], b')"
    "crossing b' = (if lw then int j else 0)" "count b' = count b"
    using assms(2) k by auto
  with wakes [of b' j] show ?thesis by (cases lw) (simp_all add: k barrier_canbe_destroyed_def)
qed

theorem barrier_round_witness:
  "\<exists>b'. entries 3 True (0, 0) \<lparr>count = 3, crossing = 0, start_sec = 0, start_usec = 0\<rparr> =
      (replicate (3 - 1) (if True then Waits else Continues) @ [Completes], b') \<and>
    (let b'' = (if True then (barrier_wake ^^ (3 - 1)) b' else b')
     in crossing b'' = 0 \<and> count b'' = count \<lparr>count = 3, crossing = 0, start_sec = 0, start_usec = 0\<rparr> \<and>
        barrier_canbe_destroyed b'' = 1)"
  by (rule barrier_round) simp_all

text \<open>
  C38. The barrier may not be entered again before all threads of the round before have left: a
  thread that completes a round of \<open>k > 1\<close> threads and comes back before the others are awake
  finds the barrier full and passes it alone.
\<close>

theorem barrier_reentered_early:
  assumes "crossing b = 0" "count b = int k" "1 < k" and "entries k True now b = (rs, b')"
  shows "fst (barrier_cross True now b') = Completes"
proof -
  from assms(3) obtain j where k: "k = Suc j" "0 < j" by (cases k) auto
  from entries_full [OF assms(1) assms(2) [unfolded k], of True now] assms(4) have
    "crossing b' = int j" "count b' = int (Suc j)" by (auto simp: k)
  then show ?thesis by (simp add: barrier_cross_def Let_def)
qed

theorem barrier_reentered_early_witness:
  "fst (barrier_cross True (0, 0) \<lparr>count = 2, crossing = 1, start_sec = 0, start_usec = 0\<rparr>) = Completes"
  by (rule barrier_reentered_early [where k = 2 and now = "(0, 0)" and rs = "[Waits, Completes]"
        and b = "\<lparr>count = 2, crossing = 0, start_sec = 0, start_usec = 0\<rparr>"])
    (simp_all add: barrier_cross_def eval_nat_numeral Let_def)

end
