(* ===== verification/Spin_Rw_Mutex.thy ===== *)
theory Spin_Rw_Mutex
  imports Prelude
begin

text \<open>
  The spinning reader-writer mutex of the bundled threading library
  (\<^verbatim>\<open>src/src/tbb/src/tbb/spin_rw_mutex.cpp\<close>, \<^verbatim>\<open>src/src/tbb/include/tbb/spin_rw_mutex.h\<close>).  Every
  method is a function from its program counter and the shared word to the next program
  counter (or its return value) and the new word: one atomic access of the source for each
  application.  A thread owns one \<^verbatim>\<open>scoped_lock\<close>; the system interleaves the atomic steps of
  any number of threads.
\<close>

subsection \<open>The state word\<close>

definition WRITER :: u64 where "WRITER = 1"
definition WRITER_PENDING :: u64 where "WRITER_PENDING = 2"
definition READERS :: u64 where "READERS = NOT (WRITER OR WRITER_PENDING)"
definition ONE_READER :: u64 where "ONE_READER = 4"
definition BUSY :: u64 where "BUSY = WRITER OR READERS"

text \<open>The value found in the word, and the word after the exchange.\<close>

definition CAS :: "u64 \<Rightarrow> u64 \<Rightarrow> u64 \<Rightarrow> u64 \<times> u64" where
  "CAS addr newv oldv = (addr, if addr = oldv then newv else addr)"

subsection \<open>The methods of the mutex\<close>

text \<open>
  \<open>Inl\<close> is the program counter of the next atomic access, \<open>Inr\<close> the returned value.  The
  pauses of the backoff do not touch the word; they are the steps other threads take between.
\<close>

datatype aw_pc = AW_load | AW_cas u64 | AW_or

fun internal_acquire_writer :: "aw_pc \<Rightarrow> u64 \<Rightarrow> (aw_pc + bool) \<times> u64" where
  "internal_acquire_writer AW_load w =
     (if w AND BUSY = 0 then Inl (AW_cas w)
      else if w AND WRITER_PENDING = 0 then Inl AW_or
      else Inl AW_load, w)"
| "internal_acquire_writer (AW_cas s) w =
     (let (v, w') = CAS w WRITER s in (if v = s then Inr False else Inl AW_load, w'))"
| "internal_acquire_writer AW_or w = (Inl AW_load, w OR WRITER_PENDING)"

definition internal_release_writer :: "u64 \<Rightarrow> u64" where
  "internal_release_writer w = w AND READERS"

datatype ar_pc = AR_load | AR_add | AR_undo

fun internal_acquire_reader :: "ar_pc \<Rightarrow> u64 \<Rightarrow> (ar_pc + unit) \<times> u64" where
  "internal_acquire_reader AR_load w =
     (if w AND (WRITER OR WRITER_PENDING) = 0 then Inl AR_add else Inl AR_load, w)"
| "internal_acquire_reader AR_add w =
     (if w AND WRITER = 0 then Inr () else Inl AR_undo, w + ONE_READER)"
| "internal_acquire_reader AR_undo w = (Inl AR_load, w - ONE_READER)"

definition internal_release_reader :: "u64 \<Rightarrow> u64" where
  "internal_release_reader w = w - ONE_READER"

datatype up_pc = UP_load | UP_loop u64 | UP_wait | UP_sub | UP_release | UP_acquire aw_pc

fun internal_upgrade :: "up_pc \<Rightarrow> u64 \<Rightarrow> (up_pc + bool) \<times> u64" where
  "internal_upgrade UP_load w = (Inl (UP_loop w), w)"
| "internal_upgrade (UP_loop s) w =
     (if s AND READERS = ONE_READER \<or> s AND WRITER_PENDING = 0
      then let (v, w') = CAS w (s OR WRITER OR WRITER_PENDING) s
           in (if v = s then Inl UP_wait else Inl (UP_loop v), w')
      else (Inl UP_release, w))"
| "internal_upgrade UP_wait w = (if w AND READERS \<noteq> ONE_READER then Inl UP_wait else Inl UP_sub, w)"
| "internal_upgrade UP_sub w = (Inr True, w - (ONE_READER + WRITER_PENDING))"
| "internal_upgrade UP_release w = (Inl (UP_acquire AW_load), internal_release_reader w)"
| "internal_upgrade (UP_acquire p) w =
     (case internal_acquire_writer p w of
        (Inl q, w') \<Rightarrow> (Inl (UP_acquire q), w')
      | (Inr r, w') \<Rightarrow> (Inr r, w'))"

definition internal_downgrade :: "u64 \<Rightarrow> u64" where
  "internal_downgrade w = w + (ONE_READER - WRITER)"

datatype tw_pc = TW_load | TW_cas u64

fun internal_try_acquire_writer :: "tw_pc \<Rightarrow> u64 \<Rightarrow> (tw_pc + bool) \<times> u64" where
  "internal_try_acquire_writer TW_load w = (if w AND BUSY = 0 then Inl (TW_cas w) else Inr False, w)"
| "internal_try_acquire_writer (TW_cas s) w =
     (let (v, w') = CAS w WRITER s in (Inr (v = s), w'))"

datatype tr_pc = TR_load | TR_add | TR_undo

fun internal_try_acquire_reader :: "tr_pc \<Rightarrow> u64 \<Rightarrow> (tr_pc + bool) \<times> u64" where
  "internal_try_acquire_reader TR_load w =
     (if w AND (WRITER OR WRITER_PENDING) = 0 then Inl TR_add else Inr False, w)"
| "internal_try_acquire_reader TR_add w =
     (if w AND WRITER = 0 then Inr True else Inl TR_undo, w + ONE_READER)"
| "internal_try_acquire_reader TR_undo w = (Inr False, w - ONE_READER)"

text \<open>The method \<^verbatim>\<open>unlock\<close> of the mutex itself, which does not know how the lock is held.\<close>

datatype ul_pc = UL_load | UL_release bool

fun unlock :: "ul_pc \<Rightarrow> u64 \<Rightarrow> (ul_pc + unit) \<times> u64" where
  "unlock UL_load w = (Inl (UL_release (w AND WRITER \<noteq> 0)), w)"
| "unlock (UL_release b) w = (Inr (), if b then internal_release_writer w else internal_release_reader w)"

subsection \<open>Scoped locks and threads\<close>

datatype pc =
    Ready
  | In_acquire_writer aw_pc
  | In_acquire_reader ar_pc
  | In_upgrade up_pc
  | In_try_writer tw_pc
  | In_try_reader tr_pc

text \<open>
  The fields of a \<^verbatim>\<open>scoped_lock\<close> (\<open>mutex\<close>: the pointer is not NULL; there is one mutex), where
  its thread stands, and the value the last method returned.
\<close>

record rw_thread =
  mutex :: bool
  is_writer :: bool
  at_pc :: pc
  returned :: bool

definition scoped_lock :: rw_thread where
  "scoped_lock = \<lparr>mutex = False, is_writer = False, at_pc = Ready, returned = False\<rparr>"

text \<open>
  The calls of a client, \<open>None\<close> where an assertion of the method excludes them.
\<close>

definition scoped_acquire :: "bool \<Rightarrow> rw_thread \<Rightarrow> u64 \<Rightarrow> (rw_thread \<times> u64) option" where
  "scoped_acquire write t w =
     (if mutex t then None
      else Some (t\<lparr>is_writer := write, mutex := True,
                   at_pc := (if write then In_acquire_writer AW_load else In_acquire_reader AR_load)\<rparr>, w))"

definition upgrade_to_writer :: "rw_thread \<Rightarrow> u64 \<Rightarrow> (rw_thread \<times> u64) option" where
  "upgrade_to_writer t w =
     (if mutex t \<and> \<not> is_writer t then Some (t\<lparr>is_writer := True, at_pc := In_upgrade UP_load\<rparr>, w) else None)"

definition scoped_release :: "rw_thread \<Rightarrow> u64 \<Rightarrow> (rw_thread \<times> u64) option" where
  "scoped_release t w =
     (if mutex t
      then Some (t\<lparr>mutex := False\<rparr>,
                 if is_writer t then internal_release_writer w else internal_release_reader w)
      else None)"

definition downgrade_to_reader :: "rw_thread \<Rightarrow> u64 \<Rightarrow> (rw_thread \<times> u64) option" where
  "downgrade_to_reader t w =
     (if mutex t \<and> is_writer t
      then Some (t\<lparr>is_writer := False, returned := True\<rparr>, internal_downgrade w) else None)"

definition scoped_try_acquire :: "bool \<Rightarrow> rw_thread \<Rightarrow> u64 \<Rightarrow> (rw_thread \<times> u64) option" where
  "scoped_try_acquire write t w =
     (if mutex t then None
      else Some (t\<lparr>is_writer := write,
                   at_pc := (if write then In_try_writer TW_load else In_try_reader TR_load)\<rparr>, w))"

datatype call = Acquire bool | Try_acquire bool | Upgrade | Downgrade | Release

text \<open>A thread calls a method only when the previous one has returned.\<close>

definition scoped_call :: "call \<Rightarrow> rw_thread \<Rightarrow> u64 \<Rightarrow> (rw_thread \<times> u64) option" where
  "scoped_call c t w =
     (if at_pc t \<noteq> Ready then None
      else case c of
          Acquire write \<Rightarrow> scoped_acquire write t w
        | Try_acquire write \<Rightarrow> scoped_try_acquire write t w
        | Upgrade \<Rightarrow> upgrade_to_writer t w
        | Downgrade \<Rightarrow> downgrade_to_reader t w
        | Release \<Rightarrow> scoped_release t w)"

text \<open>One atomic access of a running method; \<^verbatim>\<open>try_acquire\<close> stores the pointer on success.\<close>

definition resume :: "rw_thread \<Rightarrow> u64 \<Rightarrow> (rw_thread \<times> u64) option" where
  "resume t w =
     (case at_pc t of
        Ready \<Rightarrow> None
      | In_acquire_writer p \<Rightarrow>
          (case internal_acquire_writer p w of
             (Inl q, w') \<Rightarrow> Some (t\<lparr>at_pc := In_acquire_writer q\<rparr>, w')
           | (Inr r, w') \<Rightarrow> Some (t\<lparr>at_pc := Ready, returned := r\<rparr>, w'))
      | In_acquire_reader p \<Rightarrow>
          (case internal_acquire_reader p w of
             (Inl q, w') \<Rightarrow> Some (t\<lparr>at_pc := In_acquire_reader q\<rparr>, w')
           | (Inr r, w') \<Rightarrow> Some (t\<lparr>at_pc := Ready\<rparr>, w'))
      | In_upgrade p \<Rightarrow>
          (case internal_upgrade p w of
             (Inl q, w') \<Rightarrow> Some (t\<lparr>at_pc := In_upgrade q\<rparr>, w')
           | (Inr r, w') \<Rightarrow> Some (t\<lparr>at_pc := Ready, returned := r\<rparr>, w'))
      | In_try_writer p \<Rightarrow>
          (case internal_try_acquire_writer p w of
             (Inl q, w') \<Rightarrow> Some (t\<lparr>at_pc := In_try_writer q\<rparr>, w')
           | (Inr r, w') \<Rightarrow> Some (t\<lparr>at_pc := Ready, returned := r, mutex := r\<rparr>, w'))
      | In_try_reader p \<Rightarrow>
          (case internal_try_acquire_reader p w of
             (Inl q, w') \<Rightarrow> Some (t\<lparr>at_pc := In_try_reader q\<rparr>, w')
           | (Inr r, w') \<Rightarrow> Some (t\<lparr>at_pc := Ready, returned := r, mutex := r\<rparr>, w')))"

subsection \<open>The system of threads\<close>

type_synonym rw_system = "u64 \<times> rw_thread list"

inductive rw_step :: "rw_system \<Rightarrow> rw_system \<Rightarrow> bool" where
  resumes: "i < length ts \<Longrightarrow> resume (ts ! i) w = Some (t, w') \<Longrightarrow> rw_step (w, ts) (w', ts[i := t])"
| calls: "i < length ts \<Longrightarrow> scoped_call c (ts ! i) w = Some (t, w') \<Longrightarrow> rw_step (w, ts) (w', ts[i := t])"

definition rw_init :: "nat \<Rightarrow> rw_system" where
  "rw_init n = (0, replicate n scoped_lock)"

abbreviation rw_reachable :: "nat \<Rightarrow> rw_system \<Rightarrow> bool" where
  "rw_reachable n \<equiv> rw_step\<^sup>*\<^sup>* (rw_init n)"

definition holds_read :: "rw_thread \<Rightarrow> bool" where
  "holds_read t \<longleftrightarrow> mutex t \<and> \<not> is_writer t \<and> at_pc t = Ready"

definition holds_write :: "rw_thread \<Rightarrow> bool" where
  "holds_write t \<longleftrightarrow> mutex t \<and> is_writer t \<and> at_pc t = Ready"

subsection \<open>Words with a number of readers and the two flags\<close>

definition rw_word :: "nat \<Rightarrow> bool \<Rightarrow> bool \<Rightarrow> u64" where
  "rw_word n p q = (push_bit 2 (of_nat n) OR (if p then 2 else 0)) OR (if q then 1 else 0)"

lemma bit_rw_word:
  "bit (rw_word n p q) i \<longleftrightarrow> i = 0 \<and> q \<or> i = 1 \<and> p \<or> 2 \<le> i \<and> i < 64 \<and> bit n (i - 2)"
  by (auto simp: rw_word_def bit_or_iff bit_push_bit_iff bit_2_iff bit_1_iff bit_simps)

lemma rw_word_arith: "rw_word n p q = 4 * of_nat n + (if p then 2 else 0) + (if q then 1 else 0)"
proof -
  have "\<not> bit (push_bit 2 (of_nat n) AND (if p then 2 else 0 :: u64)) i" for i
    by (simp only: bit_and_iff bit_push_bit_iff) (auto simp: bit_2_iff)
  then have two: "push_bit 2 (of_nat n) AND (if p then 2 else 0 :: u64) = 0"
    by (intro bit_eqI) simp
  have "\<not> bit ((push_bit 2 (of_nat n) OR (if p then 2 else 0)) AND (if q then 1 else 0 :: u64)) i" for i
    by (simp only: bit_and_iff bit_or_iff bit_push_bit_iff) (auto simp: bit_2_iff bit_1_iff)
  then have one: "(push_bit 2 (of_nat n) OR (if p then 2 else 0)) AND (if q then 1 else 0 :: u64) = 0"
    by (intro bit_eqI) simp
  have "rw_word n p q = push_bit 2 (of_nat n) + (if p then 2 else 0) + (if q then 1 else 0)"
    by (simp only: rw_word_def disjunctive_add_eq_or [OF two] disjunctive_add_eq_or [OF one])
  then show ?thesis by (simp add: push_bit_eq_mult mult.commute)
qed

lemma rw_word_eq_iff:
  assumes "n < 2 ^ 62" "n' < 2 ^ 62"
  shows "rw_word n p q = rw_word n' p' q' \<longleftrightarrow> n = n' \<and> p = p' \<and> q = q'"
proof
  assume eq: "rw_word n p q = rw_word n' p' q'"
  then have bits: "bit (rw_word n p q) i \<longleftrightarrow> bit (rw_word n' p' q') i" for i by simp
  have "bit n i \<longleftrightarrow> bit n' i" if "i < 62" for i
    using bits [of "i + 2"] that by (simp add: bit_rw_word)
  moreover have "\<not> bit n i" "\<not> bit n' i" if "62 \<le> i" for i
    using that assms by (metis bit_take_bit_iff linorder_not_le take_bit_nat_eq_self_iff)+
  ultimately have "n = n'" by (metis bit_eqI linorder_not_le)
  then show "n = n' \<and> p = p' \<and> q = q'"
    using bits [of 0] bits [of 1] by (simp add: bit_rw_word)
qed simp

named_theorems rw_words \<open>accesses to a state word in terms of its readers and flags\<close>

lemma flags_bits:
  "bit WRITER i \<longleftrightarrow> i = 0" "bit WRITER_PENDING i \<longleftrightarrow> i = 1"
  "bit READERS i \<longleftrightarrow> 2 \<le> i \<and> i < 64" "bit BUSY i \<longleftrightarrow> i \<noteq> 1 \<and> i < 64"
  unfolding READERS_def BUSY_def WRITER_def WRITER_PENDING_def
  by (auto simp only: bit_not_iff_eq bit_or_iff bit_2_iff bit_1_iff possible_bit_word) auto

lemma rw_word_zero: "rw_word 0 False False = 0"
  by (simp add: rw_word_def)

lemma and_readers [rw_words]: "rw_word n p q AND READERS = rw_word n False False"
  by (rule bit_eqI) (auto simp: bit_rw_word bit_and_iff flags_bits)

lemma or_pending [rw_words]: "rw_word n p q OR WRITER_PENDING = rw_word n True q"
  by (rule bit_eqI) (auto simp: bit_rw_word bit_or_iff flags_bits)

lemma or_writer_pending [rw_words]: "rw_word n p q OR WRITER OR WRITER_PENDING = rw_word n True True"
  by (rule bit_eqI) (auto simp: bit_rw_word bit_or_iff flags_bits)

lemma and_writer [rw_words]: "rw_word n p q AND WRITER = 0 \<longleftrightarrow> \<not> q"
proof -
  have "rw_word n p q AND WRITER = rw_word 0 False q"
    by (rule bit_eqI) (auto simp: bit_rw_word bit_and_iff flags_bits)
  then show ?thesis by (simp add: rw_word_eq_iff flip: rw_word_zero)
qed

lemma and_pending [rw_words]: "rw_word n p q AND WRITER_PENDING = 0 \<longleftrightarrow> \<not> p"
proof -
  have "rw_word n p q AND WRITER_PENDING = rw_word 0 p False"
    by (rule bit_eqI) (auto simp: bit_rw_word bit_and_iff flags_bits)
  then show ?thesis by (simp add: rw_word_eq_iff flip: rw_word_zero)
qed

lemma and_writer_or_pending [rw_words]:
  "rw_word n p q AND (WRITER OR WRITER_PENDING) = 0 \<longleftrightarrow> \<not> p \<and> \<not> q"
proof -
  have "rw_word n p q AND (WRITER OR WRITER_PENDING) = rw_word 0 p q"
    by (rule bit_eqI) (auto simp: bit_rw_word bit_and_iff bit_or_iff flags_bits)
  then show ?thesis by (simp add: rw_word_eq_iff flip: rw_word_zero)
qed

lemma and_busy [rw_words]: "n < 2 ^ 62 \<Longrightarrow> rw_word n p q AND BUSY = 0 \<longleftrightarrow> n = 0 \<and> \<not> q"
proof -
  assume n: "n < 2 ^ 62"
  have "rw_word n p q AND BUSY = rw_word n False q"
    by (rule bit_eqI) (auto simp: bit_rw_word bit_and_iff flags_bits)
  then show ?thesis using n by (simp add: rw_word_eq_iff flip: rw_word_zero)
qed

lemma one_reader: "ONE_READER = rw_word 1 False False"
  by (simp add: ONE_READER_def rw_word_arith)

lemma writer_word: "WRITER = rw_word 0 False True"
  by (simp add: WRITER_def rw_word_arith)

lemma is_one_reader [rw_words]: "n < 2 ^ 62 \<Longrightarrow> rw_word n False False = ONE_READER \<longleftrightarrow> n = 1"
  by (simp add: one_reader rw_word_eq_iff)

lemma add_reader [rw_words]: "rw_word n p q + ONE_READER = rw_word (Suc n) p q"
  by (simp add: rw_word_arith ONE_READER_def)

lemma sub_reader [rw_words]: "rw_word (Suc n) p q - ONE_READER = rw_word n p q"
  by (simp add: rw_word_arith ONE_READER_def)

lemma sub_reader_and_pending [rw_words]:
  "rw_word (Suc n) True q - (ONE_READER + WRITER_PENDING) = rw_word n False q"
  by (simp add: rw_word_arith ONE_READER_def WRITER_PENDING_def)

lemma writer_to_reader [rw_words]:
  "rw_word n p True + (ONE_READER - WRITER) = rw_word (Suc n) p False"
  by (simp add: rw_word_arith ONE_READER_def WRITER_def)

lemma cas_word [rw_words]: "CAS w new s = (w, if w = s then new else w)"
  by (simp add: CAS_def)

subsection \<open>The roles of threads\<close>

text \<open>
  What a thread contributes to the word: nothing, a wish to write, an increment it will undo, a
  reader, an upgrading reader that waits for the others (\<open>Drains\<close>) and then is alone (\<open>Sole\<close>),
  a writer.
\<close>

datatype role = Idle | Wants | Undoes | Reader | Drains | Sole | Writer

fun counted :: "role \<Rightarrow> bool" where
  "counted Undoes = True" | "counted Reader = True" | "counted Drains = True" | "counted Sole = True"
| "counted _ = False"

fun writing :: "role \<Rightarrow> bool" where
  "writing Drains = True" | "writing Sole = True" | "writing Writer = True" | "writing _ = False"

fun reading :: "role \<Rightarrow> bool" where
  "reading Reader = True" | "reading Drains = True" | "reading Sole = True" | "reading _ = False"

fun exclusive :: "role \<Rightarrow> bool" where
  "exclusive Sole = True" | "exclusive Writer = True" | "exclusive _ = False"

fun draining :: "role \<Rightarrow> bool" where
  "draining Drains = True" | "draining Sole = True" | "draining _ = False"

fun pending :: "role \<Rightarrow> bool" where
  "pending Wants = True" | "pending Drains = True" | "pending Sole = True" | "pending _ = False"

text \<open>The steps of the protocol between the roles.\<close>

inductive role_step :: "role \<Rightarrow> u64 \<Rightarrow> role \<Rightarrow> u64 \<Rightarrow> bool" where
  stay: "role_step r w r w"
| wish: "role_step Idle w Wants w"
| hint: "role_step Wants w Wants (w OR WRITER_PENDING)"
| win: "w AND BUSY = 0 \<Longrightarrow> r = Idle \<or> r = Wants \<Longrightarrow> role_step r w Writer WRITER"
| enter: "w AND WRITER = 0 \<Longrightarrow> role_step Idle w Reader (w + ONE_READER)"
| collide: "w AND WRITER \<noteq> 0 \<Longrightarrow> role_step Idle w Undoes (w + ONE_READER)"
| undo: "role_step Undoes w Idle (w - ONE_READER)"
| leave: "r = Idle \<or> r = Wants \<Longrightarrow> role_step Reader w r (w - ONE_READER)"
| claim: "w AND READERS = ONE_READER \<or> w AND WRITER_PENDING = 0 \<Longrightarrow>
          role_step Reader w Drains (w OR WRITER OR WRITER_PENDING)"
| alone: "w AND READERS = ONE_READER \<Longrightarrow> role_step Drains w Sole w"
| grow: "role_step Sole w Writer (w - (ONE_READER + WRITER_PENDING))"
| downgrade: "role_step Writer w Reader (w + (ONE_READER - WRITER))"
| free: "role_step Writer w Idle (w AND READERS)"

text \<open>
  The invariant as one thread in role \<open>r\<close> sees it: \<open>n\<close> of the other threads are counted; \<open>ow\<close>,
  \<open>ord\<close>, \<open>oe\<close>, \<open>op\<close> and \<open>od\<close> tell whether some other thread is writing, reading, exclusive,
  pending or draining; \<open>p\<close> is the pending flag.
\<close>

definition others_ok :: "nat \<Rightarrow> bool \<Rightarrow> bool \<Rightarrow> bool \<Rightarrow> bool \<Rightarrow> bool" where
  "others_ok n ow ord oe od \<longleftrightarrow> n < 2 ^ 61 \<and> (ord \<longrightarrow> 0 < n) \<and> (oe \<longrightarrow> ow) \<and> (od \<longrightarrow> ow) \<and>
     (ow \<longrightarrow> oe \<or> od \<and> 0 < n)"

definition rw_local ::
  "nat \<Rightarrow> bool \<Rightarrow> bool \<Rightarrow> bool \<Rightarrow> bool \<Rightarrow> bool \<Rightarrow> u64 \<Rightarrow> role \<Rightarrow> bool \<Rightarrow> bool" where
  "rw_local n ow ord oe op od w r p \<longleftrightarrow>
     w = rw_word (if counted r then Suc n else n) p (ow \<or> writing r) \<and>
     (p \<longrightarrow> op \<or> pending r) \<and> (od \<or> draining r \<longrightarrow> p) \<and>
     \<not> (ow \<and> writing r) \<and> \<not> (oe \<and> reading r) \<and> \<not> (exclusive r \<and> ord)"

lemma others_bound: "others_ok n ow ord oe od \<Longrightarrow> n < 2 ^ 62 \<and> Suc n < 2 ^ 62"
  by (simp add: others_ok_def)

lemma role_step_local:
  assumes "role_step r w r' w'" "rw_local n ow ord oe op od w r p" "others_ok n ow ord oe od"
  shows "\<exists>p'. rw_local n ow ord oe op od w' r' p'"
  using assms
proof (induction rule: role_step.induct)
  case (stay r w)
  then show ?case by (intro exI [of _ p])
next
  case (wish w)
  then show ?case by (intro exI [of _ p]) (auto simp: rw_local_def)
next
  case (hint w)
  then show ?case by (intro exI [of _ True]) (auto simp: rw_local_def or_pending)
next
  case (win w r)
  then have "n = 0 \<and> \<not> ow"
    using others_bound [OF win.prems(2)] by (auto simp: rw_local_def and_busy)
  then show ?case
    using win.prems by (intro exI [of _ False]) (auto simp: rw_local_def others_ok_def writer_word)
next
  case (enter w)
  then show ?case
    by (intro exI [of _ p]) (auto simp: rw_local_def add_reader and_writer others_ok_def)
next
  case (collide w)
  then show ?case
    by (intro exI [of _ p]) (auto simp: rw_local_def add_reader and_writer)
next
  case (undo w)
  then show ?case by (intro exI [of _ p]) (auto simp: rw_local_def sub_reader)
next
  case (leave r w)
  then show ?case by (intro exI [of _ p]) (auto simp: rw_local_def sub_reader)
next
  case (claim w)
  then have w: "w = rw_word (Suc n) p ow" and "od \<longrightarrow> p" "\<not> oe"
    by (auto simp: rw_local_def)
  moreover from w have "n = 0 \<or> \<not> p"
    using claim others_bound [OF claim.prems(2)]
    by (auto simp: and_readers and_pending is_one_reader)
  ultimately have "\<not> ow"
    using claim.prems(2) by (auto simp: others_ok_def)
  then show ?case
    using claim.prems w
    by (intro exI [of _ True]) (auto simp: rw_local_def or_writer_pending others_ok_def)
next
  case (alone w)
  then have "n = 0"
    using others_bound [OF alone.prems(2)] by (auto simp: rw_local_def and_readers is_one_reader)
  then show ?case
    using alone.prems by (intro exI [of _ p]) (auto simp: rw_local_def others_ok_def)
next
  case (grow w)
  then show ?case
    by (intro exI [of _ False]) (auto simp: rw_local_def sub_reader_and_pending others_ok_def)
next
  case (downgrade w)
  then show ?case
    by (intro exI [of _ p]) (auto simp: rw_local_def writer_to_reader others_ok_def)
next
  case (free w)
  then show ?case
    by (intro exI [of _ False]) (auto simp: rw_local_def and_readers others_ok_def)
qed

subsection \<open>The invariant of the system\<close>

fun pc_role :: "pc \<Rightarrow> role" where
  "pc_role (In_acquire_writer p) = Wants"
| "pc_role (In_acquire_reader AR_undo) = Undoes"
| "pc_role (In_try_reader TR_undo) = Undoes"
| "pc_role (In_upgrade UP_wait) = Drains"
| "pc_role (In_upgrade UP_sub) = Sole"
| "pc_role (In_upgrade (UP_acquire p)) = Wants"
| "pc_role (In_upgrade p) = Reader"
| "pc_role p = Idle"

definition role_of :: "rw_thread \<Rightarrow> role" where
  "role_of t = (if at_pc t = Ready then (if \<not> mutex t then Idle else if is_writer t then Writer else Reader)
                else pc_role (at_pc t))"

text \<open>
  The fields of the scoped lock while a method runs, and the value a writer loaded before its
  exchange.
\<close>

fun loaded_free :: "aw_pc \<Rightarrow> bool" where
  "loaded_free (AW_cas s) \<longleftrightarrow> s AND BUSY = 0" | "loaded_free p \<longleftrightarrow> True"

abbreviation upgrade_ok :: "up_pc \<Rightarrow> bool" where
  "upgrade_ok p \<equiv> case p of UP_acquire q \<Rightarrow> loaded_free q | _ \<Rightarrow> True"

definition shape :: "rw_thread \<Rightarrow> bool" where
  "shape t \<longleftrightarrow>
     (case at_pc t of
        Ready \<Rightarrow> True
      | In_acquire_writer p \<Rightarrow> mutex t \<and> is_writer t \<and> loaded_free p
      | In_acquire_reader p \<Rightarrow> mutex t \<and> \<not> is_writer t
      | In_upgrade p \<Rightarrow> mutex t \<and> is_writer t \<and> upgrade_ok p
      | In_try_writer p \<Rightarrow>
          \<not> mutex t \<and> is_writer t \<and> (case p of TW_cas s \<Rightarrow> s AND BUSY = 0 | _ \<Rightarrow> True)
      | In_try_reader p \<Rightarrow> \<not> mutex t \<and> \<not> is_writer t)"

lemma acquire_writer_role:
  "internal_acquire_writer p w = (Inl q, w') \<Longrightarrow> loaded_free p \<Longrightarrow> role_step Wants w Wants w' \<and> loaded_free q"
  "internal_acquire_writer p w = (Inr r, w') \<Longrightarrow> loaded_free p \<Longrightarrow> role_step Wants w Writer w' \<and> \<not> r"
  by (cases p; auto simp: CAS_def split: if_splits intro: role_step.intros)+

lemma acquire_reader_role:
  "internal_acquire_reader p w = (Inl q, w') \<Longrightarrow>
     role_step (pc_role (In_acquire_reader p)) w (pc_role (In_acquire_reader q)) w'"
  "internal_acquire_reader p w = (Inr r, w') \<Longrightarrow>
     role_step (pc_role (In_acquire_reader p)) w Reader w'"
  by (cases p; auto split: if_splits intro: role_step.intros)+

lemma try_writer_role:
  "internal_try_acquire_writer p w = (Inl q, w') \<Longrightarrow>
     role_step Idle w Idle w' \<and> (case q of TW_cas s \<Rightarrow> s AND BUSY = 0 | _ \<Rightarrow> True)"
  "internal_try_acquire_writer p w = (Inr r, w') \<Longrightarrow> (case p of TW_cas s \<Rightarrow> s AND BUSY = 0 | _ \<Rightarrow> True) \<Longrightarrow>
     role_step Idle w (if r then Writer else Idle) w'"
  by (cases p; auto simp: CAS_def split: if_splits intro: role_step.intros)+

lemma try_reader_role:
  "internal_try_acquire_reader p w = (Inl q, w') \<Longrightarrow>
     role_step (pc_role (In_try_reader p)) w (pc_role (In_try_reader q)) w'"
  "internal_try_acquire_reader p w = (Inr r, w') \<Longrightarrow>
     role_step (pc_role (In_try_reader p)) w (if r then Reader else Idle) w'"
  by (cases p; auto split: if_splits intro: role_step.intros)+

lemma upgrade_role:
  "internal_upgrade p w = (Inl q, w') \<Longrightarrow> upgrade_ok p \<Longrightarrow>
     role_step (pc_role (In_upgrade p)) w (pc_role (In_upgrade q)) w' \<and> upgrade_ok q"
  "internal_upgrade p w = (Inr r, w') \<Longrightarrow> upgrade_ok p \<Longrightarrow>
     role_step (pc_role (In_upgrade p)) w Writer w'"
  by (cases p; auto simp: CAS_def internal_release_reader_def split: if_splits sum.splits prod.splits
      intro: role_step.intros dest: acquire_writer_role)+

text \<open>The code implements the protocol.\<close>

lemma resume_role:
  assumes "resume t w = Some (t', w')" "shape t"
  shows "role_step (role_of t) w (role_of t') w' \<and> shape t'"
proof (cases "at_pc t")
  case Ready
  with assms show ?thesis by (simp add: resume_def)
next
  case (In_acquire_writer p)
  with assms show ?thesis
    by (auto simp: resume_def role_of_def shape_def split: sum.splits prod.splits dest!: acquire_writer_role)
next
  case (In_acquire_reader p)
  with assms show ?thesis
    by (auto simp: resume_def role_of_def shape_def split: sum.splits prod.splits dest!: acquire_reader_role)
next
  case (In_upgrade p)
  with assms show ?thesis
    by (auto simp: resume_def role_of_def shape_def split: sum.splits prod.splits dest!: upgrade_role)
next
  case (In_try_writer p)
  with assms show ?thesis
    by (auto simp: resume_def role_of_def shape_def split: sum.splits prod.splits if_splits
        dest: try_writer_role)
next
  case (In_try_reader p)
  with assms show ?thesis
    by (auto simp: resume_def role_of_def shape_def split: sum.splits prod.splits if_splits
        dest: try_reader_role)
qed

lemma call_role:
  assumes "scoped_call c t w = Some (t', w')" "shape t"
  shows "role_step (role_of t) w (role_of t') w' \<and> shape t'"
  using assms
  by (cases c) (auto simp: scoped_call_def scoped_acquire_def upgrade_to_writer_def scoped_release_def
      downgrade_to_reader_def scoped_try_acquire_def internal_release_writer_def
      internal_release_reader_def internal_downgrade_def role_of_def shape_def
      split: if_splits intro: role_step.intros)

definition some_role :: "(role \<Rightarrow> bool) \<Rightarrow> role list \<Rightarrow> bool" where
  "some_role P rs \<longleftrightarrow> (\<exists>r \<in> set rs. P r)"

lemma some_role_simps [simp]:
  "some_role P [] \<longleftrightarrow> False" "some_role P (r # rs) \<longleftrightarrow> P r \<or> some_role P rs"
  "some_role P (rs @ rs') \<longleftrightarrow> some_role P rs \<or> some_role P rs'"
  by (auto simp: some_role_def)

lemma some_role_mono: "some_role P rs \<Longrightarrow> (\<And>r. P r \<Longrightarrow> Q r) \<Longrightarrow> some_role Q rs"
  by (auto simp: some_role_def)

lemma filter_empty_role: "filter P rs = [] \<longleftrightarrow> \<not> some_role P rs"
  by (auto simp: some_role_def filter_empty_conv)

text \<open>The roles two threads may have at the same time.\<close>

definition compatible :: "role \<Rightarrow> role \<Rightarrow> bool" where
  "compatible r s \<longleftrightarrow>
     \<not> (writing r \<and> writing s) \<and> \<not> (exclusive r \<and> reading s) \<and> \<not> (reading r \<and> exclusive s)"

definition exclusion :: "role list \<Rightarrow> bool" where
  "exclusion rs \<longleftrightarrow> sorted_wrt compatible rs"

lemma exclusion_split:
  "exclusion (xs @ r # ys) \<longleftrightarrow> exclusion (xs @ ys) \<and>
     \<not> (some_role writing (xs @ ys) \<and> writing r) \<and>
     \<not> (some_role exclusive (xs @ ys) \<and> reading r) \<and>
     \<not> (exclusive r \<and> some_role reading (xs @ ys))"
  by (auto simp: exclusion_def sorted_wrt_append compatible_def some_role_def)

lemma exclusion_nth:
  "exclusion rs \<Longrightarrow> i < length rs \<Longrightarrow> j < length rs \<Longrightarrow> i \<noteq> j \<Longrightarrow> compatible (rs ! i) (rs ! j)"
  unfolding exclusion_def
  by (cases i j rule: linorder_cases) (auto simp: sorted_wrt_iff_nth_less compatible_def)

definition role_inv :: "u64 \<Rightarrow> role list \<Rightarrow> bool" where
  "role_inv w rs \<longleftrightarrow> length rs < 2 ^ 61 \<and> exclusion rs \<and>
     (\<exists>p. w = rw_word (length (filter counted rs)) p (some_role writing rs) \<and>
        (p \<longrightarrow> some_role pending rs) \<and> (some_role draining rs \<longrightarrow> p))"

lemma exclusive_writing: "exclusive r \<Longrightarrow> writing r" by (cases r) auto
lemma draining_writing: "draining r \<Longrightarrow> writing r" by (cases r) auto
lemma draining_counted: "draining r \<Longrightarrow> counted r" by (cases r) auto
lemma reading_counted: "reading r \<Longrightarrow> counted r" by (cases r) auto
lemma writing_cases: "writing r \<Longrightarrow> exclusive r \<or> draining r" by (cases r) auto

lemma others_ok_roles:
  assumes "length rs < 2 ^ 61"
  shows "others_ok (length (filter counted rs)) (some_role writing rs) (some_role reading rs)
    (some_role exclusive rs) (some_role draining rs)"
proof -
  have "length (filter counted rs) < 2 ^ 61"
    using assms length_filter_le [of counted rs] by linarith
  moreover have "some_role writing rs \<Longrightarrow> some_role exclusive rs \<or> some_role draining rs"
    by (auto simp: some_role_def dest: writing_cases)
  ultimately show ?thesis
    unfolding others_ok_def
    by (auto simp: filter_empty_role
        dest: some_role_mono [OF _ reading_counted] some_role_mono [OF _ draining_counted]
        some_role_mono [OF _ exclusive_writing] some_role_mono [OF _ draining_writing])
qed

lemma role_inv_split:
  "role_inv w (xs @ r # ys) \<longleftrightarrow>
     length xs + length ys + 1 < 2 ^ 61 \<and> exclusion (xs @ ys) \<and>
     (\<exists>p. rw_local (length (filter counted (xs @ ys))) (some_role writing (xs @ ys))
        (some_role reading (xs @ ys)) (some_role exclusive (xs @ ys)) (some_role pending (xs @ ys))
        (some_role draining (xs @ ys)) w r p)"
proof -
  have "some_role P (xs @ r # ys) \<longleftrightarrow> some_role P (xs @ ys) \<or> P r" for P
    by auto
  moreover have "length (filter counted (xs @ r # ys)) =
      (if counted r then Suc (length (filter counted (xs @ ys))) else length (filter counted (xs @ ys)))"
    by simp
  moreover have "length (xs @ r # ys) = length xs + length ys + 1" by simp
  ultimately show ?thesis
    unfolding role_inv_def exclusion_split rw_local_def by (simp only:) blast
qed

theorem role_inv_step:
  assumes "role_inv w rs" "i < length rs" "role_step (rs ! i) w r' w'"
  shows "role_inv w' (rs[i := r'])"
proof -
  define xs ys where "xs = take i rs" and "ys = drop (Suc i) rs"
  have rs: "rs = xs @ rs ! i # ys" and new: "rs[i := r'] = xs @ r' # ys"
    unfolding xs_def ys_def
    by (rule id_take_nth_drop [OF assms(2)], rule upd_conv_take_nth_drop [OF assms(2)])
  let ?os = "xs @ ys"
  have "role_inv w (xs @ rs ! i # ys)" using assms(1) rs by metis
  then obtain p where len: "length xs + length ys + 1 < 2 ^ 61" and ex: "exclusion ?os"
    and p: "rw_local (length (filter counted ?os)) (some_role writing ?os) (some_role reading ?os)
      (some_role exclusive ?os) (some_role pending ?os) (some_role draining ?os) w (rs ! i) p"
    unfolding role_inv_split by blast
  from len have "length ?os < 2 ^ 61" by simp
  from role_step_local [OF assms(3) p others_ok_roles [OF this]] len ex show ?thesis
    unfolding new role_inv_split by blast
qed

subsection \<open>Reachable states\<close>

definition rw_inv :: "rw_system \<Rightarrow> bool" where
  "rw_inv s \<longleftrightarrow> role_inv (fst s) (map role_of (snd s)) \<and> (\<forall>t \<in> set (snd s). shape t)"

lemma rw_inv_update:
  assumes "rw_inv (w, ts)" "i < length ts" "role_step (role_of (ts ! i)) w (role_of t) w'" "shape t"
  shows "rw_inv (w', ts[i := t])"
  using role_inv_step [of w "map role_of ts" i "role_of t" w'] assms
  by (auto simp: rw_inv_def map_update dest: set_update_subset_insert [THEN subsetD])

lemma rw_inv_step: "rw_step s s' \<Longrightarrow> rw_inv s \<Longrightarrow> rw_inv s'"
proof (induction rule: rw_step.induct)
  case (resumes i ts w t w')
  then have "shape (ts ! i)" by (simp add: rw_inv_def)
  with resumes show ?case by (blast intro: rw_inv_update dest: resume_role)
next
  case (calls i ts c w t w')
  then have "shape (ts ! i)" by (simp add: rw_inv_def)
  with calls show ?case by (blast intro: rw_inv_update dest: call_role)
qed

lemma some_role_replicate: "some_role P (replicate n r) \<longleftrightarrow> 0 < n \<and> P r"
  by (auto simp: some_role_def)

lemma rw_inv_init: "n < 2 ^ 61 \<Longrightarrow> rw_inv (rw_init n)"
  by (auto simp: rw_inv_def rw_init_def role_inv_def exclusion_def sorted_wrt_iff_nth_less compatible_def
      scoped_lock_def role_of_def shape_def some_role_replicate rw_word_zero intro!: exI [of _ False])

lemma rw_reachable_inv: "n < 2 ^ 61 \<Longrightarrow> rw_reachable n s \<Longrightarrow> rw_inv s"
  by (rotate_tac, induction rule: rtranclp_induct) (auto intro: rw_inv_init rw_inv_step)

lemma rw_reachable_length: "rw_reachable n s \<Longrightarrow> length (snd s) = n"
  by (induction rule: rtranclp_induct) (auto simp: rw_init_def elim!: rw_step.cases)

lemma role_holds:
  "holds_write t \<Longrightarrow> role_of t = Writer" "holds_read t \<Longrightarrow> role_of t = Reader"
  by (simp_all add: holds_write_def holds_read_def role_of_def)

lemma role_unheld: "at_pc t = Ready \<Longrightarrow> \<not> mutex t \<Longrightarrow> role_of t = Idle"
  by (simp add: role_of_def)

lemma role_upgrading: "at_pc t = In_upgrade p \<Longrightarrow> \<forall>q. p \<noteq> UP_acquire q \<Longrightarrow> reading (role_of t)"
  by (cases p) (auto simp: role_of_def)

lemma rw_reachable_compatible:
  assumes "n < 2 ^ 61" "rw_reachable n (w, ts)" "i < n" "j < n" "i \<noteq> j"
  shows "compatible (role_of (ts ! i)) (role_of (ts ! j))"
proof -
  have "exclusion (map role_of ts)" "length ts = n"
    using rw_reachable_inv [OF assms(1, 2)] rw_reachable_length [OF assms(2)]
    by (simp_all add: rw_inv_def role_inv_def)
  then show ?thesis using exclusion_nth [of "map role_of ts" i j] assms by simp
qed

text \<open>Runs of the system, for concrete schedules: each entry is a thread and its call, if any.\<close>

fun rw_run :: "(nat \<times> call option) list \<Rightarrow> rw_system \<Rightarrow> rw_system option" where
  "rw_run [] s = Some s"
| "rw_run ((i, c) # es) (w, ts) =
     (if i < length ts
      then case (case c of None \<Rightarrow> resume (ts ! i) w | Some c \<Rightarrow> scoped_call c (ts ! i) w) of
             None \<Rightarrow> None
           | Some (t, w') \<Rightarrow> rw_run es (w', ts[i := t])
      else None)"

lemma rw_run_steps: "rw_run es s = Some s' \<Longrightarrow> rw_step\<^sup>*\<^sup>* s s'"
proof (induction es s rule: rw_run.induct)
  case (2 i c es w ts)
  then obtain t w' where i: "i < length ts" and run: "rw_run es (w', ts[i := t]) = Some s'"
    and e: "(case c of None \<Rightarrow> resume (ts ! i) w | Some c \<Rightarrow> scoped_call c (ts ! i) w) = Some (t, w')"
    by (simp split: if_splits option.splits prod.splits)
  have "rw_step (w, ts) (w', ts[i := t])"
    using e i by (cases c) (auto intro: rw_step.intros)
  moreover have "rw_step\<^sup>*\<^sup>* (w', ts[i := t]) s'"
    by (rule 2(1) [OF i e refl run])
  ultimately show ?case by (rule converse_rtranclp_into_rtranclp)
qed simp

text \<open>Two example runs: a reader upgrades beside another one; a writer holds the lock.\<close>

definition upgrade_schedule :: "(nat \<times> call option) list" where
  "upgrade_schedule =
     [(0, Some (Acquire False)), (0, None), (0, None), (1, Some (Acquire False)), (1, None), (1, None),
      (1, Some Upgrade), (1, None), (1, None)]"

lemma upgrade_run:
  "rw_run upgrade_schedule (rw_init 2) =
     Some (11, [scoped_lock\<lparr>mutex := True\<rparr>,
                scoped_lock\<lparr>mutex := True, is_writer := True, at_pc := In_upgrade UP_wait\<rparr>])"
  by code_simp

lemma upgrade_reachable:
  "rw_reachable 2 (11, [scoped_lock\<lparr>mutex := True\<rparr>,
     scoped_lock\<lparr>mutex := True, is_writer := True, at_pc := In_upgrade UP_wait\<rparr>])"
  by (rule rw_run_steps [OF upgrade_run])

definition writer_schedule :: "(nat \<times> call option) list" where
  "writer_schedule =
     [(0, Some (Acquire True)), (0, None), (0, None), (1, Some (Try_acquire False)), (1, None)]"

lemma writer_run:
  "rw_run writer_schedule (rw_init 2) =
     Some (1, [scoped_lock\<lparr>mutex := True, is_writer := True\<rparr>, scoped_lock])"
  by code_simp

lemma writer_reachable:
  "rw_reachable 2 (1, [scoped_lock\<lparr>mutex := True, is_writer := True\<rparr>, scoped_lock])"
  by (rule rw_run_steps [OF writer_run])

lemma upgrade_alone_reachable:
  "rw_reachable 1 (4, [scoped_lock\<lparr>mutex := True, is_writer := True, at_pc := In_upgrade UP_load\<rparr>])"
  by (rule rw_run_steps [of "[(0, Some (Acquire False)), (0, None), (0, None), (0, Some Upgrade)]"]) code_simp

text \<open>
  C27. A thread that holds the lock for writing excludes every other holder; a thread that upgrades
  excludes every other writer until it gives its read lock up to reacquire the lock, and when it
  is about to return \<^verbatim>\<open>true\<close> it excludes every other reader.
\<close>

theorem rw_mutual_exclusion:
  assumes "n < 2 ^ 61" "rw_reachable n (w, ts)" "i < n" "j < n" "i \<noteq> j"
  shows "(holds_write (ts ! i) \<longrightarrow> \<not> holds_write (ts ! j) \<and> \<not> holds_read (ts ! j)) \<and>
    (at_pc (ts ! i) = In_upgrade p \<and> (\<forall>q. p \<noteq> UP_acquire q) \<longrightarrow> \<not> holds_write (ts ! j)) \<and>
    (at_pc (ts ! i) = In_upgrade UP_sub \<longrightarrow> \<not> holds_read (ts ! j))"
  using rw_reachable_compatible [OF assms] role_upgrading [of "ts ! i" p]
  by (auto simp: compatible_def role_of_def [of "ts ! i"] dest!: role_holds)

theorem rw_mutual_exclusion_witness:
  "let ts = [scoped_lock\<lparr>mutex := True, is_writer := True\<rparr>, scoped_lock]
   in rw_reachable 2 (1, ts) \<and> holds_write (ts ! 0) \<and> \<not> holds_write (ts ! 1) \<and> \<not> holds_read (ts ! 1)"
  using rw_mutual_exclusion [OF _ writer_reachable, of 0 1 UP_load] writer_reachable
  by (simp add: holds_write_def holds_read_def scoped_lock_def)

lemma rw_reachable_word:
  assumes "n < 2 ^ 61" "rw_reachable n (w, ts)"
  obtains p where "w = rw_word (length (filter counted (map role_of ts))) p (some_role writing (map role_of ts))"
    and "p \<longrightarrow> some_role pending (map role_of ts)" and "some_role draining (map role_of ts) \<longrightarrow> p"
    and "length (filter counted (map role_of ts)) < 2 ^ 61"
proof -
  have "length (filter counted (map role_of ts)) < 2 ^ 61"
    using assms(1) rw_reachable_length [OF assms(2)] by (intro le_less_trans [OF length_filter_le]) simp
  then show ?thesis
    using rw_reachable_inv [OF assms] that by (auto simp: rw_inv_def role_inv_def)
qed

lemma readers_zero: "n < 2 ^ 62 \<Longrightarrow> rw_word n p q AND READERS = 0 \<longleftrightarrow> n = 0"
  by (simp add: and_readers rw_word_eq_iff flip: rw_word_zero)

lemma readers_zero_61: "n < 2 ^ 61 \<Longrightarrow> rw_word n p q AND READERS = 0 \<longleftrightarrow> n = 0"
  by (simp add: readers_zero)

lemma some_role_of: "i < length ts \<Longrightarrow> P (role_of (ts ! i)) \<Longrightarrow> some_role P (map role_of ts)"
  by (auto simp: some_role_def)

lemma counted_some_readers:
  assumes "n < 2 ^ 61" "rw_reachable n (w, ts)" "i < n" "counted (role_of (ts ! i))"
  shows "w AND READERS \<noteq> 0"
proof -
  have "i < length ts" using rw_reachable_length [OF assms(2)] assms(3) by simp
  then have "some_role counted (map role_of ts)" using assms(4) by (rule some_role_of)
  then have "filter counted (map role_of ts) \<noteq> []" by (simp only: filter_empty_role not_not)
  moreover from assms(1, 2) obtain p where
    "w = rw_word (length (filter counted (map role_of ts))) p (some_role writing (map role_of ts))"
    "length (filter counted (map role_of ts)) < 2 ^ 61"
    by (rule rw_reachable_word)
  ultimately show ?thesis by (metis readers_zero_61 length_0_conv)
qed

text \<open>
  C34. The assertions of the sources about the word hold in every reachable state of fewer than
  \<open>2 ^ 61\<close> threads, at each place where one is made.  A holder of a read lock finds a reader in the word (at the end of
  \<^verbatim>\<open>internal_acquire_reader\<close> and \<^verbatim>\<open>internal_downgrade\<close> and at the beginning of
  \<^verbatim>\<open>internal_release_reader\<close>), and so does a thread that starts an upgrade, or that gives its
  read lock up in \<^verbatim>\<open>internal_release_reader\<close> on the slow path of \<^verbatim>\<open>internal_upgrade\<close>; a thread
  about to finish its upgrade finds both flags; and a mutex that no thread holds or asks for is
  free again, as the destructor demands.
\<close>

theorem rw_assertions_hold:
  assumes "n < 2 ^ 61" "rw_reachable n (w, ts)"
  shows "(\<forall>i < n. holds_read (ts ! i) \<or> at_pc (ts ! i) = In_upgrade UP_load \<or> at_pc (ts ! i) = In_upgrade UP_release \<longrightarrow>
       w AND READERS \<noteq> 0) \<and>
    (\<forall>i < n. at_pc (ts ! i) = In_upgrade UP_sub \<longrightarrow>
       w AND (WRITER_PENDING OR WRITER) = WRITER_PENDING OR WRITER) \<and>
    ((\<forall>i < n. at_pc (ts ! i) = Ready \<and> \<not> mutex (ts ! i)) \<longrightarrow> w = 0)"
proof (intro conjI allI impI)
  fix i assume "i < n" "holds_read (ts ! i) \<or> at_pc (ts ! i) = In_upgrade UP_load \<or> at_pc (ts ! i) = In_upgrade UP_release"
  then show "w AND READERS \<noteq> 0"
    using counted_some_readers [OF assms, of i] role_holds(2) [of "ts ! i"]
    by (auto simp: role_of_def)
next
  fix i assume i: "i < n" "at_pc (ts ! i) = In_upgrade UP_sub"
  then have "some_role draining (map role_of ts)" "some_role writing (map role_of ts)"
    using some_role_of [of i ts] rw_reachable_length [OF assms(2)] by (simp_all add: role_of_def)
  with assms obtain k where "w = rw_word k True True"
    by (metis rw_reachable_word)
  then show "w AND (WRITER_PENDING OR WRITER) = WRITER_PENDING OR WRITER"
    by (intro bit_eqI) (auto simp: bit_and_iff bit_or_iff bit_rw_word flags_bits)
next
  assume "\<forall>i < n. at_pc (ts ! i) = Ready \<and> \<not> mutex (ts ! i)"
  then have "map role_of ts = replicate n Idle"
    using rw_reachable_length [OF assms(2)] by (intro nth_equalityI) (auto simp: role_unheld)
  with assms show "w = 0"
    by (metis rw_reachable_word rw_word_zero filter_replicate counted.simps(5) writing.simps(4)
        pending.simps(4) some_role_replicate list.size(3))
qed

theorem rw_assertions_hold_witness:
  "let w = 11; ts = [scoped_lock\<lparr>mutex := True\<rparr>,
       scoped_lock\<lparr>mutex := True, is_writer := True, at_pc := In_upgrade UP_wait\<rparr>]
   in rw_reachable 2 (w, ts) \<and> holds_read (ts ! 0) \<and> w AND READERS \<noteq> 0"
  using rw_assertions_hold [OF _ upgrade_reachable, THEN conjunct1, rule_format, of 0] upgrade_reachable
  by (simp add: holds_read_def scoped_lock_def)

subsection \<open>Progress\<close>

text \<open>A thread that takes \<open>k\<close> steps of its running method while no other thread moves.\<close>

fun rw_solo :: "nat \<Rightarrow> rw_thread \<Rightarrow> u64 \<Rightarrow> rw_thread \<times> u64" where
  "rw_solo 0 t w = (t, w)"
| "rw_solo (Suc k) t w = (case resume t w of None \<Rightarrow> (t, w) | Some (t', w') \<Rightarrow> rw_solo k t' w')"

definition settled :: "rw_thread \<Rightarrow> rw_thread \<Rightarrow> bool" where
  "settled t t' \<longleftrightarrow> at_pc t' = Ready \<and> is_writer t' = is_writer t \<and> (mutex t \<longrightarrow> mutex t')"

lemma rw_solo_4: "rw_solo 4 = rw_solo (Suc (Suc (Suc (Suc 0))))"
  by (simp add: eval_nat_numeral)

lemmas solo_simps = rw_solo_4 resume_def settled_def rw_words readers_zero

lemma solo_writer:
  assumes "at_pc t = In_acquire_writer pc" "\<not> q" "shape t" "w = rw_word 0 p q"
  shows "settled t (fst (rw_solo 4 t w))"
  using assms
  by (cases pc) (auto simp: solo_simps shape_def)

lemma solo_reader:
  assumes "at_pc t = In_acquire_reader pc" "shape t" "w = rw_word (if pc = AR_undo then 1 else 0) False False"
  shows "settled t (fst (rw_solo 4 t w))"
  using assms
  by (cases pc) (auto simp: solo_simps shape_def)

lemma solo_try_writer:
  assumes "at_pc t = In_try_writer pc" "shape t"
  shows "settled t (fst (rw_solo 4 t w))"
  using assms
  by (cases pc) (auto simp: solo_simps shape_def)

lemma solo_try_reader:
  assumes "at_pc t = In_try_reader pc" "shape t"
  shows "settled t (fst (rw_solo 4 t w))"
  using assms
  by (cases pc) (auto simp: solo_simps shape_def)

lemma solo_upgrade_reader:
  assumes "at_pc t = In_upgrade pc" "pc = UP_load \<or> pc = UP_loop v \<or> pc = UP_release"
    and "shape t" "w = rw_word 1 p False"
  shows "settled t (fst (rw_solo 4 t w))"
  using assms
  by (elim disjE) (auto simp: solo_simps shape_def internal_release_reader_def
      sub_reader [of 0, simplified])

lemma solo_upgrade_drains:
  assumes "at_pc t = In_upgrade pc" "pc = UP_wait \<or> pc = UP_sub" "shape t" "w = rw_word 1 True True"
  shows "settled t (fst (rw_solo 4 t w))"
  using assms
  by (elim disjE) (auto simp: solo_simps shape_def)

lemma solo_upgrade_acquires:
  assumes "at_pc t = In_upgrade (UP_acquire pc)" "shape t" "w = rw_word 0 p False"
  shows "settled t (fst (rw_solo 4 t w))"
  using assms
  by (cases pc) (auto simp: solo_simps shape_def)

lemma idle_others_word:
  assumes "n < 2 ^ 61" "rw_reachable n (w, ts)" "i < n"
    and "\<forall>j < n. j \<noteq> i \<longrightarrow> at_pc (ts ! j) = Ready \<and> \<not> mutex (ts ! j)"
  obtains p where "w = rw_word (if counted (role_of (ts ! i)) then 1 else 0) p (writing (role_of (ts ! i)))"
    and "p \<longrightarrow> pending (role_of (ts ! i))" and "draining (role_of (ts ! i)) \<longrightarrow> p"
proof -
  let ?rs = "map role_of ts"
  have len: "length ?rs = n" using rw_reachable_length [OF assms(2)] by simp
  have idle: "?rs ! j = Idle" if "j < n" "j \<noteq> i" for j
    using that assms(4) len by (simp add: role_unheld)
  have "take i ?rs = replicate i Idle" "drop (Suc i) ?rs = replicate (n - Suc i) Idle"
    using assms(3) len idle by (auto intro!: replicate_eqI simp: in_set_conv_nth simp del: drop_map take_map)
  moreover have "?rs = take i ?rs @ ?rs ! i # drop (Suc i) ?rs"
    using assms(3) len by (intro id_take_nth_drop) simp
  ultimately have rs: "?rs = replicate i Idle @ role_of (ts ! i) # replicate (n - Suc i) Idle"
    using assms(3) len by simp
  from assms(1, 2) obtain p where p: "w = rw_word (length (filter counted ?rs)) p (some_role writing ?rs)"
      "p \<longrightarrow> some_role pending ?rs" "some_role draining ?rs \<longrightarrow> p"
    by (rule rw_reachable_word)
  show ?thesis
    using p unfolding rs by (intro that [of p]) (simp_all add: some_role_replicate)
qed

lemma solo_settles:
  assumes "n < 2 ^ 61" "rw_reachable n (w, ts)" "i < n"
    and "\<forall>j < n. j \<noteq> i \<longrightarrow> at_pc (ts ! j) = Ready \<and> \<not> mutex (ts ! j)"
    and "at_pc (ts ! i) \<noteq> Ready"
  shows "settled (ts ! i) (fst (rw_solo 4 (ts ! i) w))"
proof -
  let ?t = "ts ! i"
  have shape: "shape ?t"
    using rw_reachable_inv [OF assms(1, 2)] rw_reachable_length [OF assms(2)] assms(3)
    by (simp add: rw_inv_def)
  from assms(1-4) obtain p where p: "w = rw_word (if counted (role_of ?t) then 1 else 0) p (writing (role_of ?t))"
      "p \<longrightarrow> pending (role_of ?t)" "draining (role_of ?t) \<longrightarrow> p"
    by (rule idle_others_word)
  show ?thesis
  proof (cases "at_pc ?t")
    case Ready
    with assms(5) show ?thesis by simp
  next
    case (In_acquire_writer pc)
    with p have "w = rw_word 0 p False" by (simp add: role_of_def)
    then show ?thesis by (intro solo_writer [OF In_acquire_writer _ shape]) simp_all
  next
    case (In_acquire_reader pc)
    with p have "w = rw_word (if pc = AR_undo then 1 else 0) False False"
      by (cases pc) (simp_all add: role_of_def)
    then show ?thesis by (rule solo_reader [OF In_acquire_reader shape])
  next
    case (In_upgrade pc)
    note r = role_of_def [of ?t] In_upgrade
    show ?thesis
    proof (cases "pc = UP_wait \<or> pc = UP_sub")
      case True
      with p have "w = rw_word 1 True True" by (auto simp: r)
      with True show ?thesis by (intro solo_upgrade_drains [OF In_upgrade _ shape])
    next
      case False
      then consider (early) v where "pc = UP_load \<or> pc = UP_loop v \<or> pc = UP_release"
        | (late) q where "pc = UP_acquire q" by (cases pc) auto
      then show ?thesis
      proof cases
        case early
        with p have "w = rw_word 1 p False" by (elim disjE) (simp_all add: r)
        with early show ?thesis by (intro solo_upgrade_reader [OF In_upgrade _ shape])
      next
        case late
        with p have "w = rw_word 0 p False" by (simp add: r)
        with late In_upgrade shape show ?thesis by (intro solo_upgrade_acquires) simp_all
      qed
    qed
  next
    case (In_try_writer pc)
    then show ?thesis using shape by (rule solo_try_writer)
  next
    case (In_try_reader pc)
    then show ?thesis using shape by (rule solo_try_reader)
  qed
qed

text \<open>
  C35. No flag or count is left behind that could block a thread: when every other thread is outside
  the mutex, four accesses of its own are enough for a running method to return, and a method
  that acquires or upgrades leaves the thread with the lock it asked for.
\<close>

theorem rw_solo_returns:
  assumes "n < 2 ^ 61" "rw_reachable n (w, ts)" "i < n" "at_pc (ts ! i) \<noteq> Ready"
    and "\<forall>j < n. j \<noteq> i \<longrightarrow> at_pc (ts ! j) = Ready \<and> \<not> mutex (ts ! j)"
  shows "at_pc (fst (rw_solo 4 (ts ! i) w)) = Ready \<and>
    (mutex (ts ! i) \<longrightarrow>
       (if is_writer (ts ! i) then holds_write (fst (rw_solo 4 (ts ! i) w))
        else holds_read (fst (rw_solo 4 (ts ! i) w))))"
  using solo_settles [OF assms(1-3, 5, 4)] by (auto simp: settled_def holds_write_def holds_read_def)

theorem rw_solo_returns_witness:
  "let t = scoped_lock\<lparr>mutex := True, is_writer := True, at_pc := In_upgrade UP_load\<rparr>
   in rw_reachable 1 (4, [t]) \<and> at_pc (fst (rw_solo 4 t 4)) = Ready \<and> holds_write (fst (rw_solo 4 t 4))"
  using rw_solo_returns [OF _ upgrade_alone_reachable, of 0] upgrade_alone_reachable
  by (simp add: scoped_lock_def)

subsection \<open>The method unlock\<close>

text \<open>
  \<^verbatim>\<open>unlock\<close> tells how the lock is held from the flag of the writer, which an upgrading reader
  sets before the other readers have left: a reader that loads the word then goes on to release
  the lock as a writer, and whatever the other threads do in between, it takes both flags away
  and leaves its own increment in the word.
\<close>

theorem unlock_during_upgrade:
  assumes "n < 2 ^ 61" "rw_reachable n (w, ts)" "i < n" "j < n" "at_pc (ts ! j) = In_upgrade UP_wait"
    and "rw_step\<^sup>*\<^sup>* (w, ts) (w', ts')" "holds_read (ts' ! i)"
  shows "unlock UL_load w = (Inl (UL_release True), w) \<and>
    (\<exists>w2. unlock (UL_release True) w' = (Inr (), w2) \<and> w2 AND READERS = w' AND READERS \<and>
       w2 AND (WRITER OR WRITER_PENDING) = 0 \<and> w2 \<noteq> internal_release_reader w')"
proof -
  have "some_role writing (map role_of ts)" "some_role draining (map role_of ts)"
    using some_role_of [of j ts] assms(4, 5) rw_reachable_length [OF assms(2)] by (simp_all add: role_of_def)
  with assms(1, 2) obtain k where "w = rw_word k True True" by (metis rw_reachable_word)
  then have load: "unlock UL_load w = (Inl (UL_release True), w)" by (simp add: and_writer)
  have r: "rw_reachable n (w', ts')" using assms(2,6) by (rule rtranclp_trans)
  then obtain k' p q where w: "w' = rw_word k' p q" and k: "k' < 2 ^ 61" by (metis rw_reachable_word assms(1))
  have "w' AND READERS \<noteq> 0"
    using counted_some_readers [OF assms(1) r assms(3)] role_holds(2) [OF assms(7)] by simp
  then obtain k'' where k'': "k' = Suc k''"
    using w k by (cases k') (auto simp: readers_zero)
  have "internal_release_writer w' = rw_word k' False False" using w by (simp add: internal_release_writer_def rw_words)
  moreover have "internal_release_reader w' = rw_word k'' p q"
    using w k'' by (simp add: internal_release_reader_def rw_words)
  ultimately show ?thesis using load w k k'' by (simp add: rw_words rw_word_eq_iff)
qed

theorem unlock_during_upgrade_witness:
  "rw_reachable 2 (11, [scoped_lock\<lparr>mutex := True\<rparr>,
       scoped_lock\<lparr>mutex := True, is_writer := True, at_pc := In_upgrade UP_wait\<rparr>]) \<and>
   unlock UL_load 11 = (Inl (UL_release True), 11) \<and>
   (\<exists>w2. unlock (UL_release True) 11 = (Inr (), w2) \<and> w2 AND READERS = 11 AND READERS \<and>
      w2 AND (WRITER OR WRITER_PENDING) = 0 \<and> w2 \<noteq> internal_release_reader 11)"
  using unlock_during_upgrade [OF _ upgrade_reachable _ _ _ rtranclp.rtrancl_refl, of 0 1] upgrade_reachable
  by (simp add: scoped_lock_def holds_read_def)

end
