(* ===== verification/Hash_Buckets.thy ===== *)
theory Hash_Buckets
  imports Prelude
begin

text \<open>
  The bucket table of \<^verbatim>\<open>tbb::concurrent_hash_map\<close> (\<^verbatim>\<open>hash_map_base\<close> in
  \<^verbatim>\<open>src/src/tbb/include/tbb/concurrent_hash_map.h\<close>): the segments a table grows by, the
  arithmetic that leads from a masked hash code to its bucket, the allocation of segments and
  the check for a mask that has changed.  Hash codes are natural numbers, and the blocks of
  buckets that are allocated are named by the segment they are allocated for.
\<close>

subsection \<open>Segments\<close>

text \<open>The index of the highest bit (\<^verbatim>\<open>__TBB_Log2\<close>).\<close>

fun tbb_log2 :: "nat \<Rightarrow> nat" where
  "tbb_log2 x = (if x < 2 then 0 else Suc (tbb_log2 (x div 2)))"

declare tbb_log2.simps [simp del]

definition embedded_block :: nat where "embedded_block = 1"
definition embedded_buckets :: nat where "embedded_buckets = 2 ^ embedded_block"
definition first_block :: nat where "first_block = 8"
definition pointers_per_table :: nat where "pointers_per_table = 64"

definition segment_index_of :: "nat \<Rightarrow> nat" where
  "segment_index_of index = tbb_log2 (index OR 1)"

definition segment_base :: "nat \<Rightarrow> nat" where
  "segment_base k = unat (push_bit k 1 AND NOT 1 :: u64)"

definition segment_size :: "nat \<Rightarrow> nat" where
  "segment_size k = unat (push_bit k 1 :: u64)"

lemma tbb_log2_bounds: "0 < x \<Longrightarrow> 2 ^ tbb_log2 x \<le> x \<and> x < 2 ^ Suc (tbb_log2 x)"
proof (induction x rule: tbb_log2.induct)
  case (1 x)
  show ?case
  proof (cases "x < 2")
    case True
    with 1 have "x = 1" by simp
    then show ?thesis by (simp add: tbb_log2.simps)
  next
    case False
    then have "2 ^ tbb_log2 (x div 2) \<le> x div 2 \<and> x div 2 < 2 ^ Suc (tbb_log2 (x div 2))"
      using 1 by simp
    with False show ?thesis by (subst (1 2) tbb_log2.simps) auto
  qed
qed

lemma tbb_log2_unique: "2 ^ k \<le> x \<Longrightarrow> x < 2 ^ Suc k \<Longrightarrow> tbb_log2 x = k"
proof -
  assume x: "2 ^ k \<le> x" "x < 2 ^ Suc k"
  then have "0 < x" by (metis gr0I not_less_zero zero_less_power zero_less_numeral le_zero_eq)
  from tbb_log2_bounds [OF this] x have "k < Suc (tbb_log2 x)" "tbb_log2 x < Suc k"
    by (metis le_less_trans one_less_numeral_iff power_less_imp_less_exp semiring_norm(76))+
  then show ?thesis by simp
qed

lemma segment_index_of_zero: "h < 2 \<Longrightarrow> segment_index_of h = 0"
  by (cases "h = 0") (auto simp: segment_index_of_def tbb_log2.simps less_Suc_eq numeral_2_eq_2)

lemma segment_index_of_pos: "2 ^ k \<le> h \<Longrightarrow> h < 2 ^ Suc k \<Longrightarrow> segment_index_of h = k" if "0 < k"
  unfolding segment_index_of_def
proof (rule tbb_log2_unique)
  assume h: "2 ^ k \<le> h" "h < 2 ^ Suc k"
  have or: "h OR 1 = h + of_bool (even h)" by (rule or_one_eq)
  show "2 ^ k \<le> h OR 1" unfolding or using h by simp
  have "even ((2 :: nat) ^ Suc k)" by simp
  then have "even h \<Longrightarrow> h + 1 < 2 ^ Suc k" using h by (metis Suc_eq_plus1 Suc_lessI even_Suc)
  then show "h OR 1 < 2 ^ Suc k" unfolding or using h by (cases "even h") simp_all
qed

lemma segment_index_of_le: "h < 2 ^ k \<Longrightarrow> segment_index_of h < k" if "0 < k"
proof (cases "h < 2")
  case True
  then show ?thesis using that by (simp add: segment_index_of_zero)
next
  case False
  assume h: "h < 2 ^ k"
  from False have b: "2 ^ tbb_log2 h \<le> h \<and> h < 2 ^ Suc (tbb_log2 h)"
    by (intro tbb_log2_bounds) simp
  then have "0 < tbb_log2 h" using False by (cases "tbb_log2 h") auto
  then have "segment_index_of h = tbb_log2 h" using b by (intro segment_index_of_pos) auto
  moreover have "tbb_log2 h < k"
    using b h by (metis le_less_trans one_less_numeral_iff power_less_imp_less_exp semiring_norm(76))
  ultimately show ?thesis by simp
qed

lemma segment_base_zero: "segment_base 0 = 0"
  by (simp add: segment_base_def)

lemma segment_base_pos: "k < 64 \<Longrightarrow> segment_base k = 2 ^ k" if "0 < k"
proof -
  assume k: "k < 64"
  have "bit (push_bit k 1 AND NOT 1 :: u64) i \<longleftrightarrow> bit (push_bit k 1 :: u64) i" for i
    using that by (simp only: bit_and_iff bit_push_bit_iff bit_not_iff_eq bit_1_iff possible_bit_word) auto
  then have "push_bit k 1 AND NOT 1 = (push_bit k 1 :: u64)"
    by (intro bit_eqI) blast
  then show ?thesis using k by (simp add: segment_base_def push_bit_eq_mult unat_exp)
qed

lemma segment_size_eq: "k < 64 \<Longrightarrow> segment_size k = 2 ^ k"
  by (simp add: segment_size_def push_bit_eq_mult unat_exp)

subsection \<open>The table\<close>

text \<open>
  A bucket holds its chain of nodes, or the mark \<^verbatim>\<open>rehash_req\<close> of a bucket whose nodes are
  still in a lower one; \<^verbatim>\<open>empty_rehashed\<close> is the empty chain.  An entry of the table is null,
  claimed by the thread that allocates the segment, or a pointer: a block and an index into it.
\<close>

datatype ('k, 'v) chain = Rehash_req | Chain "('k \<times> 'v) list"

datatype segment_ptr = Null | Claimed | Seg nat int

record ('k, 'v) hash_map =
  my_mask :: nat
  my_table :: "segment_ptr list"
  my_size :: nat
  node_lists :: "nat \<times> int \<Rightarrow> ('k, 'v) chain"

definition hash_map_base :: "('k, 'v) hash_map" where
  "hash_map_base =
     \<lparr>my_mask = embedded_buckets - 1, my_table = (replicate pointers_per_table Null)[0 := Seg 0 0],
      my_size = 0, node_lists = (\<lambda>_. Chain [])\<rparr>"

text \<open>The address of a bucket, \<open>None\<close> where the assertion on the segment fails.\<close>

definition get_bucket :: "('k, 'v) hash_map \<Rightarrow> nat \<Rightarrow> (nat \<times> int) option" where
  "get_bucket m h =
     (let s = segment_index_of h; h = h - segment_base s
      in case my_table m ! s of Seg b i \<Rightarrow> Some (b, i + int h) | _ \<Rightarrow> None)"

definition init_buckets ::
  "nat \<times> int \<Rightarrow> nat \<Rightarrow> bool \<Rightarrow> (nat \<times> int \<Rightarrow> ('k, 'v) chain) \<Rightarrow> nat \<times> int \<Rightarrow> ('k, 'v) chain" where
  "init_buckets ptr sz is_initial ls =
     (\<lambda>(b, i). if b = fst ptr \<and> snd ptr \<le> i \<and> i < snd ptr + int sz
               then (if is_initial then Chain [] else Rehash_req) else ls (b, i))"

text \<open>
  Allocation may fail (\<open>alloc\<close> tells which sizes succeed); the destructor of the watchdog then
  resets the entry of the table, and the result is \<open>False\<close>.
\<close>

definition enable_segment ::
  "(nat \<Rightarrow> bool) \<Rightarrow> nat \<Rightarrow> bool \<Rightarrow> ('k, 'v) hash_map \<Rightarrow> bool \<times> ('k, 'v) hash_map" where
  "enable_segment alloc k is_initial m =
     (if k \<ge> first_block
      then let sz = segment_size k
           in if alloc sz
              then (True, m\<lparr>node_lists := init_buckets (k, 0) sz is_initial (node_lists m),
                            my_table := (my_table m)[k := Seg k 0], my_mask := 2 * sz - 1\<rparr>)
              else (False, m\<lparr>my_table := (my_table m)[k := Null]\<rparr>)
      else let sz = segment_size first_block
           in if alloc (sz - embedded_buckets)
              then (True, m\<lparr>node_lists := init_buckets (k, 0) (sz - embedded_buckets) is_initial (node_lists m),
                            my_table := fold (\<lambda>i tab. tab[i := Seg k (int (segment_base i) - int (segment_base embedded_block))])
                              [embedded_block..<first_block] (my_table m),
                            my_mask := sz - 1\<rparr>)
              else (False, m\<lparr>my_table := (my_table m)[k := Null]\<rparr>))"

subsection \<open>Well-formed tables\<close>

text \<open>
  The table after \<open>n\<close> bits of the hash code are in use: the embedded segment, the segments of
  the first block, and one block for each higher segment; entry \<open>n\<close> may be claimed.
\<close>

definition table_ok :: "nat \<Rightarrow> ('k, 'v) hash_map \<Rightarrow> bool" where
  "table_ok n m \<longleftrightarrow> (n = 1 \<or> 8 \<le> n) \<and> n < 64 \<and> my_mask m = 2 ^ n - 1 \<and> length (my_table m) = 64 \<and>
     my_table m ! 0 = Seg 0 0 \<and>
     (\<forall>k. 1 \<le> k \<and> k < n \<and> k < 8 \<longrightarrow> my_table m ! k = Seg 1 (2 ^ k - 2)) \<and>
     (\<forall>k. 8 \<le> k \<and> k < n \<longrightarrow> my_table m ! k = Seg k 0) \<and>
     my_table m ! n \<in> {Null, Claimed} \<and> (\<forall>k. n < k \<and> k < 64 \<longrightarrow> my_table m ! k = Null)"

definition bucket_addr :: "nat \<Rightarrow> nat \<times> int" where
  "bucket_addr h =
     (if h < 2 then (0, int h) else if h < 2 ^ 8 then (1, int h - 2)
      else (tbb_log2 h, int h - 2 ^ tbb_log2 h))"

text \<open>The buckets allocated for a block.\<close>

definition block_size :: "nat \<Rightarrow> nat" where
  "block_size b = (if b = 0 then 2 else if b = 1 then 2 ^ 8 - 2 else 2 ^ b)"

lemma tbb_log2_less: "0 < h \<Longrightarrow> h < 2 ^ n \<Longrightarrow> tbb_log2 h < n"
  using tbb_log2_bounds [of h]
  by (metis le_less_trans one_less_numeral_iff power_less_imp_less_exp semiring_norm(76))

lemma tbb_log2_ge: "2 ^ n \<le> h \<Longrightarrow> n \<le> tbb_log2 h"
proof -
  assume h: "2 ^ n \<le> h"
  then have "0 < h" using zero_less_power [of "2 :: nat" n] by linarith
  with h have "(2 :: nat) ^ n < 2 ^ Suc (tbb_log2 h)"
    using tbb_log2_bounds [of h] by linarith
  then show ?thesis by (metis less_Suc_eq_le one_less_numeral_iff power_less_imp_less_exp semiring_norm(76))
qed

lemma get_bucket_addr:
  assumes "table_ok n m" "h < 2 ^ n"
  shows "get_bucket m h = Some (bucket_addr h)"
proof (cases "h < 2")
  case True
  then show ?thesis
    using assms(1) by (simp add: get_bucket_def segment_index_of_zero segment_base_zero bucket_addr_def table_ok_def)
next
  case False
  define k where "k = tbb_log2 h"
  have k: "2 ^ k \<le> h" "h < 2 ^ Suc k"
    using False tbb_log2_bounds [of h] by (simp_all add: k_def)
  then have pos: "0 < k" using False by (cases k) auto
  have less: "k < n" "n < 64" using False assms tbb_log2_less [of h n] by (simp_all add: k_def table_ok_def)
  have s: "segment_index_of h = k" "segment_base k = 2 ^ k"
    using k pos less by (simp_all add: segment_index_of_pos segment_base_pos)
  show ?thesis
  proof (cases "k < 8")
    case True
    then have "(2 :: nat) ^ Suc k \<le> 2 ^ 8" by (intro power_increasing) simp_all
    then have "h < 2 ^ 8" using k(2) by linarith
    moreover have "my_table m ! k = Seg 1 (2 ^ k - 2)"
      using assms(1) pos less True by (simp add: table_ok_def)
    ultimately show ?thesis
      using False k s by (simp add: get_bucket_def bucket_addr_def of_nat_diff)
  next
    case ge: False
    then have "(2 :: nat) ^ 8 \<le> 2 ^ k" by (intro power_increasing) simp_all
    then have "\<not> h < 2 ^ 8" using k by linarith
    moreover have "my_table m ! k = Seg k 0"
      using assms(1) less ge by (simp add: table_ok_def)
    ultimately show ?thesis
      using False k s by (simp add: get_bucket_def bucket_addr_def of_nat_diff flip: k_def)
  qed
qed

lemma bucket_addr_inj: "bucket_addr h = bucket_addr h' \<Longrightarrow> h = h'"
proof -
  have "2 ^ 8 \<le> h \<Longrightarrow> 8 \<le> tbb_log2 h" for h by (rule tbb_log2_ge)
  then show "bucket_addr h = bucket_addr h' \<Longrightarrow> h = h'"
    by (fastforce simp: bucket_addr_def not_less split: if_splits)
qed

lemma bucket_addr_inside:
  "0 \<le> snd (bucket_addr h) \<and> snd (bucket_addr h) < int (block_size (fst (bucket_addr h)))"
proof (cases "h < 2 ^ 8")
  case True
  then show ?thesis by (auto simp: bucket_addr_def block_size_def)
next
  case False
  then have "8 \<le> tbb_log2 h" "0 < h" using tbb_log2_ge [of 8 h] by auto
  moreover from \<open>0 < h\<close> have "2 ^ tbb_log2 h \<le> h" "h < 2 ^ Suc (tbb_log2 h)"
    using tbb_log2_bounds by auto
  then have "2 ^ tbb_log2 h \<le> int h" "int h < 2 * 2 ^ tbb_log2 h"
    by (metis of_nat_le_iff of_nat_less_iff of_nat_numeral of_nat_power power_Suc)+
  ultimately show ?thesis using False by (auto simp: bucket_addr_def block_size_def)
qed

text \<open>
  C33. Every masked hash code has a bucket of its own, inside the block that was allocated for it.
\<close>

theorem get_bucket_valid:
  assumes "table_ok n m" "h \<le> my_mask m" "h' \<le> my_mask m" "h \<noteq> h'"
  shows "\<exists>b i b' i'. get_bucket m h = Some (b, i) \<and> 0 \<le> i \<and> i < int (block_size b) \<and>
    get_bucket m h' = Some (b', i') \<and> (b, i) \<noteq> (b', i')"
proof -
  have lt: "x < 2 ^ n" if "x \<le> my_mask m" for x
    using that assms(1) by (simp add: table_ok_def) (metis Suc_pred less_Suc_eq_le zero_less_numeral zero_less_power)
  have "get_bucket m h = Some (bucket_addr h)" "get_bucket m h' = Some (bucket_addr h')"
    using assms lt by (simp_all add: get_bucket_addr)
  then show ?thesis
    using bucket_addr_inside [of h] bucket_addr_inj [of h h'] assms(4) by (metis prod.collapse)
qed

lemma table_ok_base: "table_ok 1 hash_map_base"
  by (auto simp: table_ok_def hash_map_base_def embedded_buckets_def embedded_block_def
      pointers_per_table_def nth_list_update)

definition next_bits :: "nat \<Rightarrow> nat" where
  "next_bits n = (if n = 1 then 8 else Suc n)"

lemma fold_update_nth:
  "length tab = N \<Longrightarrow> j \<le> N \<Longrightarrow> k < N \<Longrightarrow>
     fold (\<lambda>i tab. tab[i := f i]) [a..<j] tab ! k = (if a \<le> k \<and> k < j then f k else tab ! k)"
proof (induction j)
  case (Suc j)
  have "length (fold (\<lambda>i tab. tab[i := f i]) [a..<j] tab) = N"
    using Suc.prems(1) by (induction j) auto
  with Suc show ?case by (auto simp: nth_list_update)
qed simp

lemma fold_update_length [simp]: "length (fold (\<lambda>i tab. tab[i := f i]) is tab) = length tab"
  by (induction "is" arbitrary: tab) auto

lemma enable_segment_mask_table:
  assumes ok: "table_ok n m" and n: "next_bits n < 64" and e: "enable_segment alloc n init m = (True, m')"
  shows "table_ok (next_bits n) m'"
proof (cases "n = 1")
  case True
  have base: "segment_base k = 2 ^ k" if "0 < k" "k < 8" for k
    using that by (simp add: segment_base_pos)
  from True e have m': "my_mask m' = 2 ^ 8 - 1"
    "my_table m' = fold (\<lambda>i tab. tab[i := Seg 1 (int (segment_base i) - int (segment_base embedded_block))])
       [1..<8] (my_table m)"
    by (auto simp: enable_segment_def first_block_def embedded_block_def Let_def segment_size_eq split: if_splits)
  have "my_table m' ! k = (if 1 \<le> k \<and> k < 8 then Seg 1 (2 ^ k - 2) else my_table m ! k)" if "k < 64" for k
    unfolding m'(2) using that ok
    by (subst fold_update_nth [where N = 64]) (simp_all add: table_ok_def base embedded_block_def)
  then show ?thesis
    using ok True m' by (simp add: table_ok_def next_bits_def)
next
  case False
  then have "8 \<le> n" "n < 63" using ok n by (auto simp: table_ok_def next_bits_def)
  then have m': "my_mask m' = 2 * 2 ^ n - 1" "my_table m' = (my_table m)[n := Seg n 0]"
    using e by (auto simp: enable_segment_def first_block_def Let_def segment_size_eq split: if_splits)
  then show ?thesis
    using ok \<open>8 \<le> n\<close> \<open>n < 63\<close> by (auto simp: table_ok_def next_bits_def nth_list_update less_Suc_eq)
qed

theorem get_bucket_valid_witness:
  "\<exists>b i b' i'. get_bucket (hash_map_base :: (nat, nat) hash_map) 1 = Some (b, i) \<and> 0 \<le> i \<and> i < int (block_size b) \<and>
    get_bucket (hash_map_base :: (nat, nat) hash_map) 0 = Some (b', i') \<and> (b, i) \<noteq> (b', i')"
proof -
  have "table_ok 1 (hash_map_base :: (nat, nat) hash_map)" by (rule table_ok_base)
  from get_bucket_valid [OF this, of 1 0] show ?thesis
    by (simp add: hash_map_base_def embedded_buckets_def embedded_block_def)
qed

text \<open>The chain of a bucket, through the table and at its address.\<close>

definition node_list :: "('k, 'v) hash_map \<Rightarrow> nat \<Rightarrow> ('k, 'v) chain option" where
  "node_list m h = map_option (node_lists m) (get_bucket m h)"

definition list_at :: "('k, 'v) hash_map \<Rightarrow> nat \<Rightarrow> ('k, 'v) chain" where
  "list_at m h = node_lists m (bucket_addr h)"

lemma node_list_at: "table_ok n m \<Longrightarrow> h < 2 ^ n \<Longrightarrow> node_list m h = Some (list_at m h)"
  by (simp add: node_list_def list_at_def get_bucket_addr)

lemma bucket_addr_block:
  "fst (bucket_addr h) = (if h < 2 then 0 else if h < 2 ^ 8 then 1 else tbb_log2 h)"
  by (simp add: bucket_addr_def)

lemma enable_segment_lists:
  assumes ok: "table_ok n m" and n: "next_bits n < 64" and e: "enable_segment alloc n init m = (True, m')"
    and h: "h < 2 ^ next_bits n"
  shows "list_at m' h = (if 2 ^ n \<le> h then (if init then Chain [] else Rehash_req) else list_at m h)"
proof (cases "n = 1")
  case True
  then have "node_lists m' = init_buckets (1, 0) (2 ^ 8 - 2) init (node_lists m)"
    using e by (auto simp: enable_segment_def first_block_def embedded_block_def embedded_buckets_def
        Let_def segment_size_eq split: if_splits)
  moreover have "fst (bucket_addr h) = 1 \<longleftrightarrow> 2 \<le> h"
    using h True by (simp add: bucket_addr_block next_bits_def not_less)
  ultimately show ?thesis
    using bucket_addr_inside [of h] True h
    by (auto simp: list_at_def init_buckets_def block_size_def split: prod.splits)
next
  case False
  then have n8: "8 \<le> n" "n < 63" using ok n by (auto simp: table_ok_def next_bits_def)
  then have lists: "node_lists m' = init_buckets (n, 0) (2 ^ n) init (node_lists m)"
    using e by (auto simp: enable_segment_def first_block_def Let_def segment_size_eq split: if_splits)
  have "fst (bucket_addr h) = n \<longleftrightarrow> 2 ^ n \<le> h"
  proof
    assume "fst (bucket_addr h) = n"
    then have "tbb_log2 h = n" "0 < h" using n8 by (auto simp: bucket_addr_block split: if_splits)
    then show "2 ^ n \<le> h" using tbb_log2_bounds [of h] by auto
  next
    assume n_h: "2 ^ n \<le> h"
    then have "tbb_log2 h = n" using h False by (intro tbb_log2_unique) (auto simp: next_bits_def)
    moreover have "(2 :: nat) ^ 8 \<le> 2 ^ n" using n8 by (intro power_increasing) simp_all
    ultimately show "fst (bucket_addr h) = n" using n_h by (simp add: bucket_addr_block)
  qed
  then show ?thesis
    using bucket_addr_inside [of h] lists n8
    by (auto simp: list_at_def init_buckets_def block_size_def split: prod.splits)
qed

lemma enable_segment_fails:
  "table_ok n m \<Longrightarrow> enable_segment alloc n init m = (False, m') \<Longrightarrow>
     table_ok n m' \<and> list_at m' = list_at m \<and> my_size m' = my_size m"
  by (auto simp: enable_segment_def table_ok_def nth_list_update list_at_def Let_def split: if_splits)

lemma enable_segment_size [simp]: "my_size (snd (enable_segment alloc k init m)) = my_size m"
  by (simp add: enable_segment_def Let_def)

end
