(* ===== verification/Hash_Map.thy ===== *)
theory Hash_Map
  imports Hash_Buckets "HOL-Library.Monad_Syntax"
begin

text \<open>
  The operations of \<^verbatim>\<open>tbb::concurrent_hash_map\<close>
  (\<^verbatim>\<open>src/src/tbb/include/tbb/concurrent_hash_map.h\<close>): the lazy rehashing of buckets, lookup,
  insertion with growth, and removal.  Every access to a bucket is made under the lock of the
  bucket, so an operation is modelled as one step, with two exceptions that other threads may
  cause: the mask an operation starts with may be an old one (the table has grown since it was
  loaded), and the allocation of a segment may fail.  \<open>None\<close> is an assertion of the source that
  fails, or a shift of \<^verbatim>\<open>1u\<close> by 32 bits or more.
\<close>

subsection \<open>Buckets\<close>

definition set_node_list :: "nat \<Rightarrow> ('k, 'v) chain \<Rightarrow> ('k, 'v) hash_map \<Rightarrow> ('k, 'v) hash_map option" where
  "set_node_list h c m =
     map_option (\<lambda>a. m\<lparr>node_lists := (node_lists m)(a := c)\<rparr>) (get_bucket m h)"

definition add_to_bucket :: "'k \<times> 'v \<Rightarrow> ('k, 'v) chain \<Rightarrow> ('k, 'v) chain option" where
  "add_to_bucket n b = (case b of Rehash_req \<Rightarrow> None | Chain ns \<Rightarrow> Some (Chain (n # ns)))"

fun search_bucket :: "'k \<Rightarrow> ('k \<times> 'v) list \<Rightarrow> ('k \<times> 'v) option" where
  "search_bucket key [] = None"
| "search_bucket key (n # ns) = (if fst n = key then Some n else search_bucket key ns)"

definition chain_nodes :: "('k, 'v) chain \<Rightarrow> ('k \<times> 'v) list option" where
  "chain_nodes c = (case c of Rehash_req \<Rightarrow> None | Chain ns \<Rightarrow> Some ns)"

text \<open>The loop of \<^verbatim>\<open>rehash_bucket\<close>: the nodes that stay in the old chain, and the new chain.\<close>

fun move_nodes ::
  "('k \<Rightarrow> nat) \<Rightarrow> nat \<Rightarrow> nat \<Rightarrow> ('k \<times> 'v) list \<Rightarrow> ('k \<times> 'v) list \<Rightarrow> ('k \<times> 'v) list \<times> ('k \<times> 'v) list" where
  "move_nodes hash msk h [] new = ([], new)"
| "move_nodes hash msk h (n # ns) new =
     (if hash (fst n) AND msk = h then move_nodes hash msk h ns (n # new)
      else let (old, new) = move_nodes hash msk h ns new in (n # old, new))"

lemma and_mask_mod: "h AND (2 ^ n - 1) = h mod 2 ^ n" for h :: nat
  by (simp only: mask_eq_exp_minus_1 [symmetric] take_bit_eq_mask [symmetric] take_bit_eq_mod)

lemma parent_less: "0 < h \<Longrightarrow> h AND (2 ^ tbb_log2 h - 1) < h"
  unfolding and_mask_mod
  by (rule less_le_trans [OF mod_less_divisor]) (simp_all add: tbb_log2_bounds)

text \<open>
  The mask of the parent bucket, from the topmost bit: \<^verbatim>\<open>( 1u<<__TBB_Log2( h ) ) - 1\<close>, where
  \<^verbatim>\<open>1u\<close> has 32 bits.
\<close>

definition parent_mask :: "nat \<Rightarrow> nat option" where
  "parent_mask h = (if 32 \<le> tbb_log2 h then None else Some (2 ^ tbb_log2 h - 1))"

lemma parent_mask_less: "parent_mask h = Some msk \<Longrightarrow> 0 < h \<Longrightarrow> h AND msk < h"
  using parent_less [of h] by (auto simp: parent_mask_def split: if_splits)

lemma parent_measure: "parent_mask h = Some msk \<Longrightarrow> Suc 0 < h \<Longrightarrow> Suc (2 * (h AND msk)) < 2 * h"
  using parent_mask_less [of h msk] by simp

text \<open>
  \<^verbatim>\<open>bucket_accessor::acquire\<close> rehashes a bucket that is still marked; \<^verbatim>\<open>rehash_bucket\<close> marks it as
  rehashed, acquires its parent and takes over the nodes that belong to it.
\<close>

function acquire_bucket :: "('k \<Rightarrow> nat) \<Rightarrow> nat \<Rightarrow> ('k, 'v) hash_map \<Rightarrow> ('k, 'v) hash_map option"
  and rehash_bucket :: "('k \<Rightarrow> nat) \<Rightarrow> nat \<Rightarrow> ('k, 'v) hash_map \<Rightarrow> ('k, 'v) hash_map option" where
  "acquire_bucket hash h m =
     do { c \<leftarrow> node_list m h;
          case c of Rehash_req \<Rightarrow> rehash_bucket hash h m | Chain ns \<Rightarrow> Some m }"
| "rehash_bucket hash h m =
     (if h \<le> 1 then None
      else do { m \<leftarrow> set_node_list h (Chain []) m;
                msk \<leftarrow> parent_mask h;
                m \<leftarrow> acquire_bucket hash (h AND msk) m;
                ns \<leftarrow> Option.bind (node_list m (h AND msk)) chain_nodes;
                bs \<leftarrow> Option.bind (node_list m h) chain_nodes;
                let (ns, bs) = move_nodes hash (2 * msk + 1) h ns bs;
                m \<leftarrow> set_node_list (h AND msk) (Chain ns) m;
                set_node_list h (Chain bs) m })"
  by pat_completeness auto
termination
  by (relation "measure (case_sum (\<lambda>(_, h, _). 2 * h + 1) (\<lambda>(_, h, _). 2 * h))")
    (auto simp: not_le intro: parent_measure)

declare acquire_bucket.simps [simp del] rehash_bucket.simps [simp del]

subsection \<open>Masks\<close>

text \<open>The next bit of the hash code that the new mask uses.\<close>

partial_function (option) next_bit :: "nat \<Rightarrow> nat \<Rightarrow> nat option" where
  "next_bit h b = (if h AND b \<noteq> 0 then Some b else next_bit h (2 * b))"

definition check_rehashing_collision :: "nat \<Rightarrow> nat \<Rightarrow> nat \<Rightarrow> ('k, 'v) hash_map \<Rightarrow> bool option" where
  "check_rehashing_collision h m_old msk m =
     (if h AND m_old \<noteq> h AND msk
      then do { b \<leftarrow> next_bit h (m_old + 1);
                c \<leftarrow> node_list m (h AND (2 * b - 1));
                Some (case c of Rehash_req \<Rightarrow> False | Chain _ \<Rightarrow> True) }
      else Some False)"

definition check_mask_race :: "nat \<Rightarrow> nat \<Rightarrow> ('k, 'v) hash_map \<Rightarrow> bool option" where
  "check_mask_race h m_old m =
     (if m_old \<noteq> my_mask m then check_rehashing_collision h m_old (my_mask m) m else Some False)"

text \<open>The segment to enable, or 0.\<close>

definition insert_new_node ::
  "nat \<Rightarrow> 'k \<times> 'v \<Rightarrow> nat \<Rightarrow> ('k, 'v) hash_map \<Rightarrow> (nat \<times> ('k, 'v) hash_map) option" where
  "insert_new_node b n msk m =
     do { let m = m\<lparr>my_size := my_size m + 1\<rparr>;
          c \<leftarrow> Option.bind (node_list m b) (add_to_bucket n);
          m \<leftarrow> set_node_list b c m;
          let new_seg = tbb_log2 (msk + 1);
          Some (if my_size m \<ge> msk \<and> my_table m ! new_seg = Null
                then (new_seg, m\<lparr>my_table := (my_table m)[new_seg := Claimed]\<rparr>)
                else (0, m)) }"

subsection \<open>Operations\<close>

text \<open>
  What an operation returns: a flag, or the exception of a failed allocation of a segment; and
  the node the accessor points to.
\<close>

datatype outcome = Returned bool | Bad_alloc

definition grow :: "(nat \<Rightarrow> bool) \<Rightarrow> nat \<Rightarrow> bool \<Rightarrow> ('k, 'v) hash_map \<Rightarrow> outcome \<times> ('k, 'v) hash_map" where
  "grow alloc new_seg r m =
     (if new_seg = 0 then (Returned r, m)
      else case enable_segment alloc new_seg False m of
          (True, m) \<Rightarrow> (Returned r, m)
        | (False, m) \<Rightarrow> (Bad_alloc, m))"

text \<open>
  \<^verbatim>\<open>lookup\<close> with the mask \<open>msk\<close> it has loaded; \<open>Inl\<close> is the restart with the mask of now.  The
  check for a race sets the mask to the one of now as well when it finds none that matters, so
  the load is checked against this mask while the bucket is still that of \<open>msk\<close>.  The
  new node has the value \<open>v\<close>: \<^verbatim>\<open>*t\<close>, or the default value when \<^verbatim>\<open>t\<close> is NULL.
\<close>

type_synonym ('k, 'v) lookup_result = "(outcome \<times> ('k \<times> 'v) option) \<times> ('k, 'v) hash_map"

definition lookup_try ::
  "('k \<Rightarrow> nat) \<Rightarrow> (nat \<Rightarrow> bool) \<Rightarrow> bool \<Rightarrow> 'k \<Rightarrow> 'v \<Rightarrow> nat \<Rightarrow> ('k, 'v) hash_map \<Rightarrow>
     (('k, 'v) hash_map + ('k, 'v) lookup_result) option" where
  "lookup_try hash alloc op_insert key v msk m =
     do { let h = hash key;
          m \<leftarrow> acquire_bucket hash (h AND msk) m;
          ns \<leftarrow> Option.bind (node_list m (h AND msk)) chain_nodes;
          case search_bucket key ns of
            Some n \<Rightarrow> Some (Inr ((Returned (\<not> op_insert), Some n), m))
          | None \<Rightarrow>
              do { race \<leftarrow> check_mask_race h msk m;
                   if race then Some (Inl m)
                   else if op_insert
                   then do { (seg, m) \<leftarrow> insert_new_node (h AND msk) (key, v) (my_mask m) m;
                             let (r, m) = grow alloc seg True m;
                             Some (Inr ((r, Some (key, v)), m)) }
                   else Some (Inr ((Returned False, None), m)) } }"

text \<open>
  A restarted attempt begins with the mask of the table, which no other thread changes any
  more in this model, so a second restart is excluded (\<open>lookup_ok\<close> in \<open>Hash_Map_Correct\<close>).
\<close>

definition lookup ::
  "('k \<Rightarrow> nat) \<Rightarrow> (nat \<Rightarrow> bool) \<Rightarrow> bool \<Rightarrow> 'k \<Rightarrow> 'v \<Rightarrow> nat \<Rightarrow> ('k, 'v) hash_map \<Rightarrow>
     ('k, 'v) lookup_result option" where
  "lookup hash alloc op_insert key v msk m =
     do { r \<leftarrow> lookup_try hash alloc op_insert key v msk m;
          case r of
            Inr res \<Rightarrow> Some res
          | Inl m \<Rightarrow>
              do { r \<leftarrow> lookup_try hash alloc op_insert key v (my_mask m) m;
                   case r of Inr res \<Rightarrow> Some res | Inl m \<Rightarrow> None } }"

text \<open>
  The operations of the class that call it, with the mask of the table; \<open>dflt\<close> is the value of
  a default-constructed item.
\<close>

definition hm_find ::
  "('k \<Rightarrow> nat) \<Rightarrow> 'v \<Rightarrow> 'k \<Rightarrow> ('k, 'v) hash_map \<Rightarrow> ('k, 'v) lookup_result option" where
  "hm_find hash dflt key m = lookup hash (\<lambda>_. True) False key dflt (my_mask m) m"

definition hm_count :: "('k \<Rightarrow> nat) \<Rightarrow> 'v \<Rightarrow> 'k \<Rightarrow> ('k, 'v) hash_map \<Rightarrow> (nat \<times> ('k, 'v) hash_map) option" where
  "hm_count hash dflt key m =
     map_option (\<lambda>((r, a), m). (if r = Returned True then 1 else 0, m)) (hm_find hash dflt key m)"

definition hm_insert_key ::
  "('k \<Rightarrow> nat) \<Rightarrow> (nat \<Rightarrow> bool) \<Rightarrow> 'v \<Rightarrow> 'k \<Rightarrow> ('k, 'v) hash_map \<Rightarrow> ('k, 'v) lookup_result option" where
  "hm_insert_key hash alloc dflt key m = lookup hash alloc True key dflt (my_mask m) m"

definition hm_insert ::
  "('k \<Rightarrow> nat) \<Rightarrow> (nat \<Rightarrow> bool) \<Rightarrow> 'k \<times> 'v \<Rightarrow> ('k, 'v) hash_map \<Rightarrow> ('k, 'v) lookup_result option" where
  "hm_insert hash alloc n m = lookup hash alloc True (fst n) (snd n) (my_mask m) m"

fun remove_node :: "'k \<Rightarrow> ('k \<times> 'v) list \<Rightarrow> ('k \<times> 'v) list" where
  "remove_node key [] = []"
| "remove_node key (n # ns) = (if fst n = key then ns else n # remove_node key ns)"

definition erase_try ::
  "('k \<Rightarrow> nat) \<Rightarrow> 'k \<Rightarrow> nat \<Rightarrow> ('k, 'v) hash_map \<Rightarrow> (('k, 'v) hash_map + bool \<times> ('k, 'v) hash_map) option" where
  "erase_try hash key msk m =
     do { let h = hash key;
          m \<leftarrow> acquire_bucket hash (h AND msk) m;
          ns \<leftarrow> Option.bind (node_list m (h AND msk)) chain_nodes;
          case search_bucket key ns of
            None \<Rightarrow>
              do { race \<leftarrow> check_mask_race h msk m;
                   Some (if race then Inl m else Inr (False, m)) }
          | Some n \<Rightarrow>
              do { m \<leftarrow> set_node_list (h AND msk) (Chain (remove_node key ns)) m;
                   Some (Inr (True, m\<lparr>my_size := my_size m - 1\<rparr>)) } }"

definition erase :: "('k \<Rightarrow> nat) \<Rightarrow> 'k \<Rightarrow> nat \<Rightarrow> ('k, 'v) hash_map \<Rightarrow> (bool \<times> ('k, 'v) hash_map) option" where
  "erase hash key msk m =
     do { r \<leftarrow> erase_try hash key msk m;
          case r of
            Inr res \<Rightarrow> Some res
          | Inl m \<Rightarrow>
              do { r \<leftarrow> erase_try hash key (my_mask m) m;
                   case r of Inr res \<Rightarrow> Some res | Inl m \<Rightarrow> None } }"

definition hm_erase :: "('k \<Rightarrow> nat) \<Rightarrow> 'k \<Rightarrow> ('k, 'v) hash_map \<Rightarrow> (bool \<times> ('k, 'v) hash_map) option" where
  "hm_erase hash key m = erase hash key (my_mask m) m"

text \<open>The serial search, which does not rehash but goes down to the parent of a marked bucket.\<close>

function rehashed_bucket :: "nat \<Rightarrow> ('k, 'v) hash_map \<Rightarrow> nat option" where
  "rehashed_bucket h m =
     do { c \<leftarrow> node_list m h;
          case c of
            Chain ns \<Rightarrow> Some h
          | Rehash_req \<Rightarrow>
              if h = 0 then None
              else do { msk \<leftarrow> parent_mask h; rehashed_bucket (h AND msk) m } }"
  by pat_completeness auto
termination
  by (relation "measure fst") (auto intro: parent_mask_less)

declare rehashed_bucket.simps [simp del]

definition equal_range :: "('k \<Rightarrow> nat) \<Rightarrow> 'k \<Rightarrow> ('k, 'v) hash_map \<Rightarrow> ('k \<times> 'v) option option" where
  "equal_range hash key m =
     do { h \<leftarrow> rehashed_bucket (hash key AND my_mask m) m;
          ns \<leftarrow> Option.bind (node_list m h) chain_nodes;
          Some (search_bucket key ns) }"

end
