(* ===== verification/Hash_Map_Correct.thy ===== *)
theory Hash_Map_Correct
  imports Hash_Map
begin

text \<open>
  The concurrent hash map refines a finite map: a node lies in the rehashed bucket next on the
  path of its hash code, rehashing moves it without changing the map, and lookup, insertion and
  removal act on the map also when they start with the mask of a smaller table.
\<close>

subsection \<open>Stores into buckets\<close>

definition put :: "nat \<times> int \<Rightarrow> ('k, 'v) chain \<Rightarrow> ('k, 'v) hash_map \<Rightarrow> ('k, 'v) hash_map" where
  "put a c m = m\<lparr>node_lists := (node_lists m)(a := c)\<rparr>"

lemma put_fields [simp]:
  "my_table (put a c m) = my_table m" "my_mask (put a c m) = my_mask m" "my_size (put a c m) = my_size m"
  "get_bucket (put a c m) = get_bucket m" "table_ok n (put a c m) \<longleftrightarrow> table_ok n m"
  by (simp_all add: put_def get_bucket_def table_ok_def fun_eq_iff)

lemma put_swap: "a \<noteq> b \<Longrightarrow> put a c (put b d m) = put b d (put a c m)"
  by (simp add: put_def fun_upd_twist)

lemma node_list_put: "get_bucket m h \<noteq> Some a \<Longrightarrow> node_list (put a c m) h = node_list m h"
  by (cases "get_bucket m h") (auto simp: node_list_def get_bucket_def put_def)

lemma set_node_list_put: "set_node_list h c m = map_option (\<lambda>a. put a c m) (get_bucket m h)"
  by (simp add: set_node_list_def put_def)

lemma same_table: "my_table m' = my_table m \<Longrightarrow> get_bucket m' = get_bucket m"
  by (simp add: get_bucket_def fun_eq_iff)

lemma rehash_bucket_cases:
  assumes "rehash_bucket hash h m = Some m'"
  obtains a b msk m1 ns bs ns' bs' where "1 < h" "parent_mask h = Some msk" "get_bucket m h = Some a"
    "acquire_bucket hash (h AND msk) (put a (Chain []) m) = Some m1"
    "get_bucket m1 (h AND msk) = Some b" "node_lists m1 b = Chain ns"
    "node_list m1 h = Some (Chain bs)"
    "move_nodes hash (2 * msk + 1) h ns bs = (ns', bs')"
    "set_node_list h (Chain bs') (put b (Chain ns') m1) = Some m'"
  using assms unfolding rehash_bucket.simps [of hash h m]
  by (auto simp: set_node_list_put node_list_def chain_nodes_def
      split: if_splits chain.splits prod.splits bind_splits)

lemma keeps_table:
  "acquire_bucket hash h m = Some m' \<Longrightarrow>
     my_table m' = my_table m \<and> my_mask m' = my_mask m \<and> my_size m' = my_size m"
  "rehash_bucket hash h m = Some m' \<Longrightarrow>
     my_table m' = my_table m \<and> my_mask m' = my_mask m \<and> my_size m' = my_size m"
proof (induction hash h m and hash h m arbitrary: m' and m' rule: acquire_bucket_rehash_bucket.induct)
  case (1 hash h m)
  show ?case
    using 1(2) unfolding acquire_bucket.simps [of hash h m]
    by (auto split: chain.splits bind_splits dest: 1(1))
next
  case (2 hash h m)
  from 2(2) show ?case
  proof (rule rehash_bucket_cases)
    fix a b msk m1 ns bs ns' bs'
    assume "1 < h" "parent_mask h = Some msk" "get_bucket m h = Some a"
      "acquire_bucket hash (h AND msk) (put a (Chain []) m) = Some m1"
      "set_node_list h (Chain bs') (put b (Chain ns') m1) = Some m'"
    with 2(1) [of "put a (Chain []) m" msk m1] show ?thesis
      by (auto simp: set_node_list_put)
  qed
qed

text \<open>Acquiring a bucket does not look at the buckets above it.\<close>

lemma acquire_frame:
  "\<forall>x \<le> h. get_bucket m x \<noteq> Some a \<Longrightarrow>
     acquire_bucket hash h (put a c m) = map_option (put a c) (acquire_bucket hash h m)"
  "\<forall>x \<le> h. get_bucket m x \<noteq> Some a \<Longrightarrow>
     rehash_bucket hash h (put a c m) = map_option (put a c) (rehash_bucket hash h m)"
proof (induction hash h m and hash h m rule: acquire_bucket_rehash_bucket.induct)
  case (1 hash h m)
  then have "node_list (put a c m) h = node_list m h" by (simp add: node_list_put)
  with 1 show ?case
    unfolding acquire_bucket.simps [of hash h]
    by (cases "node_list m h") (auto split: chain.splits)
next
  case (2 hash h m)
  show ?case
  proof (cases "1 < h \<and> get_bucket m h \<noteq> None \<and> parent_mask h \<noteq> None")
    case False
    then show ?thesis
      unfolding rehash_bucket.simps [of hash h]
      by (cases "get_bucket m h"; cases "parent_mask h") (auto simp: set_node_list_put)
  next
    case True
    then obtain b msk where h: "\<not> h \<le> 1" and b: "get_bucket m h = Some b" and msk: "parent_mask h = Some msk"
      by auto
    then have ab: "a \<noteq> b" and q: "h AND msk \<le> h" using 2(2) parent_mask_less [OF msk] by (auto simp: less_imp_le)
    let ?m = "put b (Chain []) m"
    have ih: "acquire_bucket hash (h AND msk) (put a c ?m) =
        map_option (put a c) (acquire_bucket hash (h AND msk) ?m)"
      by (rule 2(1) [OF h _ msk]) (use 2(2) b q in \<open>auto simp: set_node_list_put\<close>)
    have start: "set_node_list h (Chain []) (put a c m) = Some (put a c ?m)"
      "set_node_list h (Chain []) m = Some ?m"
      using b ab by (simp_all add: set_node_list_put put_swap)
    show ?thesis
    proof (cases "acquire_bucket hash (h AND msk) ?m")
      case None
      then show ?thesis
        unfolding rehash_bucket.simps [of hash h] using h start msk ih by simp
    next
      case (Some m1)
      then have gb: "get_bucket m1 = get_bucket m"
        using keeps_table(1) [OF Some] by (simp add: get_bucket_def fun_eq_iff)
      then have "node_list (put a c m1) (h AND msk) = node_list m1 (h AND msk)"
        "node_list (put a c m1) h = node_list m1 h"
        using 2(2) q by (simp_all add: node_list_put)
      moreover have "set_node_list h d' (put b' d (put a c m1)) = map_option (put a c) (set_node_list h d' (put b' d m1))"
        if "a \<noteq> b'" for d d' b'
        using that ab b gb by (simp add: set_node_list_put put_swap)
      moreover have "get_bucket m (h AND msk) \<noteq> Some a" using 2(2) q by blast
      ultimately show ?thesis
        unfolding rehash_bucket.simps [of hash h] using h start msk ih Some gb
        by (cases "get_bucket m (h AND msk)")
          (auto simp: set_node_list_put [of "h AND msk"] put_swap split: bind_splits prod.splits)
    qed
  qed
qed

subsection \<open>Where nodes are\<close>

definition rehashed :: "('k, 'v) hash_map \<Rightarrow> nat \<Rightarrow> bool" where
  "rehashed m i \<longleftrightarrow> list_at m i \<noteq> Rehash_req"

definition nodes_at :: "('k, 'v) hash_map \<Rightarrow> nat \<Rightarrow> ('k \<times> 'v) list" where
  "nodes_at m i = (case list_at m i of Rehash_req \<Rightarrow> [] | Chain ns \<Rightarrow> ns)"

definition items :: "nat \<Rightarrow> ('k, 'v) hash_map \<Rightarrow> ('k \<times> 'v) set" where
  "items n m = (\<Union>i < 2 ^ n. set (nodes_at m i))"

text \<open>
  Bucket \<open>i\<close> is on the path of the hash code \<open>c\<close>, and the buckets of the path above it are
  still marked.
\<close>

definition placed :: "nat \<Rightarrow> ('k, 'v) hash_map \<Rightarrow> nat \<Rightarrow> nat \<Rightarrow> bool" where
  "placed n m c i \<longleftrightarrow>
     (\<exists>j. 1 \<le> j \<and> j \<le> n \<and> i = c mod 2 ^ j \<and>
        (\<forall>j'. j \<le> j' \<and> j' \<le> n \<longrightarrow> c mod 2 ^ j' = i \<or> \<not> rehashed m (c mod 2 ^ j')))"

definition parent :: "nat \<Rightarrow> nat" where
  "parent i = i mod 2 ^ tbb_log2 i"

definition hm_ok :: "('k \<Rightarrow> nat) \<Rightarrow> nat \<Rightarrow> ('k, 'v) hash_map \<Rightarrow> bool" where
  "hm_ok hash n m \<longleftrightarrow> table_ok n m \<and> n \<le> 32 \<and> rehashed m 0 \<and> rehashed m 1 \<and>
     (\<forall>i < 2 ^ n. 1 < i \<and> rehashed m i \<longrightarrow> rehashed m (parent i)) \<and>
     (\<forall>i < 2 ^ n. \<forall>x \<in> set (nodes_at m i). placed n m (hash (fst x)) i) \<and>
     (\<forall>i < 2 ^ n. distinct (map fst (nodes_at m i))) \<and>
     my_size m = (\<Sum>i < 2 ^ n. length (nodes_at m i))"

lemma list_at_put: "list_at (put (bucket_addr h) c m) i = (if i = h then c else list_at m i)"
  by (auto simp: list_at_def put_def dest: bucket_addr_inj)

lemma parent_lt: "0 < i \<Longrightarrow> parent i < i"
  unfolding parent_def and_mask_mod [symmetric] by (rule parent_less)

lemma parent_add: "x < 2 ^ j \<Longrightarrow> parent (x + 2 ^ j) = x"
proof -
  assume x: "x < 2 ^ j"
  then have "tbb_log2 (x + 2 ^ j) = j" by (intro tbb_log2_unique) simp_all
  with x show ?thesis by (simp add: parent_def)
qed

lemma path_step: "c mod 2 ^ Suc j = c mod 2 ^ j \<or> c mod 2 ^ Suc j = c mod 2 ^ j + 2 ^ j" for c :: nat
proof -
  have "c mod 2 ^ Suc j = 2 ^ j * (c div 2 ^ j mod 2) + c mod 2 ^ j"
    by (metis mod_mult2_eq power_Suc2)
  then show ?thesis by (cases "c div 2 ^ j mod 2 = 0") auto
qed

lemma path_parent: "h mod 2 ^ Suc (tbb_log2 h) = h \<and> h mod 2 ^ tbb_log2 h = parent h \<and> parent h + 2 ^ tbb_log2 h = h"
  if "0 < h"
proof -
  from that have b: "2 ^ tbb_log2 h \<le> h" "h < 2 ^ Suc (tbb_log2 h)" using tbb_log2_bounds by auto
  then have "h mod 2 ^ tbb_log2 h = h - 2 ^ tbb_log2 h"
    by (metis le_add_diff_inverse2 le_mod_geq mod_less less_diff_conv2 mult_2 power_Suc)
  with b show ?thesis by (simp add: parent_def)
qed

lemma rehashed_closed:
  assumes ok: "hm_ok hash n m" and j: "1 \<le> j" "j \<le> j'" "j' \<le> n" and r: "rehashed m (c mod 2 ^ j')"
  shows "rehashed m (c mod 2 ^ j)"
  using j(2,3) r
proof (induction j' rule: dec_induct)
  case (step j')
  have "rehashed m (c mod 2 ^ j')"
  proof (cases "c mod 2 ^ Suc j' = c mod 2 ^ j'")
    case True
    with step.prems show ?thesis by simp
  next
    case False
    then have eq: "c mod 2 ^ Suc j' = c mod 2 ^ j' + 2 ^ j'" using path_step [of c j'] by blast
    have "(2 :: nat) ^ 1 \<le> 2 ^ j'" using j(1) step.hyps by (intro power_increasing) auto
    then have gt: "1 < c mod 2 ^ Suc j'" unfolding eq by simp
    have "c mod 2 ^ Suc j' < 2 ^ Suc j'" by simp
    moreover have "(2 :: nat) ^ Suc j' \<le> 2 ^ n" using step.prems(1) by (intro power_increasing) auto
    ultimately have "c mod 2 ^ Suc j' < 2 ^ n" by (rule less_le_trans)
    then have "rehashed m (parent (c mod 2 ^ Suc j'))" using ok gt step.prems(2) unfolding hm_ok_def by blast
    then show ?thesis unfolding eq by (simp add: parent_add)
  qed
  then show ?case using step by simp
qed

lemma placed_unique: "placed n m c i \<Longrightarrow> placed n m c i' \<Longrightarrow> rehashed m i \<Longrightarrow> rehashed m i' \<Longrightarrow> i = i'"
  unfolding placed_def by (metis nat_le_linear)

subsection \<open>Rehashing a bucket\<close>

lemma mod_mod_exp: "j \<le> j' \<Longrightarrow> c mod 2 ^ j' mod 2 ^ j = c mod 2 ^ j" for c :: nat
  by (simp add: mod_mod_cancel le_imp_power_dvd)

lemma move_nodes_eq:
  "move_nodes hash k h ns new =
     (filter (\<lambda>x. hash (fst x) AND k \<noteq> h) ns, rev (filter (\<lambda>x. hash (fst x) AND k = h) ns) @ new)"
  by (induction ns arbitrary: new) auto

lemma nodes_at_some: "x \<in> set (nodes_at m i) \<Longrightarrow> rehashed m i"
  by (auto simp: nodes_at_def rehashed_def)

lemma path_reaches:
  assumes "c mod 2 ^ j = h" "0 < h"
  shows "Suc (tbb_log2 h) \<le> j \<and> c mod 2 ^ Suc (tbb_log2 h) = h \<and> c mod 2 ^ tbb_log2 h = parent h"
proof -
  have "2 ^ tbb_log2 h \<le> h" "h < 2 ^ j" using assms tbb_log2_bounds [of h] by auto
  then have "Suc (tbb_log2 h) \<le> j" using tbb_log2_less [of h j] assms(2) by simp
  then show ?thesis
    using path_parent [OF assms(2)] assms(1) mod_mod_exp [of "Suc (tbb_log2 h)" j c]
      mod_mod_exp [of "tbb_log2 h" j c] by simp
qed

lemma rehash_placed:
  assumes ok: "hm_ok hash n m" and h: "1 < h" "h < 2 ^ n" "\<not> rehashed m h" "rehashed m (parent h)"
    and placed: "placed n m c i" and i: "rehashed m i"
    and reh: "\<forall>k < 2 ^ n. rehashed m' k \<longleftrightarrow> rehashed m k \<or> k = h"
    and moved: "i' = (if i = parent h \<and> c mod 2 ^ Suc (tbb_log2 h) = h then h else i)"
  shows "placed n m' c i'"
proof -
  let ?l = "Suc (tbb_log2 h)"
  have l: "?l \<le> n" using tbb_log2_less [of h n] h by simp
  from placed obtain j where j: "1 \<le> j" "j \<le> n" "i = c mod 2 ^ j"
    and up: "\<And>j'. j \<le> j' \<Longrightarrow> j' \<le> n \<Longrightarrow> c mod 2 ^ j' = i \<or> \<not> rehashed m (c mod 2 ^ j')"
    unfolding placed_def by blast
  have lt: "c mod 2 ^ j' < 2 ^ n" if "j' \<le> n" for j'
    using that by (meson less_le_trans mod_less_divisor power_increasing one_le_numeral zero_less_numeral zero_less_power)
  have hq: "parent h \<noteq> h" "parent h < 2 ^ ?l" "parent h < h" "h < 2 ^ ?l"
    using parent_lt [of h] h(1) tbb_log2_bounds [of h] by auto
  show ?thesis
  proof (cases "i = parent h \<and> c mod 2 ^ ?l = h")
    case True
    have "j \<le> ?l"
    proof (rule ccontr)
      assume "\<not> j \<le> ?l"
      then have "c mod 2 ^ j mod 2 ^ ?l = h"
        using True mod_mod_exp [of ?l j c] by (simp del: power_Suc)
      with j(3) True hq show False by simp
    qed
    have "c mod 2 ^ j' = h \<or> \<not> rehashed m' (c mod 2 ^ j')" if j': "?l \<le> j'" "j' \<le> n" for j'
    proof (rule disjCI)
      assume "\<not> \<not> rehashed m' (c mod 2 ^ j')"
      then consider "c mod 2 ^ j' = h" | "rehashed m (c mod 2 ^ j')" using reh lt [OF j'(2)] by blast
      then show "c mod 2 ^ j' = h"
      proof cases
        case 2
        then have "c mod 2 ^ j' = i" using up [of j'] j' \<open>j \<le> ?l\<close> by auto
        moreover have "c mod 2 ^ j' mod 2 ^ ?l = h" using True mod_mod_exp [OF j'(1), of c] by simp
        ultimately show ?thesis using True hq by simp
      qed
    qed
    then show ?thesis using True moved l unfolding placed_def by (intro exI [of _ ?l]) simp
  next
    case False
    have "c mod 2 ^ j' = i \<or> \<not> rehashed m' (c mod 2 ^ j')" if j': "j \<le> j'" "j' \<le> n" for j'
    proof (rule disjCI, rule ccontr)
      assume r: "\<not> \<not> rehashed m' (c mod 2 ^ j')" and ne: "c mod 2 ^ j' \<noteq> i"
      then have at: "c mod 2 ^ j' = h" using reh lt [OF j'(2)] up [OF j'] by blast
      from path_reaches [OF this] h(1) have reach: "?l \<le> j'" "c mod 2 ^ ?l = h" "c mod 2 ^ tbb_log2 h = parent h"
        by auto
      show False
      proof (cases "j \<le> tbb_log2 h")
        case True
        with up [of "tbb_log2 h"] l reach h(4) have "i = parent h" by auto
        with False reach show False by blast
      next
        case j_gt: False
        then have "rehashed m (c mod 2 ^ ?l)"
          using rehashed_closed [OF ok, of ?l j c] i j by simp
        with reach h(3) show False by simp
      qed
    qed
    then show ?thesis using False moved j unfolding placed_def by (intro exI [of _ j]) auto
  qed
qed

lemma rehash_ok:
  assumes ok: "hm_ok hash n m" and h: "1 < h" "h < 2 ^ n" "\<not> rehashed m h" "rehashed m (parent h)"
    and tab: "table_ok n m'" "my_size m' = my_size m"
    and P: "P = (\<lambda>x. hash (fst x) mod 2 ^ Suc (tbb_log2 h) = h)"
    and lists: "\<forall>i < 2 ^ n. list_at m' i =
      (if i = h then Chain (rev (filter P (nodes_at m (parent h))))
       else if i = parent h then Chain (filter (\<lambda>x. \<not> P x) (nodes_at m (parent h))) else list_at m i)"
  shows "hm_ok hash n m' \<and> items n m' = items n m"
proof -
  define q where "q = parent h"
  have q: "q < h" "q \<noteq> h" "q < 2 ^ n" using parent_lt [of h] h by (auto simp: q_def)
  have reh: "\<forall>k < 2 ^ n. rehashed m' k \<longleftrightarrow> rehashed m k \<or> k = h"
    using lists h(4) by (auto simp: rehashed_def)
  have nodes: "nodes_at m' i = (if i = h then rev (filter P (nodes_at m q))
      else if i = q then filter (\<lambda>x. \<not> P x) (nodes_at m q) else nodes_at m i)" if "i < 2 ^ n" for i
    using lists that by (simp add: nodes_at_def [of m'] q_def) (simp add: nodes_at_def)
  have empty: "nodes_at m h = []" using h(3) by (simp add: nodes_at_def rehashed_def)
  have origin: "\<exists>i. i < 2 ^ n \<and> x \<in> set (nodes_at m i) \<and> i' = (if i = q \<and> P x then h else i)"
    if "i' < 2 ^ n" "x \<in> set (nodes_at m' i')" for i' x
    using that q h by (cases "i' = h"; cases "i' = q") (auto simp: nodes)
  have pl: "placed n m' (hash (fst x)) i'" if x: "i' < 2 ^ n" "x \<in> set (nodes_at m' i')" for i' x
  proof -
    from origin [OF x] obtain i where i: "i < 2 ^ n" "x \<in> set (nodes_at m i)" "i' = (if i = q \<and> P x then h else i)"
      by blast
    then have "placed n m (hash (fst x)) i" using ok by (simp add: hm_ok_def)
    from rehash_placed [OF ok h this nodes_at_some [OF i(2)] reh, of i'] i(3) show ?thesis
      by (simp add: P q_def del: power_Suc)
  qed
  have "distinct (map fst (nodes_at m q))" using ok q(3) by (simp add: hm_ok_def)
  then have dist: "distinct (map fst (nodes_at m' i))" if "i < 2 ^ n" for i
    using that ok by (auto simp: nodes hm_ok_def simp flip: rev_map intro: distinct_map_filter)
  have "(\<Sum>i < 2 ^ n. length (nodes_at m' i)) = (\<Sum>i < 2 ^ n. length (nodes_at m i))"
  proof -
    let ?r = "{..< 2 ^ n} - {h} - {q}"
    have split: "(\<Sum>i < 2 ^ n. f i) = f h + (f q + sum f ?r)" for f :: "nat \<Rightarrow> nat"
      using q h by (subst sum.remove [of _ h], simp, simp) (subst sum.remove [of _ q], simp_all)
    have "sum (\<lambda>i. length (nodes_at m' i)) ?r = sum (\<lambda>i. length (nodes_at m i)) ?r"
      by (intro sum.cong) (auto simp: nodes)
    moreover have "length (filter P xs) + length (filter (\<lambda>x. \<not> P x) xs) = length xs" for xs
      by (rule sum_length_filter_compl)
    ultimately show ?thesis unfolding split using q h by (simp add: nodes empty)
  qed
  moreover have "items n m' = items n m"
  proof -
    have "set (nodes_at m' i) \<subseteq> items n m" if "i < 2 ^ n" for i
      using origin [OF that] unfolding items_def by blast
    moreover have "set (nodes_at m i) \<subseteq> items n m'" if "i < 2 ^ n" for i
    proof
      fix x assume x: "x \<in> set (nodes_at m i)"
      then have "x \<in> set (nodes_at m' (if i = q \<and> P x then h else i))"
        using that q h empty by (auto simp: nodes)
      then show "x \<in> items n m'" using that h by (auto simp: items_def split: if_splits)
    qed
    ultimately show ?thesis by (fastforce simp: items_def)
  qed
  moreover have "rehashed m' (parent i)" if i: "i < 2 ^ n" "1 < i" "rehashed m' i" for i
  proof -
    have "parent i < 2 ^ n" using parent_lt [of i] i by simp
    moreover have "rehashed m (parent i)" using i reh ok h(4) unfolding hm_ok_def by blast
    ultimately show ?thesis using reh by simp
  qed
  moreover have "rehashed m' 0" "rehashed m' 1" using reh ok h by (auto simp: hm_ok_def)
  ultimately show ?thesis using ok tab pl dist by (simp add: hm_ok_def)
qed

lemma acquire_ok:
  assumes "hm_ok hash n m" "h < 2 ^ n"
  shows "\<exists>m'. acquire_bucket hash h m = Some m' \<and> hm_ok hash n m' \<and> rehashed m' h \<and>
    items n m' = items n m \<and> (\<forall>i. h < i \<longrightarrow> list_at m' i = list_at m i)"
  using assms
proof (induction h arbitrary: m rule: less_induct)
  case (less h)
  from less.prems have tab: "table_ok n m" and n: "n \<le> 32" by (simp_all add: hm_ok_def)
  have nl: "node_list m h = Some (list_at m h)" by (rule node_list_at [OF tab less.prems(2)])
  show ?case
  proof (cases "rehashed m h")
    case True
    then show ?thesis
      using less.prems nl unfolding acquire_bucket.simps [of hash h m]
      by (auto simp: rehashed_def split: chain.splits)
  next
    case False
    then have h: "1 < h" using less.prems(1) by (cases "h = 0"; cases "h = 1") (auto simp: hm_ok_def)
    let ?a = "bucket_addr h" and ?msk = "2 ^ tbb_log2 h - 1 :: nat"
    have a: "get_bucket m h = Some ?a" by (rule get_bucket_addr [OF tab less.prems(2)])
    have msk: "parent_mask h = Some ?msk"
      using tbb_log2_less [of h n] h less.prems(2) n by (simp add: parent_mask_def)
    have q: "h AND ?msk = parent h" by (simp add: and_mask_mod parent_def del: One_nat_def)
    have q_lt: "parent h < h" "parent h < 2 ^ n" using parent_lt [of h] h less.prems(2) by simp_all
    from less.IH [OF q_lt(1) less.prems(1) q_lt(2)] obtain m1 where
      m1: "acquire_bucket hash (parent h) m = Some m1" "hm_ok hash n m1" "rehashed m1 (parent h)"
        "items n m1 = items n m" "\<forall>i. parent h < i \<longrightarrow> list_at m1 i = list_at m i"
      by blast
    have "get_bucket m x \<noteq> Some ?a" if "x \<le> parent h" for x
      using that q_lt get_bucket_addr [OF tab, of x] bucket_addr_inj [of x h] by auto
    then have acq: "acquire_bucket hash (parent h) (put ?a (Chain []) m) = Some (put ?a (Chain []) m1)"
      using acquire_frame(1) [of "parent h" m ?a hash] m1(1) by auto
    have tab1: "table_ok n m1" using m1(2) by (simp add: hm_ok_def)
    let ?ns = "nodes_at m1 (parent h)"
    let ?P = "\<lambda>x. hash (fst x) mod 2 ^ Suc (tbb_log2 h) = h"
    let ?m' = "put ?a (Chain (rev (filter ?P ?ns))) (put (bucket_addr (parent h))
      (Chain (filter (\<lambda>x. \<not> ?P x) ?ns)) (put ?a (Chain []) m1))"
    have full: "y AND Suc (2 * (2 ^ tbb_log2 h - Suc 0)) = y mod 2 ^ Suc (tbb_log2 h)" for y :: nat
    proof -
      have "1 \<le> (2 :: nat) ^ tbb_log2 h" by (rule one_le_power) simp
      then have "Suc (2 * (2 ^ tbb_log2 h - Suc 0)) = 2 ^ Suc (tbb_log2 h) - 1" by (simp only: power_Suc)
      then show ?thesis by (simp only: and_mask_mod)
    qed
    have "node_list (put ?a (Chain []) m1) (parent h) = Some (Chain ?ns)"
      "node_list (put ?a (Chain []) m1) h = Some (Chain [])"
      using node_list_at [of n "put ?a (Chain []) m1"] tab1 q_lt less.prems(2) m1(3)
      by (auto simp: list_at_put nodes_at_def rehashed_def split: chain.splits)
    then have "rehash_bucket hash h m = Some ?m'"
      unfolding rehash_bucket.simps [of hash h m]
      using h a msk q acq tab1 q_lt less.prems(2)
      by (simp add: set_node_list_put chain_nodes_def move_nodes_eq full get_bucket_addr del: power_Suc)
    then have "acquire_bucket hash h m = Some ?m'"
      using False nl unfolding acquire_bucket.simps [of hash h m] by (simp add: rehashed_def)
    moreover have "\<not> rehashed m1 h" using False m1(5) q_lt by (simp add: rehashed_def)
    then have "hm_ok hash n ?m' \<and> items n ?m' = items n m1"
      using tab1 m1(3) h less.prems(2)
      by (intro rehash_ok [OF m1(2), where h = h and P = ?P]) (simp_all add: list_at_put)
    moreover have "rehashed ?m' h" by (simp add: rehashed_def list_at_put)
    moreover have "\<forall>i. h < i \<longrightarrow> list_at ?m' i = list_at m i"
      using m1(5) q_lt by (simp add: list_at_put)
    ultimately show ?thesis using m1(4) by blast
  qed
qed

subsection \<open>Old masks\<close>

lemma and_exp_bit: "c AND 2 ^ j = 0 \<longleftrightarrow> \<not> bit c j" for c :: nat
  using bit_iff_and_push_bit_not_eq_0 [of c j] by (simp add: push_bit_eq_mult)

lemma mod_exp_Suc: "\<not> bit c j \<Longrightarrow> c mod 2 ^ Suc j = c mod 2 ^ j" for c :: nat
  by (metis add.left_neutral bit_iff_odd even_iff_mod_2_eq_zero mod_mult2_eq mult_0_right power_Suc2)

lemma next_bit_found:
  assumes "j \<le> n" "c mod 2 ^ j \<noteq> c mod 2 ^ n"
  shows "\<exists>q. j \<le> q \<and> q < n \<and> next_bit c (2 ^ j) = Some (2 ^ q) \<and>
    (\<forall>j'. j \<le> j' \<and> j' \<le> q \<longrightarrow> c mod 2 ^ j' = c mod 2 ^ j)"
  using assms
proof (induction "n - j" arbitrary: j)
  case 0
  then show ?case by simp
next
  case (Suc d)
  then have lt: "j < n" by simp
  show ?case
  proof (cases "bit c j")
    case True
    then have "next_bit c (2 ^ j) = Some (2 ^ j)" by (subst next_bit.simps) (simp add: and_exp_bit)
    with lt show ?thesis by (intro exI [of _ j]) auto
  next
    case False
    then have eq: "c mod 2 ^ Suc j = c mod 2 ^ j" by (rule mod_exp_Suc)
    have "next_bit c (2 ^ j) = next_bit c (2 ^ Suc j)"
      using False by (subst next_bit.simps) (simp add: and_exp_bit)
    moreover obtain q where q: "Suc j \<le> q" "q < n" "next_bit c (2 ^ Suc j) = Some (2 ^ q)"
      and same: "\<forall>j'. Suc j \<le> j' \<and> j' \<le> q \<longrightarrow> c mod 2 ^ j' = c mod 2 ^ Suc j"
    proof -
      have "d = n - Suc j" using Suc.hyps(2) by simp
      from Suc.hyps(1) [OF this] Suc.prems(2) lt eq that show ?thesis by (metis Suc_leI)
    qed
    moreover have "c mod 2 ^ j' = c mod 2 ^ j" if "j \<le> j'" "j' \<le> q" for j'
    proof (cases "j = j'")
      case False
      with that have "Suc j \<le> j'" by simp
      then have "c mod 2 ^ j' = c mod 2 ^ Suc j" using same that(2) by blast
      then show ?thesis by (rule trans [OF _ eq])
    qed (rule arg_cong [of _ _ "\<lambda>j. c mod 2 ^ j"], rule sym)
    ultimately show ?thesis by (metis Suc_leD)
  qed
qed

lemma mod_exp_less: "j \<le> n \<Longrightarrow> c mod 2 ^ j < 2 ^ n" for c :: nat
  by (rule less_le_trans [of _ "2 ^ j"]) (simp_all add: power_increasing)

text \<open>
  When there is no collision, a node missing in the bucket of the old mask is missing in the
  table, and the bucket is the place of such a node.
\<close>

lemma check_mask_race_placed:
  assumes ok: "hm_ok hash n m" and j: "1 \<le> j" "j \<le> n" and r: "rehashed m (c mod 2 ^ j)"
  shows "\<exists>race. check_mask_race c (2 ^ j - 1) m = Some race \<and>
    (\<not> race \<longrightarrow> placed n m c (c mod 2 ^ j)) \<and> (j = n \<longrightarrow> \<not> race)"
proof -
  have mask: "my_mask m = 2 ^ n - 1" and tab: "table_ok n m" using ok by (simp_all add: hm_ok_def table_ok_def)
  show ?thesis
  proof (cases "c mod 2 ^ j = c mod 2 ^ n")
    case True
    then have "c mod 2 ^ j' = c mod 2 ^ j" if "j \<le> j'" "j' \<le> n" for j'
    proof -
      have "c mod 2 ^ j' = c mod 2 ^ n mod 2 ^ j'" using that mod_mod_exp [of j' n c] by simp
      also have "\<dots> = c mod 2 ^ j" using True mod_exp_less [OF that(1), of c] by simp
      finally show ?thesis .
    qed
    then have "placed n m c (c mod 2 ^ j)" using j unfolding placed_def by blast
    then show ?thesis
      using True by (intro exI [of _ False])
        (simp add: check_mask_race_def check_rehashing_collision_def mask and_mask_mod del: One_nat_def)
  next
    case False
    from next_bit_found [OF j(2) False] obtain q where
      q: "j \<le> q" "q < n" "next_bit c (2 ^ j) = Some (2 ^ q)"
        "\<forall>j'. j \<le> j' \<and> j' \<le> q \<longrightarrow> c mod 2 ^ j' = c mod 2 ^ j" by blast
    have ne: "2 ^ j - 1 \<noteq> (2 :: nat) ^ n - 1" "j \<noteq> n"
    proof -
      show "j \<noteq> n" using False by auto
      then have "(2 :: nat) ^ j < 2 ^ n" using j(2) by simp
      moreover have "1 \<le> (2 :: nat) ^ j" by (rule one_le_power) simp
      ultimately show "2 ^ j - 1 \<noteq> (2 :: nat) ^ n - 1" by linarith
    qed
    have one: "2 ^ j - 1 + 1 = (2 :: nat) ^ j" by simp
    have full: "c AND (2 * 2 ^ q - 1) = c mod 2 ^ Suc q"
      using and_mask_mod [of c "Suc q"] by simp
    let ?b = "c mod 2 ^ Suc q"
    have "?b < 2 ^ n" using q by (intro mod_exp_less) simp
    then have "check_mask_race c (2 ^ j - 1) m = Some (rehashed m ?b)"
      using False ne(1) one q(3) full
      by (simp add: check_mask_race_def check_rehashing_collision_def mask and_mask_mod
          node_list_at [OF tab] rehashed_def del: One_nat_def split: chain.splits)
    moreover have "placed n m c (c mod 2 ^ j)" if nr: "\<not> rehashed m ?b"
    proof -
      have "c mod 2 ^ j' = c mod 2 ^ j \<or> \<not> rehashed m (c mod 2 ^ j')" if j': "j \<le> j'" "j' \<le> n" for j'
      proof (cases "j' \<le> q")
        case True
        with q(4) j'(1) show ?thesis by blast
      next
        case False
        with rehashed_closed [OF ok, of "Suc q" j' c] j' nr show ?thesis by auto
      qed
      then show ?thesis using j unfolding placed_def by blast
    qed
    ultimately show ?thesis using ne by blast
  qed
qed

subsection \<open>The map of a table\<close>

definition contents :: "('k, 'v) hash_map \<Rightarrow> ('k \<times> 'v) list" where
  "contents m = concat (map (nodes_at m) [0..<my_mask m + 1])"

definition hm_abs :: "('k, 'v) hash_map \<Rightarrow> 'k \<rightharpoonup> 'v" where
  "hm_abs m = map_of (contents m)"

lemma hm_okD:
  assumes "hm_ok hash n m"
  shows "table_ok n m" "n \<le> 32" "my_mask m + 1 = 2 ^ n" "1 \<le> n"
  using assms by (auto simp: hm_ok_def table_ok_def)

lemma set_contents: "hm_ok hash n m \<Longrightarrow> set (contents m) = items n m"
  unfolding contents_def by (subst hm_okD(3)) (auto simp: items_def)

lemma item_place:
  assumes ok: "hm_ok hash n m" and h: "h < 2 ^ n" "placed n m (hash k) h" "rehashed m h"
  shows "(k, v) \<in> items n m \<longleftrightarrow> (k, v) \<in> set (nodes_at m h)"
proof
  assume "(k, v) \<in> items n m"
  then obtain i where i: "i < 2 ^ n" "(k, v) \<in> set (nodes_at m i)" by (auto simp: items_def)
  then have "placed n m (hash k) i" using ok unfolding hm_ok_def by (metis fst_conv)
  then have "i = h" using placed_unique h nodes_at_some [OF i(2)] by metis
  with i show "(k, v) \<in> set (nodes_at m h)" by simp
qed (use h in \<open>auto simp: items_def\<close>)

lemma items_functional:
  assumes ok: "hm_ok hash n m" and x: "(k, v) \<in> items n m" "(k, v') \<in> items n m"
  shows "v = v'"
proof -
  from x(1) obtain i where i: "i < 2 ^ n" "(k, v) \<in> set (nodes_at m i)" by (auto simp: items_def)
  then have "placed n m (hash k) i" using ok unfolding hm_ok_def by (metis fst_conv)
  from item_place [OF ok i(1) this nodes_at_some [OF i(2)]] x(2) have "(k, v') \<in> set (nodes_at m i)" by simp
  moreover have "distinct (map fst (nodes_at m i))" using ok i(1) by (simp add: hm_ok_def)
  ultimately show ?thesis using i(2) by (metis eq_key_imp_eq_value)
qed

lemma hm_abs_iff: "hm_abs m k = Some v \<longleftrightarrow> (k, v) \<in> items n m" if ok: "hm_ok hash n m"
proof
  assume "hm_abs m k = Some v"
  then show "(k, v) \<in> items n m"
    unfolding hm_abs_def set_contents [OF ok, symmetric] by (rule map_of_SomeD)
next
  assume kv: "(k, v) \<in> items n m"
  then obtain v' where v': "hm_abs m k = Some v'"
    unfolding hm_abs_def set_contents [OF ok, symmetric] by (metis weak_map_of_SomeI)
  then have "(k, v') \<in> items n m"
    unfolding hm_abs_def set_contents [OF ok, symmetric] by (rule map_of_SomeD)
  with kv v' show "hm_abs m k = Some v" using items_functional [OF ok] by metis
qed

lemma hm_abs_none: "hm_abs m k = None \<longleftrightarrow> (\<forall>v. (k, v) \<notin> items n m)" if "hm_ok hash n m"
  using hm_abs_iff [OF that, of k] by (metis not_Some_eq)

lemma hm_abs_same:
  "hm_ok hash n m \<Longrightarrow> hm_ok hash n' m' \<Longrightarrow> items n' m' = items n m \<Longrightarrow> hm_abs m' = hm_abs m"
  by (rule ext, rule option.expand) (metis hm_abs_iff not_Some_eq, metis hm_abs_iff option.collapse)

lemma hm_abs_insert:
  assumes "hm_ok hash n m" "hm_ok hash n' m'" "items n' m' = insert (k, v) (items n m)"
  shows "hm_abs m' = (hm_abs m)(k \<mapsto> v)"
proof
  fix x
  show "hm_abs m' x = ((hm_abs m)(k \<mapsto> v)) x"
  proof (cases "x = k")
    case True
    then show ?thesis using hm_abs_iff [OF assms(2), of k v] assms(3) by simp
  next
    case False
    then have "hm_abs m' x = Some y \<longleftrightarrow> hm_abs m x = Some y" for y
      using hm_abs_iff [OF assms(1), of x y] hm_abs_iff [OF assms(2), of x y] assms(3) by simp
    then have "hm_abs m' x = hm_abs m x" by (metis not_Some_eq)
    with False show ?thesis by simp
  qed
qed

lemma hm_abs_delete:
  assumes "hm_ok hash n m" "hm_ok hash n' m'" "items n' m' = {x \<in> items n m. fst x \<noteq> k}"
  shows "hm_abs m' = (hm_abs m)(k := None)"
proof
  fix x
  have "hm_abs m' x = Some y \<longleftrightarrow> x \<noteq> k \<and> hm_abs m x = Some y" for y
    using hm_abs_iff [OF assms(1), of x y] hm_abs_iff [OF assms(2), of x y] assms(3) by auto
  then show "hm_abs m' x = ((hm_abs m)(k := None)) x"
    by (cases "x = k") (metis fun_upd_same not_Some_eq, metis fun_upd_other not_Some_eq)
qed

subsection \<open>Storing a chain\<close>

lemma rehashed_put:
  "rehashed (put (bucket_addr h) (Chain ns) m) i \<longleftrightarrow> i = h \<or> rehashed m i"
  by (simp add: rehashed_def list_at_put)

lemma nodes_put:
  "nodes_at (put (bucket_addr h) (Chain ns) m) i = (if i = h then ns else nodes_at m i)"
  by (simp add: nodes_at_def list_at_put)

text \<open>A chain changes by nodes that belong to the bucket; the size follows.\<close>

lemma store_ok:
  assumes ok: "hm_ok hash n m" and h: "h < 2 ^ n" "rehashed m h"
    and ns: "\<forall>x \<in> set ns. placed n m (hash (fst x)) h" "distinct (map fst ns)"
    and m': "table_ok n m'" "list_at m' = list_at (put (bucket_addr h) (Chain ns) m)"
      "my_size m' + length (nodes_at m h) = my_size m + length ns"
  shows "hm_ok hash n m'"
proof -
  have reh: "rehashed m' i \<longleftrightarrow> rehashed m i" for i
    using rehashed_put [of h ns m i] h(2) by (auto simp: rehashed_def m'(2))
  then have placed: "placed n m' c i \<longleftrightarrow> placed n m c i" for c i by (simp add: placed_def)
  have nodes: "nodes_at m' i = (if i = h then ns else nodes_at m i)" for i
    using nodes_put [of h ns m i] by (simp add: nodes_at_def [of m'] nodes_at_def [of "put a b c" for a b c] m'(2))
  have split: "(\<Sum>i < 2 ^ n. f i) = f h + sum f ({..< 2 ^ n} - {h})" for f :: "nat \<Rightarrow> nat"
    using h(1) by (subst sum.remove [of _ h]) simp_all
  have "sum (\<lambda>i. length (nodes_at m' i)) ({..< 2 ^ n} - {h}) = sum (\<lambda>i. length (nodes_at m i)) ({..< 2 ^ n} - {h})"
    by (intro sum.cong) (auto simp: nodes)
  moreover have "my_size m = (\<Sum>i < 2 ^ n. length (nodes_at m i))" using ok by (simp add: hm_ok_def)
  ultimately have "my_size m' = (\<Sum>i < 2 ^ n. length (nodes_at m' i))"
    using m'(3) unfolding split by (simp add: nodes)
  then show ?thesis
    using ok m'(1) ns by (simp add: hm_ok_def reh placed nodes)
qed

lemma store_items:
  assumes "h < 2 ^ n" "list_at m' = list_at (put (bucket_addr h) (Chain ns) m)"
  shows "items n m' = set ns \<union> (\<Union>i \<in> {..< 2 ^ n} - {h}. set (nodes_at m i))"
proof -
  have "nodes_at m' i = (if i = h then ns else nodes_at m i)" for i
    using nodes_put [of h ns m i] by (simp add: nodes_at_def [of m'] nodes_at_def [of "put a b c" for a b c] assms(2))
  then show ?thesis using assms(1) by (auto simp: items_def split: if_splits)
qed

lemma items_split: "h < 2 ^ n \<Longrightarrow> items n m = set (nodes_at m h) \<union> (\<Union>i \<in> {..< 2 ^ n} - {h}. set (nodes_at m i))"
  by (auto simp: items_def)

subsection \<open>Growth\<close>

lemma grow_ok:
  assumes ok: "hm_ok hash n m" and n: "next_bits n \<le> 32" and e: "enable_segment alloc n False m = (True, m')"
  shows "hm_ok hash (next_bits n) m' \<and> items (next_bits n) m' = items n m"
proof -
  have tab: "table_ok n m" using ok by (simp add: hm_ok_def)
  have n64: "next_bits n < 64" and le: "n \<le> next_bits n" using n by (auto simp: next_bits_def)
  have pow: "(2 :: nat) ^ n \<le> 2 ^ next_bits n" using le by (intro power_increasing) simp_all
  have lt: "i < 2 ^ next_bits n" if "i < 2 ^ n" for i :: nat
    using that pow by (rule less_le_trans)
  have lists: "list_at m' i = (if 2 ^ n \<le> i then Rehash_req else list_at m i)" if "i < 2 ^ next_bits n" for i
    using enable_segment_lists [OF tab n64 e that] by simp
  then have reh: "rehashed m' i \<longleftrightarrow> i < 2 ^ n \<and> rehashed m i"
    and nodes: "nodes_at m' i = (if i < 2 ^ n then nodes_at m i else [])" if "i < 2 ^ next_bits n" for i
    using that by (auto simp: rehashed_def nodes_at_def)
  have placed: "placed (next_bits n) m' c i" if p: "placed n m c i" for c i
  proof -
    from p obtain j where j: "1 \<le> j" "j \<le> n" "i = c mod 2 ^ j"
      and up: "\<And>j'. j \<le> j' \<Longrightarrow> j' \<le> n \<Longrightarrow> c mod 2 ^ j' = i \<or> \<not> rehashed m (c mod 2 ^ j')"
      unfolding placed_def by blast
    have "c mod 2 ^ j' = i \<or> \<not> rehashed m' (c mod 2 ^ j')" if j': "j \<le> j'" "j' \<le> next_bits n" for j'
    proof (cases "j' \<le> n")
      case True
      with up [of j'] j' reh [OF mod_exp_less [OF j'(2), of c]] show ?thesis by blast
    next
      case False
      have "c mod 2 ^ j' < 2 ^ n \<Longrightarrow> c mod 2 ^ j' = c mod 2 ^ n"
        using False mod_mod_exp [of n j' c] by simp
      with up [of n] j reh [OF mod_exp_less [OF j'(2), of c]] show ?thesis by auto
    qed
    then show ?thesis using j le unfolding placed_def by (metis le_trans)
  qed
  have "(\<Sum>i < 2 ^ next_bits n. length (nodes_at m' i)) = (\<Sum>i < 2 ^ n. length (nodes_at m' i))"
    using pow by (intro sum.mono_neutral_right) (auto simp: nodes)
  also have "\<dots> = (\<Sum>i < 2 ^ n. length (nodes_at m i))"
    by (intro sum.cong) (auto simp: nodes lt)
  finally have size: "my_size m' = (\<Sum>i < 2 ^ next_bits n. length (nodes_at m' i))"
    using ok enable_segment_size [of alloc n False m] e by (simp add: hm_ok_def)
  have items: "items (next_bits n) m' = items n m"
    unfolding items_def by (force simp: nodes lt split: if_splits)
  have "rehashed m' (parent i)" if "i < 2 ^ next_bits n" "1 < i" "rehashed m' i" for i
    using that reh [of i] reh [of "parent i"] parent_lt [of i] ok by (auto simp: hm_ok_def)
  moreover have one: "(1 :: nat) < 2 ^ n"
    using hm_okD(4) [OF ok] by (intro one_less_power) simp_all
  then have "rehashed m' 0" "rehashed m' 1"
    using reh [OF lt, of 0] reh [OF lt, of 1] ok by (simp_all add: hm_ok_def)
  ultimately show ?thesis
    using ok enable_segment_mask_table [OF tab n64 e] n size items placed nodes
    by (auto simp: hm_ok_def)
qed

subsection \<open>Attempts\<close>

lemma hm_ok_cong:
  assumes "hm_ok hash n m" "table_ok n m'" "list_at m' = list_at m" "my_size m' = my_size m"
  shows "hm_ok hash n m' \<and> items n m' = items n m"
  using assms by (simp add: hm_ok_def placed_def items_def rehashed_def nodes_at_def)

lemma search_bucket_map_of: "search_bucket key ns = map_option (Pair key) (map_of ns key)"
  by (induction ns) (auto simp: prod_eq_iff)

text \<open>The bucket an operation works on: acquired, and searched.\<close>

lemma acquire_for:
  assumes ok: "hm_ok hash n m" and j: "1 \<le> j" "j \<le> n"
  shows "\<exists>m1. acquire_bucket hash (c AND (2 ^ j - 1)) m = Some m1 \<and> hm_ok hash n m1 \<and>
    rehashed m1 (c mod 2 ^ j) \<and> items n m1 = items n m \<and>
    Option.bind (node_list m1 (c AND (2 ^ j - 1))) chain_nodes = Some (nodes_at m1 (c mod 2 ^ j))"
proof -
  have h: "c mod 2 ^ j < 2 ^ n" using j(2) by (rule mod_exp_less)
  from acquire_ok [OF ok h] obtain m1 where m1: "acquire_bucket hash (c mod 2 ^ j) m = Some m1"
    "hm_ok hash n m1" "rehashed m1 (c mod 2 ^ j)" "items n m1 = items n m" by blast
  moreover have "node_list m1 (c mod 2 ^ j) = Some (list_at m1 (c mod 2 ^ j))"
    using m1(2) h by (intro node_list_at) (simp_all add: hm_ok_def)
  then have "Option.bind (node_list m1 (c mod 2 ^ j)) chain_nodes = Some (nodes_at m1 (c mod 2 ^ j))"
    using m1(3) by (auto simp: chain_nodes_def nodes_at_def rehashed_def split: chain.splits)
  ultimately show ?thesis unfolding and_mask_mod by blast
qed

lemma table_ok_claim:
  "table_ok n m \<Longrightarrow> table_ok n (m\<lparr>my_table := (my_table m)[n := Claimed]\<rparr>)"
  by (cases "n = 0") (simp_all add: table_ok_def nth_list_update)

text \<open>An operation adds at most one segment, and only when the table has as many items as its mask.\<close>

definition grown :: "nat \<Rightarrow> nat \<Rightarrow> ('k, 'v) hash_map \<Rightarrow> bool" where
  "grown n n' m' \<longleftrightarrow> n' = n \<or> n' = next_bits n \<and> 2 ^ n - 1 \<le> my_size m'"

lemma insert_new_node_ok:
  assumes ok: "hm_ok hash n m" and j: "1 \<le> j" "j \<le> n" and h: "h = hash key mod 2 ^ j"
    and r: "rehashed m h" and p: "placed n m (hash key) h" and new: "\<forall>v. (key, v) \<notin> items n m"
  shows "\<exists>seg m'. insert_new_node h (key, v) (my_mask m) m = Some (seg, m') \<and> (seg = 0 \<or> seg = n \<and> 2 ^ n - 1 \<le> my_size m') \<and>
    hm_ok hash n m' \<and> items n m' = insert (key, v) (items n m)"
proof -
  have tab: "table_ok n m" using ok by (simp add: hm_ok_def)
  have hn: "h < 2 ^ n" unfolding h using j(2) by (rule mod_exp_less)
  let ?ns = "(key, v) # nodes_at m h"
  define m1 where "m1 = put (bucket_addr h) (Chain ?ns) (m\<lparr>my_size := my_size m + 1\<rparr>)"
  have mask: "my_mask m = 2 ^ n - 1" "my_mask m + 1 = 2 ^ n" using hm_okD [OF ok] by (simp_all add: table_ok_def)
  have log: "tbb_log2 (my_mask m + 1) = n" unfolding mask(2) by (rule tbb_log2_unique) simp_all
  have tab1: "table_ok n m1" using tab by (simp add: m1_def table_ok_def)
  have at: "node_list (m\<lparr>my_size := s\<rparr>) h = Some (list_at m h)" for s
    using node_list_at [OF tab hn] by (simp add: node_list_def get_bucket_def list_at_def)
  have add: "add_to_bucket (key, v) (list_at m h) = Some (Chain ?ns)"
    using r by (auto simp: add_to_bucket_def nodes_at_def rehashed_def split: chain.splits)
  have "set_node_list h (Chain ?ns) (m\<lparr>my_size := my_size m + 1\<rparr>) = Some m1"
    using get_bucket_addr [OF tab hn] by (simp add: set_node_list_put m1_def get_bucket_def)
  then have ins: "insert_new_node h (key, v) (my_mask m) m =
      Some (if my_size m1 \<ge> my_mask m \<and> my_table m1 ! n = Null
        then (n, m1\<lparr>my_table := (my_table m1)[n := Claimed]\<rparr>) else (0, m1))"
    using log at [of "Suc (my_size m)"] add by (simp add: insert_new_node_def Let_def)
  obtain seg m' where m': "insert_new_node h (key, v) (my_mask m) m = Some (seg, m')" "seg = 0 \<or> seg = n \<and> 2 ^ n - 1 \<le> my_size m'"
    "table_ok n m'" "list_at m' = list_at m1" "my_size m' = my_size m1"
  proof (cases "my_size m1 \<ge> my_mask m \<and> my_table m1 ! n = Null")
    case True
    show ?thesis
    proof (rule that)
      show "insert_new_node h (key, v) (my_mask m) m = Some (n, m1\<lparr>my_table := (my_table m1)[n := Claimed]\<rparr>)"
        using ins True by simp
      show "table_ok n (m1\<lparr>my_table := (my_table m1)[n := Claimed]\<rparr>)" by (rule table_ok_claim [OF tab1])
    qed (use True mask(1) in \<open>simp_all add: list_at_def fun_eq_iff\<close>)
  next
    case False
    then have "insert_new_node h (key, v) (my_mask m) m = Some (0, m1)" using ins by (simp only: if_False)
    then show ?thesis by (rule that [OF _ _ tab1]) simp_all
  qed
  have lists: "list_at m' = list_at (put (bucket_addr h) (Chain ?ns) m)"
    using m'(4) by (simp add: m1_def list_at_def put_def fun_eq_iff)
  have old: "set (nodes_at m h) \<subseteq> items n m" using hn by (auto simp: items_def)
  have "\<forall>x \<in> set (nodes_at m h). placed n m (hash (fst x)) h" "distinct (map fst (nodes_at m h))"
    using ok hn by (simp_all add: hm_ok_def)
  moreover have "key \<notin> fst ` set (nodes_at m h)" using new old by auto
  ultimately have "hm_ok hash n m'"
    using p m' by (intro store_ok [OF ok hn r _ _ m'(3) lists]) (auto simp: m1_def)
  moreover have "items n m' = insert (key, v) (items n m)"
    using store_items [OF hn lists] items_split [OF hn, of m] by auto
  ultimately show ?thesis using m' by blast
qed

lemma grow_after_insert:
  assumes ok: "hm_ok hash n m" and seg: "seg = 0 \<or> seg = n \<and> 2 ^ n - 1 \<le> my_size m" and n: "n < 32"
  shows "\<exists>r m' n'. grow alloc seg True m = (r, m') \<and> hm_ok hash n' m' \<and> items n' m' = items n m \<and> grown n n' m' \<and>
    (r = Returned True \<or> r = Bad_alloc \<and> (\<exists>sz. \<not> alloc sz))"
proof (cases "seg = 0")
  case True
  then show ?thesis using ok by (auto simp: grow_def grown_def)
next
  case False
  obtain b m' where e: "enable_segment alloc n False m = (b, m')" by (cases "enable_segment alloc n False m")
  have n32: "next_bits n \<le> 32" using n by (simp add: next_bits_def)
  show ?thesis
  proof (cases b)
    case True
    with e have e: "enable_segment alloc n False m = (True, m')" by simp
    then have "grow alloc seg True m = (Returned True, m')" using seg False by (simp add: grow_def)
    moreover have "my_size m' = my_size m" using enable_segment_size [of alloc n False m] e by simp
    then have "grown n (next_bits n) m'" using seg False by (simp add: grown_def)
    ultimately show ?thesis using grow_ok [OF ok n32 e] by blast
  next
    case b: False
    with e have e: "enable_segment alloc n False m = (False, m')" by simp
    then have "grow alloc seg True m = (Bad_alloc, m')" using seg False by (simp add: grow_def)
    moreover have "\<exists>sz. \<not> alloc sz" using e by (auto simp: enable_segment_def Let_def split: if_splits)
    moreover have "hm_ok hash n m' \<and> items n m' = items n m"
      using enable_segment_fails [OF _ e] ok by (intro hm_ok_cong) (auto simp: hm_ok_def)
    moreover have "grown n n m'" by (simp add: grown_def)
    ultimately show ?thesis by blast
  qed
qed

text \<open>What an attempt returns when it does not restart, as an effect on the set of nodes.\<close>

definition lookup_effect ::
  "(nat \<Rightarrow> bool) \<Rightarrow> bool \<Rightarrow> 'k \<Rightarrow> 'v \<Rightarrow> ('k \<times> 'v) set \<Rightarrow> outcome \<Rightarrow> ('k \<times> 'v) option \<Rightarrow> ('k \<times> 'v) set \<Rightarrow> bool" where
  "lookup_effect alloc op_insert key v I r a I' \<longleftrightarrow>
     (\<exists>v'. (key, v') \<in> I \<and> r = Returned (\<not> op_insert) \<and> a = Some (key, v') \<and> I' = I) \<or>
     ((\<forall>v'. (key, v') \<notin> I) \<and> \<not> op_insert \<and> r = Returned False \<and> a = None \<and> I' = I) \<or>
     ((\<forall>v'. (key, v') \<notin> I) \<and> op_insert \<and> (r = Returned True \<or> r = Bad_alloc \<and> (\<exists>sz. \<not> alloc sz)) \<and>
        a = Some (key, v) \<and> I' = insert (key, v) I)"

lemma lookup_try_ok:
  assumes ok: "hm_ok hash n m" and j: "1 \<le> j" "j \<le> n" and n: "n < 32"
  shows "(\<exists>m1. lookup_try hash alloc op_insert key v (2 ^ j - 1) m = Some (Inl m1) \<and> hm_ok hash n m1 \<and>
      items n m1 = items n m \<and> j \<noteq> n) \<or>
    (\<exists>r a m' n'. lookup_try hash alloc op_insert key v (2 ^ j - 1) m = Some (Inr ((r, a), m')) \<and>
      hm_ok hash n' m' \<and> lookup_effect alloc op_insert key v (items n m) r a (items n' m') \<and> grown n n' m')"
proof -
  let ?h = "hash key AND (2 ^ j - 1)" and ?b = "hash key mod 2 ^ j"
  from acquire_for [OF ok j, of "hash key"] obtain m1 where acq: "acquire_bucket hash ?h m = Some m1"
    and ok1: "hm_ok hash n m1" and r1: "rehashed m1 ?b" and it: "items n m1 = items n m"
    and ns: "Option.bind (node_list m1 ?h) chain_nodes = Some (nodes_at m1 ?b)"
    by blast
  have b: "?b < 2 ^ n" using j(2) by (rule mod_exp_less)
  have run: "lookup_try hash alloc op_insert key v (2 ^ j - 1) m =
      (case search_bucket key (nodes_at m1 ?b) of
         Some nd \<Rightarrow> Some (Inr ((Returned (\<not> op_insert), Some nd), m1))
       | None \<Rightarrow>
           do { race \<leftarrow> check_mask_race (hash key) (2 ^ j - 1) m1;
                if race then Some (Inl m1)
                else if op_insert
                then do { (seg, m) \<leftarrow> insert_new_node ?h (key, v) (my_mask m1) m1;
                          let (r, m) = grow alloc seg True m;
                          Some (Inr ((r, Some (key, v)), m)) }
                else Some (Inr ((Returned False, None), m1)) })"
    unfolding lookup_try_def Let_def acq ns Option.bind.simps ..
  show ?thesis
  proof (cases "map_of (nodes_at m1 ?b) key")
    case (Some v')
    have "(key, v') \<in> items n m1"
      unfolding items_def by (rule UN_I [of ?b]) (use b in \<open>simp_all add: map_of_SomeD [OF Some]\<close>)
    then have "(key, v') \<in> items n m" using it by simp
    moreover have "lookup_try hash alloc op_insert key v (2 ^ j - 1) m =
        Some (Inr ((Returned (\<not> op_insert), Some (key, v')), m1))"
      unfolding run using Some by (simp add: search_bucket_map_of)
    moreover from \<open>(key, v') \<in> items n m\<close> have
      "lookup_effect alloc op_insert key v (items n m) (Returned (\<not> op_insert)) (Some (key, v')) (items n m1)"
      unfolding lookup_effect_def it by (intro disjI1 exI [of _ v']) simp
    moreover have "grown n n m1" by (simp add: grown_def)
    ultimately show ?thesis using ok1 by blast
  next
    case None
    then have search: "search_bucket key (nodes_at m1 ?b) = None" by (simp add: search_bucket_map_of)
    from check_mask_race_placed [OF ok1 j r1] obtain race where
      race: "check_mask_race (hash key) (2 ^ j - 1) m1 = Some race" "\<not> race \<longrightarrow> placed n m1 (hash key) ?b"
        "j = n \<longrightarrow> \<not> race" by blast
    show ?thesis
    proof (cases race)
      case True
      then have "lookup_try hash alloc op_insert key v (2 ^ j - 1) m = Some (Inl m1)"
        unfolding run search race(1) by simp
      then show ?thesis using ok1 it race True by blast
    next
      case False
      then have p: "placed n m1 (hash key) ?b" using race by blast
      have new: "\<forall>v. (key, v) \<notin> items n m1"
        using item_place [OF ok1 b p r1] None by (metis map_of_eq_None_iff image_eqI fst_conv)
      show ?thesis
      proof (cases op_insert)
        case ins: True
        from insert_new_node_ok [OF ok1 j refl r1 p new] obtain seg m2 where
          m2: "insert_new_node ?b (key, v) (my_mask m1) m1 = Some (seg, m2)" "seg = 0 \<or> seg = n \<and> 2 ^ n - 1 \<le> my_size m2"
            "hm_ok hash n m2" "items n m2 = insert (key, v) (items n m1)" by blast
        from grow_after_insert [OF m2(3,2) n, of alloc] obtain r m' n' where
          g: "grow alloc seg True m2 = (r, m')" "hm_ok hash n' m'" "items n' m' = items n m2"
            "r = Returned True \<or> r = Bad_alloc \<and> (\<exists>sz. \<not> alloc sz)" "grown n n' m'" by blast
        have "insert_new_node ?h (key, v) (my_mask m1) m1 = Some (seg, m2)"
          unfolding and_mask_mod by (rule m2(1))
        then have "lookup_try hash alloc op_insert key v (2 ^ j - 1) m = Some (Inr ((r, Some (key, v)), m'))"
          unfolding run search race(1) using False ins g(1) by simp
        moreover have "lookup_effect alloc op_insert key v (items n m) r (Some (key, v)) (items n' m')"
          unfolding lookup_effect_def using ins new g(3,4) m2(4) it by simp
        ultimately show ?thesis using g(2,5) by blast
      next
        case find: False
        then have "lookup_try hash alloc op_insert key v (2 ^ j - 1) m = Some (Inr ((Returned False, None), m1))"
          unfolding run search race(1) using False by simp
        moreover have "lookup_effect alloc op_insert key v (items n m) (Returned False) None (items n m1)"
          unfolding lookup_effect_def using find new it by simp
        moreover have "grown n n m1" by (simp add: grown_def)
        ultimately show ?thesis using ok1 by blast
      qed
    qed
  qed
qed

text \<open>The second attempt has the mask of the table, so an operation restarts at most once.\<close>

lemma lookup_ok:
  assumes ok: "hm_ok hash n m" and j: "1 \<le> j" "j \<le> n" and n: "n < 32"
  shows "\<exists>r a m' n'. lookup hash alloc op_insert key v (2 ^ j - 1) m = Some ((r, a), m') \<and>
    hm_ok hash n' m' \<and> lookup_effect alloc op_insert key v (items n m) r a (items n' m') \<and> grown n n' m'"
proof -
  let ?att = "lookup_try hash alloc op_insert key v"
  from lookup_try_ok [OF ok j n, of alloc op_insert key v]
  consider (restart) m1 where "?att (2 ^ j - 1) m = Some (Inl m1)" "hm_ok hash n m1" "items n m1 = items n m"
    | (result) r a m' n' where "?att (2 ^ j - 1) m = Some (Inr ((r, a), m'))" "hm_ok hash n' m'"
        "lookup_effect alloc op_insert key v (items n m) r a (items n' m')" "grown n n' m'"
    by blast
  then show ?thesis
  proof cases
    case restart
    have mask: "my_mask m1 = 2 ^ n - 1" using restart(2) by (simp add: hm_ok_def table_ok_def)
    from lookup_try_ok [OF restart(2) hm_okD(4) [OF restart(2)] order_refl n, of alloc op_insert key v]
    obtain r a m' n' where "?att (2 ^ n - 1) m1 = Some (Inr ((r, a), m'))" "hm_ok hash n' m'"
        "lookup_effect alloc op_insert key v (items n m1) r a (items n' m')" "grown n n' m'"
      by blast
    moreover from this(1) have "lookup hash alloc op_insert key v (2 ^ j - 1) m = Some ((r, a), m')"
      unfolding lookup_def restart(1) using mask by simp
    ultimately show ?thesis using restart(3) by auto
  next
    case result
    then have "lookup hash alloc op_insert key v (2 ^ j - 1) m = Some ((r, a), m')"
      unfolding lookup_def by simp
    with result show ?thesis by blast
  qed
qed

subsection \<open>The operations on the map\<close>

text \<open>A table in a consistent state, and a mask that it has or has had.\<close>

definition hm_valid :: "('k \<Rightarrow> nat) \<Rightarrow> ('k, 'v) hash_map \<Rightarrow> bool" where
  "hm_valid hash m \<longleftrightarrow> (\<exists>n. hm_ok hash n m)"

definition mask_of :: "('k, 'v) hash_map \<Rightarrow> nat \<Rightarrow> bool" where
  "mask_of m msk \<longleftrightarrow> (\<exists>j. 1 \<le> j \<and> msk = 2 ^ j - 1 \<and> msk \<le> my_mask m)"

lemma mask_of_le:
  assumes "hm_ok hash n m" "mask_of m msk"
  obtains j where "1 \<le> j" "j \<le> n" "msk = 2 ^ j - 1"
proof -
  from assms(2) obtain j where j: "1 \<le> j" "msk = 2 ^ j - 1" "msk \<le> my_mask m" by (auto simp: mask_of_def)
  have "1 \<le> (2 :: nat) ^ j" by (rule one_le_power) simp
  then have "(2 :: nat) ^ j \<le> 2 ^ n" using j(2,3) hm_okD(3) [OF assms(1)] by linarith
  then have "j \<le> n" by simp
  with j show ?thesis using that by blast
qed

lemma bits_of_mask:
  assumes "hm_ok hash n m" "my_mask m < 2 ^ 31"
  shows "n < 32"
proof -
  have "(2 :: nat) ^ n \<le> 2 ^ 31" using hm_okD(3) [OF assms(1)] assms(2) by linarith
  then have "n \<le> 31" by (subst (asm) power_increasing_iff) simp_all
  then show ?thesis by simp
qed

text \<open>
  A lookup for insertion or search finds the value of the key in the map, or reports that it has
  none, or inserts the new value and nothing else, whatever older mask it starts with; the
  failed allocation of a segment is reported after the insertion.
\<close>

lemma lookup_abs:
  assumes "hm_valid hash m" "mask_of m msk" "my_mask m < 2 ^ 31"
  shows "\<exists>r a m'. lookup hash alloc op_insert key v msk m = Some ((r, a), m') \<and> hm_valid hash m' \<and>
    (case hm_abs m key of
       Some v' \<Rightarrow> r = Returned (\<not> op_insert) \<and> a = Some (key, v') \<and> hm_abs m' = hm_abs m
     | None \<Rightarrow>
         if op_insert
         then (if \<forall>sz. alloc sz then r = Returned True else r \<in> {Returned True, Bad_alloc}) \<and>
           a = Some (key, v) \<and> hm_abs m' = (hm_abs m)(key \<mapsto> v)
         else r = Returned False \<and> a = None \<and> hm_abs m' = hm_abs m)"
proof -
  from assms(1) obtain n where ok: "hm_ok hash n m" by (auto simp: hm_valid_def)
  from mask_of_le [OF ok assms(2)] obtain j where j: "1 \<le> j" "j \<le> n" "msk = 2 ^ j - 1" .
  from lookup_ok [OF ok j(1,2) bits_of_mask [OF ok assms(3)], of alloc op_insert key v]
  obtain r a m' n' where run: "lookup hash alloc op_insert key v msk m = Some ((r, a), m')"
    and ok': "hm_ok hash n' m'" and eff: "lookup_effect alloc op_insert key v (items n m) r a (items n' m')"
    unfolding j(3) by blast
  have same: "hm_abs m' = hm_abs m" if "items n' m' = items n m"
    using ok ok' that by (rule hm_abs_same)
  show ?thesis
  proof (cases "hm_abs m key")
    case (Some v')
    then have "(key, v') \<in> items n m" using hm_abs_iff [OF ok] by blast
    with eff items_functional [OF ok] have "r = Returned (\<not> op_insert) \<and> a = Some (key, v') \<and> items n' m' = items n m"
      unfolding lookup_effect_def by blast
    with run ok' Some same show ?thesis by (auto simp: hm_valid_def)
  next
    case None
    then have none: "\<forall>v'. (key, v') \<notin> items n m" using hm_abs_none [OF ok] by blast
    show ?thesis
    proof (cases op_insert)
      case True
      with eff none have "(r = Returned True \<or> r = Bad_alloc \<and> (\<exists>sz. \<not> alloc sz)) \<and> a = Some (key, v) \<and>
          items n' m' = insert (key, v) (items n m)"
        unfolding lookup_effect_def by blast
      with run ok' None True hm_abs_insert [OF ok ok'] show ?thesis by (auto simp: hm_valid_def)
    next
      case False
      with eff none have "r = Returned False \<and> a = None \<and> items n' m' = items n m"
        unfolding lookup_effect_def by blast
      with run ok' None False same show ?thesis by (auto simp: hm_valid_def)
    qed
  qed
qed

subsection \<open>Removal\<close>

lemma remove_node_filter: "distinct (map fst ns) \<Longrightarrow> remove_node key ns = filter (\<lambda>x. fst x \<noteq> key) ns"
proof (induction ns)
  case (Cons x ns)
  have "filter (\<lambda>y. fst y \<noteq> key) ns = ns" if "fst x = key"
  proof -
    have "fst x \<notin> fst ` set ns" using Cons.prems by simp
    then show ?thesis unfolding filter_id_conv using that by (metis image_eqI)
  qed
  with Cons show ?case by simp
qed simp

lemma length_remove_node: "key \<in> fst ` set ns \<Longrightarrow> length (remove_node key ns) + 1 = length ns"
  by (induction ns) auto

lemma erase_try_ok:
  assumes ok: "hm_ok hash n m" and j: "1 \<le> j" "j \<le> n"
  shows "(\<exists>m1. erase_try hash key (2 ^ j - 1) m = Some (Inl m1) \<and> hm_ok hash n m1 \<and>
      items n m1 = items n m \<and> j \<noteq> n) \<or>
    (\<exists>r m'. erase_try hash key (2 ^ j - 1) m = Some (Inr (r, m')) \<and> hm_ok hash n m' \<and>
      (r \<longleftrightarrow> (\<exists>v. (key, v) \<in> items n m)) \<and> items n m' = {x \<in> items n m. fst x \<noteq> key})"
proof -
  let ?h = "hash key AND (2 ^ j - 1)" and ?b = "hash key mod 2 ^ j"
  from acquire_for [OF ok j, of "hash key"] obtain m1 where acq: "acquire_bucket hash ?h m = Some m1"
    and ok1: "hm_ok hash n m1" and r1: "rehashed m1 ?b" and it: "items n m1 = items n m"
    and ns: "Option.bind (node_list m1 ?h) chain_nodes = Some (nodes_at m1 ?b)"
    by blast
  have b: "?b < 2 ^ n" using j(2) by (rule mod_exp_less)
  have tab1: "table_ok n m1" using ok1 by (simp add: hm_ok_def)
  let ?ns = "nodes_at m1 ?b"
  have run: "erase_try hash key (2 ^ j - 1) m =
      (case search_bucket key ?ns of
         None \<Rightarrow>
           do { race \<leftarrow> check_mask_race (hash key) (2 ^ j - 1) m1;
                Some (if race then Inl m1 else Inr (False, m1)) }
       | Some nd \<Rightarrow>
           do { m \<leftarrow> set_node_list ?h (Chain (remove_node key ?ns)) m1;
                Some (Inr (True, m\<lparr>my_size := my_size m - 1\<rparr>)) })"
    unfolding erase_try_def Let_def acq ns Option.bind.simps ..
  show ?thesis
  proof (cases "map_of ?ns key")
    case None
    then have search: "search_bucket key ?ns = None" by (simp add: search_bucket_map_of)
    from check_mask_race_placed [OF ok1 j r1] obtain race where
      race: "check_mask_race (hash key) (2 ^ j - 1) m1 = Some race" "\<not> race \<longrightarrow> placed n m1 (hash key) ?b"
        "j = n \<longrightarrow> \<not> race" by blast
    show ?thesis
    proof (cases race)
      case True
      then have "erase_try hash key (2 ^ j - 1) m = Some (Inl m1)" unfolding run search race(1) by simp
      then show ?thesis using ok1 it race True by blast
    next
      case False
      then have p: "placed n m1 (hash key) ?b" using race by blast
      have new: "\<forall>v. (key, v) \<notin> items n m"
        using item_place [OF ok1 b p r1] None it by (metis map_of_eq_None_iff image_eqI fst_conv)
      then have "items n m1 = {x \<in> items n m. fst x \<noteq> key}" unfolding it by auto
      moreover have "erase_try hash key (2 ^ j - 1) m = Some (Inr (False, m1))"
        unfolding run search race(1) using False by simp
      ultimately show ?thesis using ok1 new by blast
    qed
  next
    case (Some v)
    have dist: "distinct (map fst ?ns)" and pl: "\<forall>x \<in> set ?ns. placed n m1 (hash (fst x)) ?b"
      using ok1 b by (simp_all add: hm_ok_def)
    have kv: "(key, v) \<in> set ?ns" using Some by (rule map_of_SomeD)
    let ?rs = "filter (\<lambda>x. fst x \<noteq> key) ?ns"
    define m2 where "m2 = put (bucket_addr ?b) (Chain ?rs) m1"
    define m' where "m' = m2\<lparr>my_size := my_size m2 - 1\<rparr>"
    have lists: "list_at m' = list_at (put (bucket_addr ?b) (Chain ?rs) m1)"
      by (simp add: m'_def m2_def list_at_def fun_eq_iff)
    have "set_node_list ?h (Chain ?rs) m1 = Some m2"
      unfolding and_mask_mod set_node_list_put m2_def get_bucket_addr [OF tab1 b] by simp
    then have "erase_try hash key (2 ^ j - 1) m = Some (Inr (True, m'))"
      unfolding run using Some by (simp add: search_bucket_map_of remove_node_filter [OF dist] m'_def)
    moreover have len: "length ?rs + 1 = length ?ns"
      using length_remove_node [of key ?ns] kv by (force simp: remove_node_filter [OF dist])
    have "length ?ns \<le> (\<Sum>i < 2 ^ n. length (nodes_at m1 i))"
      using b by (intro member_le_sum [where f = "\<lambda>i. length (nodes_at m1 i)"]) simp_all
    then have "length ?ns \<le> my_size m1" using ok1 by (simp add: hm_ok_def)
    then have "my_size m' + length ?ns = my_size m1 + length ?rs"
      using len by (simp add: m'_def m2_def)
    then have "hm_ok hash n m'"
      using pl dist tab1
      by (intro store_ok [OF ok1 b r1 _ _ _ lists]) (auto simp: m'_def m2_def table_ok_def distinct_map_filter)
    moreover have "items n m' = {x \<in> items n m. fst x \<noteq> key}"
    proof -
      have "fst x \<noteq> key" if x: "x \<in> set (nodes_at m1 i)" "i < 2 ^ n" "i \<noteq> ?b" for x i
      proof
        assume "fst x = key"
        then have "placed n m1 (hash key) i" using ok1 x unfolding hm_ok_def by blast
        moreover have "placed n m1 (hash key) ?b" using pl kv by force
        ultimately show False using placed_unique nodes_at_some [OF x(1)] r1 x(3) by metis
      qed
      then show ?thesis
        unfolding store_items [OF b lists] it [symmetric] items_split [OF b, of m1] by auto
    qed
    moreover have "(key, v) \<in> items n m" unfolding it [symmetric] items_split [OF b, of m1] using kv by blast
    ultimately show ?thesis by blast
  qed
qed

lemma erase_ok:
  assumes ok: "hm_ok hash n m" and j: "1 \<le> j" "j \<le> n"
  shows "\<exists>r m'. erase hash key (2 ^ j - 1) m = Some (r, m') \<and> hm_ok hash n m' \<and>
    (r \<longleftrightarrow> (\<exists>v. (key, v) \<in> items n m)) \<and> items n m' = {x \<in> items n m. fst x \<noteq> key}"
proof -
  from erase_try_ok [OF ok j, of key]
  consider (restart) m1 where "erase_try hash key (2 ^ j - 1) m = Some (Inl m1)" "hm_ok hash n m1" "items n m1 = items n m"
    | (result) r m' where "erase_try hash key (2 ^ j - 1) m = Some (Inr (r, m'))" "hm_ok hash n m'"
        "r \<longleftrightarrow> (\<exists>v. (key, v) \<in> items n m)" "items n m' = {x \<in> items n m. fst x \<noteq> key}"
    by blast
  then show ?thesis
  proof cases
    case restart
    have mask: "my_mask m1 = 2 ^ n - 1" using restart(2) by (simp add: hm_ok_def table_ok_def)
    from erase_try_ok [OF restart(2) hm_okD(4) [OF restart(2)] order_refl, of key]
    obtain r m' where "erase_try hash key (2 ^ n - 1) m1 = Some (Inr (r, m'))" "hm_ok hash n m'"
        "r \<longleftrightarrow> (\<exists>v. (key, v) \<in> items n m1)" "items n m' = {x \<in> items n m1. fst x \<noteq> key}"
      by blast
    moreover from this(1) have "erase hash key (2 ^ j - 1) m = Some (r, m')"
      unfolding erase_def restart(1) using mask by simp
    ultimately show ?thesis using restart(3) by auto
  next
    case result
    then have "erase hash key (2 ^ j - 1) m = Some (r, m')" unfolding erase_def by simp
    with result show ?thesis by blast
  qed
qed

text \<open>Removal takes the key out of the map and tells whether it was there.\<close>

lemma erase_abs:
  assumes "hm_valid hash m" "mask_of m msk"
  shows "\<exists>m'. erase hash key msk m = Some (hm_abs m key \<noteq> None, m') \<and> hm_valid hash m' \<and>
    hm_abs m' = (hm_abs m)(key := None)"
proof -
  from assms(1) obtain n where ok: "hm_ok hash n m" by (auto simp: hm_valid_def)
  from mask_of_le [OF ok assms(2)] obtain j where j: "1 \<le> j" "j \<le> n" "msk = 2 ^ j - 1" .
  from erase_ok [OF ok j(1,2), of key] obtain r m' where
    r: "erase hash key msk m = Some (r, m')" "hm_ok hash n m'" "r \<longleftrightarrow> (\<exists>v. (key, v) \<in> items n m)"
      "items n m' = {x \<in> items n m. fst x \<noteq> key}" unfolding j(3) by blast
  moreover have "r \<longleftrightarrow> hm_abs m key \<noteq> None" using r(3) hm_abs_none [OF ok, of key] by auto
  ultimately show ?thesis using hm_abs_delete [OF ok r(2,4)] by (auto simp: hm_valid_def)
qed

subsection \<open>The serial search\<close>

lemma rehashed_bucket_root:
  assumes ok: "hm_ok hash n m" and j: "1 \<le> j" "j \<le> n"
    and up: "\<forall>j'. j \<le> j' \<and> j' \<le> n \<longrightarrow> c mod 2 ^ j' = c mod 2 ^ j \<or> \<not> rehashed m (c mod 2 ^ j')"
  shows "\<exists>h. rehashed_bucket (c mod 2 ^ j) m = Some h \<and> h < 2 ^ n \<and> rehashed m h \<and> placed n m c h"
  using j up
proof (induction j rule: less_induct)
  case (less j)
  let ?h = "c mod 2 ^ j"
  have h: "?h < 2 ^ n" using less.prems(2) by (rule mod_exp_less)
  have nl: "node_list m ?h = Some (list_at m ?h)" using ok h by (intro node_list_at) (simp_all add: hm_ok_def)
  show ?case
  proof (cases "rehashed m ?h")
    case True
    then obtain ns where "list_at m ?h = Chain ns" by (cases "list_at m ?h") (auto simp: rehashed_def)
    then have "rehashed_bucket ?h m = Some ?h"
      using nl by (subst rehashed_bucket.simps) simp
    moreover have "placed n m c ?h" using less.prems unfolding placed_def by blast
    ultimately show ?thesis using True h by blast
  next
    case False
    then have big: "1 < ?h" using ok by (cases "?h = 0"; cases "?h = 1") (auto simp: hm_ok_def)
    define l where "l = tbb_log2 ?h"
    have l: "l < j" "c mod 2 ^ Suc l = ?h" "c mod 2 ^ l = parent ?h"
      using path_reaches [of c j ?h] big by (simp_all add: l_def)
    have "2 ^ l \<le> ?h" "?h < 2 ^ Suc l" using big tbb_log2_bounds [of ?h] by (simp_all add: l_def)
    then have l1: "1 \<le> l" using big by (cases l) auto
    have "parent_mask ?h = Some (2 ^ l - 1)"
      using hm_okD(2) [OF ok] l(1) less.prems(2) by (simp add: parent_mask_def l_def)
    moreover have "?h AND (2 ^ l - 1) = c mod 2 ^ l" using l by (simp only: and_mask_mod parent_def l_def)
    ultimately have "rehashed_bucket ?h m = rehashed_bucket (c mod 2 ^ l) m"
      using False nl big by (subst rehashed_bucket.simps) (simp add: rehashed_def)
    moreover have "c mod 2 ^ j' = c mod 2 ^ l \<or> \<not> rehashed m (c mod 2 ^ j')" if j': "l \<le> j'" "j' \<le> n" for j'
    proof (cases "l = j'")
      case neq: False
      then have "Suc l \<le> j'" using j' by simp
      then have "\<not> rehashed m (c mod 2 ^ j')"
        using rehashed_closed [OF ok _ _ j'(2), of "Suc l" c] False l(2) by auto
      then show ?thesis ..
    qed simp
    ultimately show ?thesis using less.IH [OF l(1) l1] l(1) less.prems(2) by auto
  qed
qed

lemma equal_range_abs:
  assumes ok: "hm_ok hash n m"
  shows "equal_range hash key m = Some (map_option (Pair key) (hm_abs m key))"
proof -
  have n: "1 \<le> n" "my_mask m = 2 ^ n - 1" using hm_okD(3,4) [OF ok] by simp_all
  have "\<forall>j'. n \<le> j' \<and> j' \<le> n \<longrightarrow> hash key mod 2 ^ j' = hash key mod 2 ^ n \<or> \<not> rehashed m (hash key mod 2 ^ j')"
    by (metis le_antisym)
  from rehashed_bucket_root [OF ok n(1) order_refl this] obtain h where
    h: "rehashed_bucket (hash key mod 2 ^ n) m = Some h" "h < 2 ^ n" "rehashed m h" "placed n m (hash key) h"
    by blast
  have ns: "Option.bind (node_list m h) chain_nodes = Some (nodes_at m h)"
    using node_list_at [OF hm_okD(1) [OF ok] h(2)] h(3)
    by (auto simp: chain_nodes_def nodes_at_def rehashed_def split: chain.splits)
  have er: "equal_range hash key m = Some (map_option (Pair key) (map_of (nodes_at m h) key))"
    unfolding equal_range_def n(2) and_mask_mod h(1) ns Option.bind.simps search_bucket_map_of ..
  have "map_of (nodes_at m h) key = hm_abs m key"
  proof (rule option.expand)
    show "(map_of (nodes_at m h) key = None) = (hm_abs m key = None)"
      using hm_abs_none [OF ok, of key] item_place [OF ok h(2,4,3)] by (auto simp: map_of_eq_None_iff) force
    assume "map_of (nodes_at m h) key \<noteq> None"
    then show "the (map_of (nodes_at m h) key) = the (hm_abs m key)"
      using hm_abs_iff [OF ok, of key] item_place [OF ok h(2,4,3)] by (metis map_of_SomeD not_None_eq option.sel)
  qed
  with er show ?thesis by simp
qed

text \<open>
  C36. The serial search, which leaves marked buckets alone, finds what the map has, so it agrees
  with the concurrent lookup, which rehashes them.
\<close>

theorem equal_range_lookup:
  assumes "hm_valid hash m" "my_mask m < 2 ^ 31"
  shows "equal_range hash key m =
    map_option (snd \<circ> fst) (lookup hash alloc False key v (my_mask m) m)"
proof -
  from assms(1) obtain n where ok: "hm_ok hash n m" by (auto simp: hm_valid_def)
  have n: "1 \<le> n" "my_mask m = 2 ^ n - 1" using hm_okD(3,4) [OF ok] by simp_all
  from lookup_ok [OF ok n(1) order_refl bits_of_mask [OF ok assms(2)], of alloc False key v]
  obtain r a m' n' where "lookup hash alloc False key v (my_mask m) m = Some ((r, a), m')"
    "lookup_effect alloc False key v (items n m) r a (items n' m')"
    unfolding n(2) by blast
  moreover from this(2) have "(\<exists>v'. hm_abs m key = Some v' \<and> a = Some (key, v')) \<or> hm_abs m key = None \<and> a = None"
    unfolding lookup_effect_def hm_abs_iff [OF ok] hm_abs_none [OF ok] by blast
  then have "a = map_option (Pair key) (hm_abs m key)" by auto
  ultimately show ?thesis using equal_range_abs [OF ok] by simp
qed

lemma mask_of_self: "hm_valid hash m \<Longrightarrow> mask_of m (my_mask m)"
proof -
  assume "hm_valid hash m"
  then obtain n where "table_ok n m" by (auto simp: hm_valid_def hm_ok_def)
  then have "1 \<le> n \<and> my_mask m = 2 ^ n - 1" by (auto simp: table_ok_def)
  then show ?thesis unfolding mask_of_def by blast
qed

subsection \<open>The operations of the class\<close>

text \<open>
  C26. On a consistent table \<^verbatim>\<open>find\<close> and \<^verbatim>\<open>count\<close> return what the map has and leave it alone,
  \<^verbatim>\<open>insert\<close> extends the map by a key it does not have and otherwise points to the old item, and
  \<^verbatim>\<open>erase\<close> removes the key; the table stays consistent.
\<close>

theorem operations_refine_map:
  assumes "hm_valid hash m" "my_mask m < 2 ^ 31" "\<forall>sz. alloc sz"
  shows "(\<exists>m'. hm_find hash d key m = Some ((Returned (hm_abs m key \<noteq> None), map_option (Pair key) (hm_abs m key)), m') \<and>
      hm_valid hash m' \<and> hm_abs m' = hm_abs m) \<and>
    (\<exists>m'. hm_count hash d key m = Some (if hm_abs m key = None then 0 else 1, m') \<and>
      hm_valid hash m' \<and> hm_abs m' = hm_abs m) \<and>
    (\<exists>m'. hm_insert hash alloc (key, v) m =
        Some ((Returned (hm_abs m key = None),
               Some (key, case hm_abs m key of None \<Rightarrow> v | Some v' \<Rightarrow> v')), m') \<and>
      hm_valid hash m' \<and> hm_abs m' = (if hm_abs m key = None then (hm_abs m)(key \<mapsto> v) else hm_abs m)) \<and>
    hm_insert_key hash alloc v key m = hm_insert hash alloc (key, v) m \<and>
    (\<exists>m'. hm_erase hash key m = Some (hm_abs m key \<noteq> None, m') \<and>
      hm_valid hash m' \<and> hm_abs m' = (hm_abs m)(key := None))"
proof -
  note mask = mask_of_self [OF assms(1)]
  have find: "\<exists>m'. hm_find hash d key m =
      Some ((Returned (hm_abs m key \<noteq> None), map_option (Pair key) (hm_abs m key)), m') \<and>
      hm_valid hash m' \<and> hm_abs m' = hm_abs m"
    using lookup_abs [OF assms(1) mask assms(2), of "\<lambda>_. True" False key d]
    by (cases "hm_abs m key") (auto simp: hm_find_def)
  then obtain m' where m': "hm_find hash d key m =
      Some ((Returned (hm_abs m key \<noteq> None), map_option (Pair key) (hm_abs m key)), m')"
      "hm_valid hash m'" "hm_abs m' = hm_abs m" by blast
  then have "hm_count hash d key m = Some (if hm_abs m key = None then 0 else 1, m')"
    by (simp add: hm_count_def)
  with m' have "\<exists>m'. hm_count hash d key m = Some (if hm_abs m key = None then 0 else 1, m') \<and>
      hm_valid hash m' \<and> hm_abs m' = hm_abs m"
    by blast
  moreover have "\<exists>m'. hm_insert hash alloc (key, v) m =
        Some ((Returned (hm_abs m key = None),
               Some (key, case hm_abs m key of None \<Rightarrow> v | Some v' \<Rightarrow> v')), m') \<and>
      hm_valid hash m' \<and> hm_abs m' = (if hm_abs m key = None then (hm_abs m)(key \<mapsto> v) else hm_abs m)"
    using lookup_abs [OF assms(1) mask assms(2), of alloc True key v] assms(3)
    by (cases "hm_abs m key") (auto simp: hm_insert_def)
  moreover have "hm_insert_key hash alloc v key m = hm_insert hash alloc (key, v) m"
    by (simp add: hm_insert_key_def hm_insert_def)
  moreover have "\<exists>m'. hm_erase hash key m = Some (hm_abs m key \<noteq> None, m') \<and>
      hm_valid hash m' \<and> hm_abs m' = (hm_abs m)(key := None)"
    using erase_abs [OF assms(1) mask, of key] by (simp add: hm_erase_def)
  ultimately show ?thesis using find by blast
qed

text \<open>
  C28. A search or removal that starts with the mask the table had before it grew returns what it
  returns with the mask of now, and leaves the same map.
\<close>

theorem old_mask_equivalent:
  assumes "hm_valid hash m" "mask_of m msk" "my_mask m < 2 ^ 31"
  shows "map_option (\<lambda>(r, m'). (r, hm_abs m')) (lookup hash alloc False key v msk m) =
      map_option (\<lambda>(r, m'). (r, hm_abs m')) (lookup hash alloc False key v (my_mask m) m) \<and>
    map_option (\<lambda>(r, m'). (r, hm_abs m')) (erase hash key msk m) =
      map_option (\<lambda>(r, m'). (r, hm_abs m')) (erase hash key (my_mask m) m)"
  using lookup_abs [OF assms, of alloc False key v]
    lookup_abs [OF assms(1) mask_of_self [OF assms(1)] assms(3), of alloc False key v]
    erase_abs [OF assms(1,2), of key] erase_abs [OF assms(1) mask_of_self [OF assms(1)], of key]
  by (cases "hm_abs m key") auto

subsection \<open>Example tables\<close>

lemma base_fields [simp]:
  "list_at hash_map_base i = Chain []" "my_size hash_map_base = 0" "my_mask hash_map_base = 1"
  by (simp_all add: list_at_def hash_map_base_def embedded_buckets_def embedded_block_def)

lemma nodes_at_base [simp]: "nodes_at hash_map_base i = []"
  by (simp add: nodes_at_def)

lemma hm_ok_base: "hm_ok hash 1 hash_map_base"
  using table_ok_base by (simp add: hm_ok_def rehashed_def)

lemma hm_valid_base: "hm_valid hash hash_map_base"
  unfolding hm_valid_def using hm_ok_base by blast

lemma hm_abs_base: "hm_abs hash_map_base = Map.empty"
  by (simp add: hm_abs_def contents_def)

text \<open>The table after the insertion of a first item, which makes it grow to 256 buckets.\<close>

definition sample_table :: "(nat, nat) hash_map" where
  "sample_table = snd (the (lookup id (\<lambda>_. True) True 5 7 1 hash_map_base))"

lemma sample_mask: "my_mask sample_table = 255"
  by code_simp

lemma sample_valid: "hm_valid id sample_table" "hm_abs sample_table = [5 \<mapsto> 7]"
proof -
  have "hm_ok id 1 (hash_map_base :: (nat, nat) hash_map)" by (rule hm_ok_base)
  from lookup_ok [OF this order_refl order_refl, of "\<lambda>_. True" True 5 7] obtain r a m' n' where
    run: "lookup id (\<lambda>_. True) True 5 7 1 hash_map_base = Some ((r, a), m')" and ok: "hm_ok id n' m'"
    and eff: "lookup_effect (\<lambda>_. True) True 5 7 (items 1 (hash_map_base :: (nat, nat) hash_map)) r a (items n' m')"
    by auto
  have m': "m' = sample_table" using run by (simp add: sample_table_def)
  have "items 1 (hash_map_base :: (nat, nat) hash_map) = {}"
    by (simp add: items_def)
  with eff have "items n' m' = {(5, 7)}" unfolding lookup_effect_def by auto
  then have "hm_abs m' k = Some v \<longleftrightarrow> k = 5 \<and> v = 7" for k v using hm_abs_iff [OF ok] by simp
  then have "hm_abs m' k = [5 \<mapsto> 7] k" for k by (cases "k = 5") (auto, metis not_Some_eq)
  then show "hm_abs sample_table = [5 \<mapsto> 7]" unfolding m' [symmetric] by (rule ext)
  show "hm_valid id sample_table" using ok unfolding m' [symmetric] hm_valid_def by blast
qed

lemma sample_old_mask: "mask_of sample_table 1"
  unfolding mask_of_def sample_mask by (intro exI [of _ 1]) simp

theorem equal_range_lookup_witness:
  "equal_range id 5 sample_table =
     map_option (snd \<circ> fst) (lookup id (\<lambda>_. True) False 5 0 (my_mask sample_table) sample_table)"
  using equal_range_lookup [OF sample_valid(1)] by (simp add: sample_mask)

theorem operations_refine_map_witness:
  "(\<exists>m'. hm_find id 0 5 sample_table = Some ((Returned True, Some (5, 7)), m') \<and> hm_abs m' = [5 \<mapsto> 7]) \<and>
   (\<exists>m'. hm_insert id (\<lambda>_. True) (5, 9) sample_table = Some ((Returned False, Some (5, 7)), m') \<and> hm_abs m' = [5 \<mapsto> 7]) \<and>
   (\<exists>m'. hm_erase id 5 sample_table = Some (True, m') \<and> hm_abs m' = Map.empty)"
  using operations_refine_map [OF sample_valid(1), of "\<lambda>_. True" 0 5 9]
  by (simp add: sample_mask sample_valid(2)) blast

theorem old_mask_equivalent_witness:
  "mask_of sample_table 1 \<and>
   map_option (\<lambda>(r, m'). (r, hm_abs m')) (erase id 5 1 sample_table) =
     map_option (\<lambda>(r, m'). (r, hm_abs m')) (erase id 5 (my_mask sample_table) sample_table)"
  using old_mask_equivalent [OF sample_valid(1) sample_old_mask, of "\<lambda>_. True" 5 0] sample_old_mask
  by (simp add: sample_mask)

subsection \<open>Two limits\<close>

text \<open>
  The documentation of the class says that an exception during \<^verbatim>\<open>insert\<close> has no effect; when the
  allocation of the segment to grow into fails, the item has been inserted.
\<close>

theorem bad_alloc_has_inserted:
  "\<exists>m'. lookup id (\<lambda>_. False) True 5 (7 :: nat) 1 hash_map_base = Some ((Bad_alloc, Some (5, 7)), m') \<and>
     equal_range id 5 m' = Some (Some (5, 7)) \<and> my_size m' = 1"
proof -
  have "case lookup id (\<lambda>_. False) True 5 (7 :: nat) 1 hash_map_base of
      Some ((Bad_alloc, Some n), m') \<Rightarrow> n = (5, 7) \<and> equal_range id 5 m' = Some (Some (5, 7)) \<and> my_size m' = 1
    | _ \<Rightarrow> False"
    by code_simp
  then show ?thesis by (auto split: option.splits prod.splits outcome.splits)
qed

text \<open>The mask of the parent is computed in 32 bits, so higher buckets cannot be rehashed.\<close>

theorem rehash_bucket_large:
  assumes "2 ^ 32 \<le> h"
  shows "rehash_bucket hash h m = None"
proof -
  have "32 \<le> tbb_log2 h" using assms by (rule tbb_log2_ge)
  then show ?thesis
    unfolding rehash_bucket.simps [of hash h m]
    by (cases "set_node_list h (Chain []) m") (simp_all add: parent_mask_def)
qed

end
