(* ===== verification/Hash_Iterator.thy ===== *)
theory Hash_Iterator
  imports Hash_Map_Correct
begin

text \<open>
  The iterators of \<^verbatim>\<open>tbb::concurrent_hash_map\<close> (\<^verbatim>\<open>hash_map_iterator\<close> in
  \<^verbatim>\<open>src/src/tbb/include/tbb/concurrent_hash_map.h\<close>): from one bucket to the next they increment
  the pointer inside a segment and ask the table for the first bucket of a segment.
\<close>

subsection \<open>Iterators\<close>

text \<open>
  The index, and the bucket with the rest of its chain from the current node on; at the end
  there is neither.
\<close>

type_synonym ('k, 'v) iterator = "nat \<times> ((nat \<times> int) \<times> ('k \<times> 'v) list) option"

function advance_to_next_bucket :: "('k, 'v) hash_map \<Rightarrow> nat \<times> int \<Rightarrow> nat \<Rightarrow> ('k, 'v) iterator option" where
  "advance_to_next_bucket m b k =
     (if k \<le> my_mask m
      then do { b \<leftarrow> if of_nat k AND (of_nat k - 2) \<noteq> (0 :: u64) then Some (fst b, snd b + 1) else get_bucket m k;
                case node_lists m b of
                  Chain (x # xs) \<Rightarrow> Some (k, Some (b, x # xs))
                | _ \<Rightarrow> advance_to_next_bucket m b (k + 1) }
      else Some (k, None))"
  by pat_completeness auto
termination
  by (relation "measure (\<lambda>(m, b, k). my_mask m + 1 - k)") auto

declare advance_to_next_bucket.simps [simp del]

definition iterator_at :: "('k, 'v) hash_map \<Rightarrow> nat \<Rightarrow> nat \<times> int \<Rightarrow> ('k, 'v) iterator option" where
  "iterator_at m index b =
     (case node_lists m b of
        Chain (x # xs) \<Rightarrow> Some (index, Some (b, x # xs))
      | _ \<Rightarrow> advance_to_next_bucket m b (index + 1))"

definition hm_begin :: "('k, 'v) hash_map \<Rightarrow> ('k, 'v) iterator option" where
  "hm_begin m = iterator_at m 0 (0, 0)"

definition increment :: "('k, 'v) hash_map \<Rightarrow> ('k, 'v) iterator \<Rightarrow> ('k, 'v) iterator option" where
  "increment m it =
     (case it of
        (index, Some (b, x # y # xs)) \<Rightarrow> Some (index, Some (b, y # xs))
      | (index, Some (b, _)) \<Rightarrow> advance_to_next_bucket m b (index + 1)
      | (index, None) \<Rightarrow> None)"

text \<open>The nodes from an iterator to the end, in at most \<open>f\<close> increments.\<close>

fun traverse :: "nat \<Rightarrow> ('k, 'v) hash_map \<Rightarrow> ('k, 'v) iterator \<Rightarrow> ('k \<times> 'v) list option" where
  "traverse 0 m it = (case snd it of None \<Rightarrow> Some [] | Some _ \<Rightarrow> None)"
| "traverse (Suc f) m it =
     (case snd it of
        None \<Rightarrow> Some []
      | Some (b, []) \<Rightarrow> None
      | Some (b, x # xs) \<Rightarrow> do { it \<leftarrow> increment m it; map_option ((#) x) (traverse f m it) })"

subsection \<open>The next bucket\<close>

lemma first_of_segment_nat: "k AND (k - 2) = 0 \<longleftrightarrow> k = 2 ^ tbb_log2 k" if "2 \<le> k" for k :: nat
proof -
  define j where "j = tbb_log2 k"
  have k: "2 ^ j \<le> k" "k < 2 ^ Suc j" using that tbb_log2_bounds [of k] by (simp_all add: j_def)
  have j: "1 \<le> j" using k that by (cases j) auto
  have bit_top: "bit x j" if "2 ^ j \<le> x" "x < 2 ^ Suc j" for x :: nat
  proof -
    have "x div 2 ^ j = 1" using that by (intro div_nat_eqI) simp_all
    then show ?thesis by (simp add: bit_iff_odd)
  qed
  show ?thesis
  proof
    assume zero: "k AND (k - 2) = 0"
    show "k = 2 ^ tbb_log2 k"
    proof (rule ccontr)
      assume "k \<noteq> 2 ^ tbb_log2 k"
      then consider "k = 2 ^ j + 1" | "2 ^ j + 2 \<le> k" using k by (fastforce simp: j_def)
      then show False
      proof cases
        case 1
        then have "odd k" "odd (k - 2)" using j by auto
        then have "bit (k AND (k - 2)) 0" by (subst bit_and_iff) (simp only: bit_0, simp)
        with zero show False by simp
      next
        case 2
        then have "bit k j" "bit (k - 2) j" using k by (auto intro!: bit_top)
        then have "bit (k AND (k - 2)) j" by (simp add: bit_and_iff)
        with zero show False by simp
      qed
    qed
  next
    assume "k = 2 ^ tbb_log2 k"
    then have k_eq: "k = 2 ^ j" by (simp add: j_def)
    have "\<not> bit (k - 2) j"
      using k_eq that by (simp add: bit_iff_odd)
    then show "k AND (k - 2) = 0"
      unfolding k_eq by (intro bit_eqI) (auto simp: bit_and_iff bit_exp_iff)
  qed
qed

lemma first_of_segment:
  assumes "0 < k" "k < 2 ^ 64"
  shows "of_nat k AND (of_nat k - 2) = (0 :: u64) \<longleftrightarrow> 2 \<le> k \<and> k = 2 ^ tbb_log2 k"
proof (cases "k = 1")
  case True
  then show ?thesis by simp
next
  case False
  then have k: "2 \<le> k" using assms by simp
  have "of_nat k - 2 = (of_nat (k - 2) :: u64)" using k by (simp add: of_nat_diff)
  then have "of_nat k AND (of_nat k - 2) = (of_nat (k AND (k - 2)) :: u64)"
    by (simp only: of_nat_and_eq)
  moreover have "take_bit 64 (k AND (k - 2)) = k AND (k - 2)"
    using assms(2) by (simp add: take_bit_nat_eq_self)
  then have "k AND (k - 2) < 2 ^ 64" by (simp only: take_bit_nat_eq_self_iff)
  then have "(of_nat (k AND (k - 2)) = (0 :: u64)) \<longleftrightarrow> k AND (k - 2) = 0"
    using unat_of_nat_small [of "k AND (k - 2)", where 'a = 64] by auto
  ultimately show ?thesis using first_of_segment_nat [OF k] k by simp
qed

text \<open>Inside a segment the next bucket is the next one in memory.\<close>

theorem next_bucket_address:
  assumes "0 < k" "k < 2 ^ 64"
  shows "of_nat k AND (of_nat k - 2) \<noteq> (0 :: u64) \<Longrightarrow>
    bucket_addr k = (fst (bucket_addr (k - 1)), snd (bucket_addr (k - 1)) + 1)"
proof -
  assume "of_nat k AND (of_nat k - 2) \<noteq> (0 :: u64)"
  then have inside: "k < 2 \<or> k \<noteq> 2 ^ tbb_log2 k" using first_of_segment [OF assms] by auto
  show ?thesis
  proof (cases "k < 2")
    case True
    with assms show ?thesis by (simp add: bucket_addr_def)
  next
    case False
    have "2 ^ tbb_log2 k \<le> k" "k < 2 ^ Suc (tbb_log2 k)" using assms tbb_log2_bounds by auto
    moreover have "k \<noteq> 2 ^ tbb_log2 k" using inside False by blast
    ultimately have log: "tbb_log2 (k - 1) = tbb_log2 k" by (intro tbb_log2_unique) auto
    have "k \<noteq> 2"
    proof
      assume "k = 2"
      moreover have "tbb_log2 2 = 1" by (rule tbb_log2_unique) simp_all
      ultimately show False using inside by simp
    qed
    moreover have "k \<noteq> 2 ^ 8"
    proof
      assume "k = 2 ^ 8"
      moreover have "tbb_log2 (2 ^ 8) = 8" by (rule tbb_log2_unique) simp_all
      ultimately show False using inside by simp
    qed
    ultimately show ?thesis
      using False log by (auto simp: bucket_addr_def of_nat_diff)
  qed
qed

theorem next_bucket_address_witness:
  "bucket_addr 300 = (fst (bucket_addr 299), snd (bucket_addr 299) + 1)"
proof -
  have "of_nat 300 AND (of_nat 300 - 2) \<noteq> (0 :: u64)" by code_simp
  from next_bucket_address [OF _ _ this] show ?thesis by simp
qed

lemma advance_step:
  assumes tab: "table_ok n m" and k: "0 < k" "k \<le> 2 ^ n" and b: "b = bucket_addr (k - 1)"
  shows "\<exists>k' r. advance_to_next_bucket m b k = Some (k', r) \<and> k \<le> k' \<and>
    (case r of
       None \<Rightarrow> k' = 2 ^ n \<and> (\<forall>i. k \<le> i \<and> i < 2 ^ n \<longrightarrow> nodes_at m i = [])
     | Some (b', ns) \<Rightarrow> k' < 2 ^ n \<and> b' = bucket_addr k' \<and> ns = nodes_at m k' \<and> ns \<noteq> [] \<and>
         (\<forall>i. k \<le> i \<and> i < k' \<longrightarrow> nodes_at m i = []))"
  using k b
proof (induction "2 ^ n - k" arbitrary: k b)
  case 0
  then have "k = 2 ^ n" by simp
  moreover have "my_mask m < 2 ^ n" using tab by (simp add: table_ok_def)
  ultimately have "advance_to_next_bucket m b k = Some (k, None)"
    by (subst advance_to_next_bucket.simps) simp
  then show ?case using \<open>k = 2 ^ n\<close> by auto
next
  case (Suc d)
  then have lt: "k < 2 ^ n" by simp
  have n: "n < 64" "my_mask m = 2 ^ n - 1" using tab by (simp_all add: table_ok_def)
  then have "k < 2 ^ 64" using lt by (meson less_le_trans less_imp_le one_le_numeral power_increasing)
  then have "(if of_nat k AND (of_nat k - 2) \<noteq> (0 :: u64) then Some (fst b, snd b + 1) else get_bucket m k) =
      Some (bucket_addr k)"
    using next_bucket_address [OF Suc.prems(1), of] get_bucket_addr [OF tab lt] Suc.prems(3) by simp
  moreover have "k \<le> my_mask m" using lt n by simp
  ultimately have step: "advance_to_next_bucket m b k =
      (case list_at m k of
         Chain (x # xs) \<Rightarrow> Some (k, Some (bucket_addr k, x # xs))
       | _ \<Rightarrow> advance_to_next_bucket m (bucket_addr k) (k + 1))"
    by (subst advance_to_next_bucket.simps) (simp add: list_at_def)
  show ?case
  proof (cases "nodes_at m k")
    case Nil
    then have rec: "advance_to_next_bucket m b k = advance_to_next_bucket m (bucket_addr k) (k + 1)"
      unfolding step by (auto simp: nodes_at_def split: chain.splits list.splits)
    have "d = 2 ^ n - (k + 1)" using Suc.hyps(2) by simp
    from Suc.hyps(1) [OF this] lt obtain k' r where
      ih: "advance_to_next_bucket m (bucket_addr k) (k + 1) = Some (k', r)" "k + 1 \<le> k'"
        "case r of
           None \<Rightarrow> k' = 2 ^ n \<and> (\<forall>i. k + 1 \<le> i \<and> i < 2 ^ n \<longrightarrow> nodes_at m i = [])
         | Some (b', ns) \<Rightarrow> k' < 2 ^ n \<and> b' = bucket_addr k' \<and> ns = nodes_at m k' \<and> ns \<noteq> [] \<and>
             (\<forall>i. k + 1 \<le> i \<and> i < k' \<longrightarrow> nodes_at m i = [])"
      by auto
    have "nodes_at m i = []" if "k + 1 \<le> i \<Longrightarrow> nodes_at m i = []" "k \<le> i" for i
      using that Nil by (cases "i = k") auto
    with ih rec show ?thesis by (intro exI [of _ k'] exI [of _ r]) (auto split: option.splits)
  next
    case (Cons x xs)
    then have "advance_to_next_bucket m b k = Some (k, Some (bucket_addr k, x # xs))"
      unfolding step by (auto simp: nodes_at_def split: chain.splits)
    with Cons lt show ?thesis by auto
  qed
qed

subsection \<open>Traversals\<close>

definition nodes_from :: "nat \<Rightarrow> ('k, 'v) hash_map \<Rightarrow> nat \<Rightarrow> ('k \<times> 'v) list" where
  "nodes_from n m k = concat (map (nodes_at m) [k..<2 ^ n])"

definition iterator_ok :: "nat \<Rightarrow> ('k, 'v) hash_map \<Rightarrow> ('k, 'v) iterator \<Rightarrow> bool" where
  "iterator_ok n m it \<longleftrightarrow>
     (case it of (k, None) \<Rightarrow> True | (k, Some (b, ns)) \<Rightarrow> k < 2 ^ n \<and> b = bucket_addr k \<and> ns \<noteq> [])"

definition remaining :: "nat \<Rightarrow> ('k, 'v) hash_map \<Rightarrow> ('k, 'v) iterator \<Rightarrow> ('k \<times> 'v) list" where
  "remaining n m it = (case it of (k, None) \<Rightarrow> [] | (k, Some (b, ns)) \<Rightarrow> ns @ nodes_from n m (k + 1))"

lemma nodes_from_step: "k < 2 ^ n \<Longrightarrow> nodes_from n m k = nodes_at m k @ nodes_from n m (k + 1)"
  by (simp add: nodes_from_def upt_conv_Cons)

lemma nodes_from_empty:
  "\<forall>i. k \<le> i \<and> i < 2 ^ n \<longrightarrow> nodes_at m i = [] \<Longrightarrow> nodes_from n m k = []"
  by (simp add: nodes_from_def)

lemma nodes_from_skip:
  assumes "k \<le> k'" "k' \<le> 2 ^ n" "\<forall>i. k \<le> i \<and> i < k' \<longrightarrow> nodes_at m i = []"
  shows "nodes_from n m k = nodes_from n m k'"
proof -
  have "[k..<2 ^ n] = [k..<k'] @ [k'..<2 ^ n]"
    using assms(1,2) by (metis le_add_diff_inverse upt_add_eq_append)
  moreover have "concat (map (nodes_at m) [k..<k']) = []" using assms(3) by simp
  ultimately show ?thesis unfolding nodes_from_def by (simp del: concat_eq_Nil_conv)
qed

lemma advance_remaining:
  assumes "table_ok n m" "0 < k" "k \<le> 2 ^ n"
  shows "\<exists>it. advance_to_next_bucket m (bucket_addr (k - 1)) k = Some it \<and> iterator_ok n m it \<and>
    remaining n m it = nodes_from n m k"
proof -
  from advance_step [OF assms refl] obtain k' r where
    r: "advance_to_next_bucket m (bucket_addr (k - 1)) k = Some (k', r)" "k \<le> k'"
      "case r of
         None \<Rightarrow> k' = 2 ^ n \<and> (\<forall>i. k \<le> i \<and> i < 2 ^ n \<longrightarrow> nodes_at m i = [])
       | Some (b', ns) \<Rightarrow> k' < 2 ^ n \<and> b' = bucket_addr k' \<and> ns = nodes_at m k' \<and> ns \<noteq> [] \<and>
           (\<forall>i. k \<le> i \<and> i < k' \<longrightarrow> nodes_at m i = [])"
    by blast
  show ?thesis
  proof (cases r)
    case None
    with r show ?thesis by (simp add: iterator_ok_def remaining_def nodes_from_empty)
  next
    case (Some bn)
    obtain b' ns where bn: "bn = (b', ns)" by (cases bn)
    with r(3) Some have f: "k' < 2 ^ n" "b' = bucket_addr k'" "ns = nodes_at m k'" "ns \<noteq> []"
      "\<forall>i. k \<le> i \<and> i < k' \<longrightarrow> nodes_at m i = []" by auto
    have "nodes_from n m k = nodes_at m k' @ nodes_from n m (k' + 1)"
      using nodes_from_skip [OF r(2) _ f(5)] f(1) by (simp add: nodes_from_step)
    with r(1) f Some bn show ?thesis by (simp add: iterator_ok_def remaining_def)
  qed
qed

lemma increment_remaining:
  assumes "table_ok n m" "iterator_ok n m it" "it = (k, Some (b, x # xs))"
  shows "\<exists>it'. increment m it = Some it' \<and> iterator_ok n m it' \<and> remaining n m it = x # remaining n m it'"
proof (cases xs)
  case Nil
  have "k < 2 ^ n" "b = bucket_addr k" using assms(2,3) by (simp_all add: iterator_ok_def)
  with advance_remaining [OF assms(1), of "k + 1"] show ?thesis
    using Nil assms(3) by (auto simp: increment_def remaining_def)
next
  case (Cons y ys)
  then show ?thesis using assms by (auto simp: increment_def remaining_def iterator_ok_def)
qed

lemma traverse_remaining:
  assumes "table_ok n m"
  shows "iterator_ok n m it \<Longrightarrow> length (remaining n m it) \<le> f \<Longrightarrow> traverse f m it = Some (remaining n m it)"
proof (induction f arbitrary: it)
  case 0
  then show ?case by (cases it) (auto simp: remaining_def iterator_ok_def split: option.splits)
next
  case (Suc f)
  show ?case
  proof (cases "snd it")
    case None
    then show ?thesis by (cases it) (simp add: remaining_def)
  next
    case (Some bn)
    with Suc.prems(1) obtain k b x xs where it: "it = (k, Some (b, x # xs))"
      by (cases it; cases bn) (auto simp: iterator_ok_def neq_Nil_conv)
    from increment_remaining [OF assms Suc.prems(1) it] obtain it' where
      it': "increment m it = Some it'" "iterator_ok n m it'" "remaining n m it = x # remaining n m it'" by blast
    with Suc.prems(2) have "traverse f m it' = Some (remaining n m it')" by (intro Suc.IH) simp_all
    with it' it show ?thesis by simp
  qed
qed

lemma hm_begin_remaining:
  assumes ok: "hm_ok hash n m"
  shows "\<exists>it. hm_begin m = Some it \<and> iterator_ok n m it \<and> remaining n m it = contents m"
proof -
  have tab: "table_ok n m" by (rule hm_okD [OF ok])
  have pos: "0 < (2 :: nat) ^ n" "(1 :: nat) \<le> 2 ^ n" by simp_all
  have contents: "contents m = nodes_from n m 0"
    unfolding contents_def nodes_from_def hm_okD(3) [OF ok] ..
  have addr: "(0, 0) = bucket_addr 0" by (simp add: bucket_addr_def)
  show ?thesis
  proof (cases "nodes_at m 0")
    case Nil
    then have "hm_begin m = advance_to_next_bucket m (bucket_addr (1 - 1)) 1"
      by (auto simp: hm_begin_def iterator_at_def addr nodes_at_def list_at_def split: chain.splits list.splits)
    moreover have "contents m = nodes_from n m 1"
      unfolding contents using nodes_from_step [OF pos(1), of m] Nil by simp
    ultimately show ?thesis using advance_remaining [OF tab _ pos(2)] by simp
  next
    case (Cons x xs)
    then have "hm_begin m = Some (0, Some (bucket_addr 0, x # xs))"
      by (auto simp: hm_begin_def iterator_at_def addr nodes_at_def list_at_def split: chain.splits)
    moreover have "contents m = (x # xs) @ nodes_from n m 1"
      unfolding contents using nodes_from_step [OF pos(1), of m] Cons by simp
    ultimately show ?thesis by (simp add: iterator_ok_def remaining_def)
  qed
qed

lemma length_contents: "hm_ok hash n m \<Longrightarrow> length (contents m) = my_size m"
  unfolding contents_def hm_okD(3)
  by (simp add: length_concat hm_ok_def atLeast0LessThan interv_sum_list_conv_sum_set_nat comp_def)

text \<open>
  An iteration from the beginning visits every node of the table once, bucket by bucket, and
  needs as many increments as the table has items.
\<close>

theorem iteration_visits_contents:
  assumes "hm_valid hash m"
  shows "\<exists>it. hm_begin m = Some it \<and> traverse (my_size m) m it = Some (contents m) \<and>
    length (contents m) = my_size m"
proof -
  from assms obtain n where ok: "hm_ok hash n m" by (auto simp: hm_valid_def)
  from hm_begin_remaining [OF ok] length_contents [OF ok] traverse_remaining [OF hm_okD(1) [OF ok]]
  show ?thesis by fastforce
qed

theorem iteration_visits_contents_witness:
  "\<exists>it. hm_begin sample_table = Some it \<and> traverse (my_size sample_table) sample_table it = Some (contents sample_table) \<and>
     length (contents sample_table) = my_size sample_table"
  using iteration_visits_contents [OF sample_valid(1)] .

end
