(* ===== verification/Hash_Rehash.thy ===== *)
theory Hash_Rehash
  imports Hash_Iterator
begin

text \<open>
  The explicit rehashing of a whole table of \<^verbatim>\<open>tbb::concurrent_hash_map\<close> (\<^verbatim>\<open>rehash\<close> and
  \<^verbatim>\<open>reserve\<close>, \<^verbatim>\<open>mark_rehashed_levels\<close> in \<^verbatim>\<open>src/src/tbb/include/tbb/concurrent_hash_map.h\<close>), which the
  class offers to callers that run alone.  A marked bucket of the last segment leads to the bucket
  that still has its nodes; all marked buckets below that one are marked as rehashed at once, and
  its nodes go where the mask of the table sends them.
\<close>

subsection \<open>Operations\<close>

lemma segment_index_of_ge: "s \<le> segment_index_of (h + 2 ^ s)"
proof -
  have "2 ^ s \<le> (h + 2 ^ s) OR 1" unfolding or_one_eq by simp
  then show ?thesis unfolding segment_index_of_def by (rule tbb_log2_ge)
qed

text \<open>The loop of \<^verbatim>\<open>mark_rehashed_levels\<close>, from the segment \<open>s\<close> on.\<close>

function mark_levels :: "nat \<Rightarrow> nat \<Rightarrow> ('k, 'v) hash_map \<Rightarrow> ('k, 'v) hash_map option" where
  "mark_levels h s m =
     (if s < pointers_per_table
      then case my_table m ! s of
          Null \<Rightarrow> Some m
        | Claimed \<Rightarrow> None
        | Seg b i \<Rightarrow>
            if node_lists m (b, i + int h) = Rehash_req
            then do { m \<leftarrow> mark_levels (h + 2 ^ s) (segment_index_of (h + 2 ^ s) + 1)
                             (m\<lparr>node_lists := (node_lists m)((b, i + int h) := Chain [])\<rparr>);
                      mark_levels h (s + 1) m }
            else mark_levels h (s + 1) m
      else None)"
  by pat_completeness auto
termination
  by (relation "measure (\<lambda>(h, s, m). pointers_per_table - s)")
    (auto simp: le_imp_less_Suc segment_index_of_ge intro!: diff_less_mono2)

declare mark_levels.simps [simp del]

definition mark_rehashed_levels :: "nat \<Rightarrow> ('k, 'v) hash_map \<Rightarrow> ('k, 'v) hash_map option" where
  "mark_rehashed_levels h m = mark_levels h (segment_index_of h + 1) m"

text \<open>The way up from a marked bucket to the first one that is rehashed.\<close>

function rehash_root :: "nat \<Rightarrow> ('k, 'v) hash_map \<Rightarrow> nat option" where
  "rehash_root h m =
     (if h \<le> 1 then None
      else do { msk \<leftarrow> parent_mask h;
                c \<leftarrow> node_list m (h AND msk);
                case c of Rehash_req \<Rightarrow> rehash_root (h AND msk) m | Chain _ \<Rightarrow> Some (h AND msk) })"
  by pat_completeness auto
termination
  by (relation "measure fst") (auto intro: parent_mask_less)

declare rehash_root.simps [simp del]

text \<open>The nodes of the chain of bucket \<open>h\<close>: the ones that stay, and the table with the others moved.\<close>

fun spread ::
  "('k \<Rightarrow> nat) \<Rightarrow> nat \<Rightarrow> nat \<Rightarrow> ('k \<times> 'v) list \<Rightarrow> ('k, 'v) hash_map \<Rightarrow>
     (('k \<times> 'v) list \<times> ('k, 'v) hash_map) option" where
  "spread hash msk h [] m = Some ([], m)"
| "spread hash msk h (q # ns) m =
     (if hash (fst q) AND msk \<noteq> h
      then do { c \<leftarrow> Option.bind (node_list m (hash (fst q) AND msk)) (add_to_bucket q);
                m \<leftarrow> set_node_list (hash (fst q) AND msk) c m;
                spread hash msk h ns m }
      else do { (ns, m) \<leftarrow> spread hash msk h ns m; Some (q # ns, m) })"

definition rehash_marked :: "('k \<Rightarrow> nat) \<Rightarrow> nat \<Rightarrow> nat \<Rightarrow> ('k, 'v) hash_map \<Rightarrow> ('k, 'v) hash_map option" where
  "rehash_marked hash msk b m =
     do { h \<leftarrow> rehash_root b m;
          m \<leftarrow> mark_rehashed_levels h m;
          ns \<leftarrow> Option.bind (node_list m h) chain_nodes;
          (ns, m) \<leftarrow> spread hash msk h ns m;
          set_node_list h (Chain ns) m }"

function rehash_loop ::
  "('k \<Rightarrow> nat) \<Rightarrow> nat \<Rightarrow> nat \<Rightarrow> nat \<times> int \<Rightarrow> ('k, 'v) hash_map \<Rightarrow> ('k, 'v) hash_map option" where
  "rehash_loop hash msk b bp m =
     (if b \<le> msk
      then do { m \<leftarrow> (case node_lists m bp of Rehash_req \<Rightarrow> rehash_marked hash msk b m | Chain _ \<Rightarrow> Some m);
                rehash_loop hash msk (b + 1) (fst bp, snd bp + 1) m }
      else Some m)"
  by pat_completeness auto
termination
  by (relation "measure (\<lambda>(hash, msk, b, bp, m). msk + 1 - b)") auto

declare rehash_loop.simps [simp del]

text \<open>\<^verbatim>\<open>reserve\<close> may end with the exception of a failed allocation: the flag is \<open>False\<close>.\<close>

partial_function (option) reserve_loop ::
  "(nat \<Rightarrow> bool) \<Rightarrow> nat \<Rightarrow> bool \<Rightarrow> ('k, 'v) hash_map \<Rightarrow> (bool \<times> ('k, 'v) hash_map) option" where
  "reserve_loop alloc buckets is_initial m =
     (if buckets > my_mask m
      then let (ok, m') = enable_segment alloc (segment_index_of (my_mask m + 1)) is_initial m
           in if ok then reserve_loop alloc buckets is_initial m' else Some (False, m')
      else Some (True, m))"

definition reserve :: "(nat \<Rightarrow> bool) \<Rightarrow> nat \<Rightarrow> ('k, 'v) hash_map \<Rightarrow> (bool \<times> ('k, 'v) hash_map) option" where
  "reserve alloc buckets m =
     (if buckets = 0 then Some (True, m) else reserve_loop alloc (buckets - 1) (my_size m = 0) m)"

definition rehash ::
  "('k \<Rightarrow> nat) \<Rightarrow> (nat \<Rightarrow> bool) \<Rightarrow> nat \<Rightarrow> ('k, 'v) hash_map \<Rightarrow> (bool \<times> ('k, 'v) hash_map) option" where
  "rehash hash alloc sz m =
     do { (ok, m) \<leftarrow> reserve alloc sz m;
          if ok
          then do { let msk = my_mask m; let b = (msk + 1) div 2;
                    bp \<leftarrow> get_bucket m b;
                    m \<leftarrow> rehash_loop hash msk b bp m;
                    Some (True, m) }
          else Some (False, m) }"

text \<open>The assertions that a build with \<^verbatim>\<open>TBB_USE_ASSERT\<close> makes of every bucket at the end.\<close>

definition step_bucket :: "('k, 'v) hash_map \<Rightarrow> nat \<Rightarrow> nat \<times> int \<Rightarrow> (nat \<times> int) option" where
  "step_bucket m k b =
     (if of_nat k AND (of_nat k - 2) \<noteq> (0 :: u64) then Some (fst b, snd b + 1) else get_bucket m k)"

fun buckets_from :: "('k, 'v) hash_map \<Rightarrow> nat \<Rightarrow> nat \<Rightarrow> nat \<times> int \<Rightarrow> (nat \<times> int) list option" where
  "buckets_from m 0 k bp = Some []"
| "buckets_from m (Suc l) k bp =
     do { bp \<leftarrow> step_bucket m k bp; map_option ((#) bp) (buckets_from m l (k + 1) bp) }"

definition rehash_assertions :: "('k \<Rightarrow> nat) \<Rightarrow> ('k, 'v) hash_map \<Rightarrow> bool option" where
  "rehash_assertions hash m =
     map_option (\<lambda>bps. list_all (\<lambda>(b, bp).
         case node_lists m bp of Rehash_req \<Rightarrow> False | Chain ns \<Rightarrow> list_all (\<lambda>n. hash (fst n) AND my_mask m = b) ns)
       (zip [0..<my_mask m + 1] bps))
     (buckets_from m (my_mask m + 1) 0 (0, 0))"


subsection \<open>Marking\<close>

text \<open>Bucket \<open>x\<close> is below \<open>h\<close> from segment \<open>s\<close> on, with only marked buckets between, itself included.\<close>

definition marks :: "nat \<Rightarrow> ('k, 'v) hash_map \<Rightarrow> nat \<Rightarrow> nat \<Rightarrow> nat \<Rightarrow> bool" where
  "marks n m s h x \<longleftrightarrow> x mod 2 ^ s = h \<and> x \<noteq> h \<and>
     (\<forall>j. s \<le> j \<and> j \<le> n \<longrightarrow> x mod 2 ^ j = h \<or> \<not> rehashed m (x mod 2 ^ j))"

lemma table_entry:
  assumes "table_ok n m" "1 \<le> s" "s < n" "h < 2 ^ s"
  obtains b i where "my_table m ! s = Seg b i" "(b, i + int h) = bucket_addr (h + 2 ^ s)"
proof -
  have n: "n < 64" using assms(1) by (simp add: table_ok_def)
  have lt: "h + 2 ^ s < 2 ^ Suc s" using assms(4) by simp
  also have "(2 :: nat) ^ Suc s \<le> 2 ^ n" using assms(3) by (intro power_increasing) simp_all
  finally have "get_bucket m (h + 2 ^ s) = Some (bucket_addr (h + 2 ^ s))"
    by (rule get_bucket_addr [OF assms(1)])
  moreover have "segment_index_of (h + 2 ^ s) = s" using assms(2) lt by (intro segment_index_of_pos) simp_all
  moreover have "segment_base s = 2 ^ s" using assms(2,3) n by (intro segment_base_pos) simp_all
  ultimately show ?thesis
    using that by (auto simp: get_bucket_def Let_def split: segment_ptr.splits)
qed

lemma marks_top: "h < 2 ^ n \<Longrightarrow> x < 2 ^ n \<Longrightarrow> \<not> marks n m n h x"
  by (simp add: marks_def)

lemma marks_high:
  assumes h: "h < 2 ^ s" and s: "s < n" and x: "x mod 2 ^ Suc s = h + 2 ^ s"
  shows "marks n m s h x \<longleftrightarrow> \<not> rehashed m (h + 2 ^ s) \<and> (x = h + 2 ^ s \<or> marks n m (Suc s) (h + 2 ^ s) x)"
proof -
  have low: "x mod 2 ^ s = h" using x h mod_mod_exp [of s "Suc s" x] by simp
  have not_h: "x mod 2 ^ j \<noteq> h" if j: "Suc s \<le> j" for j
  proof
    assume "x mod 2 ^ j = h"
    then have "h mod 2 ^ Suc s = h + 2 ^ s" using mod_mod_exp [OF j, of x] x by simp
    with h show False by simp
  qed
  have "x \<noteq> h" using x h by auto
  then have eq: "marks n m s h x \<longleftrightarrow> (\<forall>j. Suc s \<le> j \<and> j \<le> n \<longrightarrow> \<not> rehashed m (x mod 2 ^ j))"
    unfolding marks_def using low not_h by (metis Suc_leI le_neq_implies_less less_imp_le_nat Suc_leD)
  have "x mod 2 ^ j = h + 2 ^ s" if "x = h + 2 ^ s" "Suc s \<le> j" for j
  proof -
    have "h + 2 ^ s < 2 ^ Suc s" using h by simp
    also have "(2 :: nat) ^ Suc s \<le> 2 ^ j" using that(2) by (intro power_increasing) simp_all
    finally show ?thesis using that(1) by simp
  qed
  then show ?thesis
    unfolding eq unfolding marks_def using x s by (metis Suc_leI order_refl)
qed

lemma marks_low:
  assumes h: "h < 2 ^ s" and s: "s < n" and x: "x mod 2 ^ Suc s = h"
  shows "marks n m s h x \<longleftrightarrow> marks n m (Suc s) h x"
proof -
  have "x mod 2 ^ s = h" using x h mod_mod_exp [of s "Suc s" x] by simp
  then show ?thesis unfolding marks_def using x by (metis Suc_leD le_SucE Suc_leI le_neq_implies_less)
qed

lemma marks_cong:
  assumes "\<And>y. y \<le> x \<Longrightarrow> y mod 2 ^ s = h \<Longrightarrow> rehashed m' y \<longleftrightarrow> rehashed m y"
  shows "marks n m' s h x \<longleftrightarrow> marks n m s h x"
proof -
  have "rehashed m' (x mod 2 ^ j) \<longleftrightarrow> rehashed m (x mod 2 ^ j)" if "x mod 2 ^ s = h" "s \<le> j" for j
    using assms [of "x mod 2 ^ j"] that mod_mod_exp [OF that(2), of x] by simp
  then show ?thesis unfolding marks_def by blast
qed

lemma rehashed_lists: "rehashed (m\<lparr>node_lists := f\<rparr>) x \<longleftrightarrow> f (bucket_addr x) \<noteq> Rehash_req"
  by (simp add: rehashed_def list_at_def)

lemma table_ok_lists [simp]: "table_ok n (m\<lparr>node_lists := f\<rparr>) \<longleftrightarrow> table_ok n m"
  by (simp add: table_ok_def)

lemma mark_levels_ok:
  assumes "table_ok n m" "my_table m ! n = Null" "1 \<le> s" "s \<le> n" "h < 2 ^ s"
  shows "\<exists>f. mark_levels h s m = Some (m\<lparr>node_lists := f\<rparr>) \<and>
    (\<forall>x < 2 ^ n. f (bucket_addr x) = (if marks n m s h x then Chain [] else list_at m x))"
  using assms
proof (induction "n - s" arbitrary: h s m)
  case 0
  then have "s = n" "n < 64" by (simp_all add: table_ok_def)
  moreover have "h < 2 ^ n" using 0 \<open>s = n\<close> by simp
  ultimately have "mark_levels h s m = Some (m\<lparr>node_lists := node_lists m\<rparr>)"
    using 0 by (subst mark_levels.simps) (simp add: pointers_per_table_def)
  with \<open>s = n\<close> \<open>h < 2 ^ n\<close> show ?case
    by (intro exI [of _ "node_lists m"]) (auto simp: marks_top list_at_def)
next
  case (Suc d)
  then have s: "s < n" "d = n - Suc s" "1 \<le> Suc s" "Suc s \<le> n" by simp_all
  have n: "n < 64" using Suc.prems(1) by (simp add: table_ok_def)
  let ?y = "h + 2 ^ s"
  have y: "?y < 2 ^ Suc s" "h < 2 ^ Suc s" "segment_index_of ?y = s"
    using Suc.prems(3,5) by (auto intro!: segment_index_of_pos)
  obtain b i where e: "my_table m ! s = Seg b i" "(b, i + int h) = bucket_addr ?y"
    using table_entry [OF Suc.prems(1,3) s(1) Suc.prems(5)] .
  show ?case
  proof (cases "rehashed m ?y")
    case True
    then have step: "mark_levels h s m = mark_levels h (Suc s) m"
      using s(1) n e by (subst mark_levels.simps) (simp add: pointers_per_table_def rehashed_def list_at_def)
    from Suc.hyps(1) [OF s(2) Suc.prems(1,2) s(3,4) y(2)] obtain f where
      f: "mark_levels h (Suc s) m = Some (m\<lparr>node_lists := f\<rparr>)"
        "\<forall>x < 2 ^ n. f (bucket_addr x) = (if marks n m (Suc s) h x then Chain [] else list_at m x)" by blast
    have "marks n m s h x \<longleftrightarrow> marks n m (Suc s) h x" for x
    proof (cases "x mod 2 ^ Suc s = h")
      case False
      then have "x mod 2 ^ s = h \<Longrightarrow> x mod 2 ^ Suc s = ?y" using path_step [of x s] by auto
      then have "x mod 2 ^ s = h \<Longrightarrow> \<not> marks n m s h x"
        using marks_high [OF Suc.prems(5) s(1), of _ m] True by blast
      then have "\<not> marks n m s h x" by (auto simp: marks_def [of n m s])
      moreover have "\<not> marks n m (Suc s) h x" using False by (simp add: marks_def del: power_Suc)
      ultimately show ?thesis by simp
    qed (rule marks_low [OF Suc.prems(5) s(1)])
    with f step show ?thesis by auto
  next
    case False
    let ?m1 = "m\<lparr>node_lists := (node_lists m)(bucket_addr ?y := Chain [])\<rparr>"
    have r1: "rehashed ?m1 x \<longleftrightarrow> x = ?y \<or> rehashed m x" for x
      by (auto simp: rehashed_def list_at_def dest: bucket_addr_inj)
    have l1: "list_at ?m1 x = (if x = ?y then Chain [] else list_at m x)" for x
      by (auto simp: list_at_def dest: bucket_addr_inj)
    have "table_ok n ?m1" "my_table ?m1 ! n = Null" using Suc.prems(1,2) by simp_all
    from Suc.hyps(1) [OF s(2) this s(3,4) y(1)] obtain f where
      f: "mark_levels ?y (Suc s) ?m1 = Some (?m1\<lparr>node_lists := f\<rparr>)"
        "\<forall>x < 2 ^ n. f (bucket_addr x) = (if marks n ?m1 (Suc s) ?y x then Chain [] else list_at ?m1 x)" by blast
    let ?m2 = "m\<lparr>node_lists := f\<rparr>"
    have "table_ok n ?m2" "my_table ?m2 ! n = Null" using Suc.prems(1,2) by simp_all
    from Suc.hyps(1) [OF s(2) this s(3,4) y(2)] obtain g where
      g: "mark_levels h (Suc s) ?m2 = Some (?m2\<lparr>node_lists := g\<rparr>)"
        "\<forall>x < 2 ^ n. g (bucket_addr x) = (if marks n ?m2 (Suc s) h x then Chain [] else list_at ?m2 x)" by blast
    have run: "mark_levels h s m = Some (m\<lparr>node_lists := g\<rparr>)"
      using s(1) n e(1) False f(1) g(1) y(3) unfolding rehashed_def list_at_def e(2) [symmetric]
      by (subst mark_levels.simps) (simp add: pointers_per_table_def)
    show ?thesis
    proof (intro exI conjI allI impI, rule run)
      fix x :: nat
      assume x: "x < 2 ^ n"
      have f_x: "list_at ?m2 z = (if marks n ?m1 (Suc s) ?y z then Chain [] else list_at ?m1 z)" if "z < 2 ^ n" for z
        using f(2) that by (simp add: list_at_def)
      have mod_s: "x mod 2 ^ Suc s mod 2 ^ s = x mod 2 ^ s" by (rule mod_mod_exp) simp
      consider (low) "x mod 2 ^ Suc s = h" | (high) "x mod 2 ^ Suc s = ?y" | (apart) "x mod 2 ^ s \<noteq> h"
        using path_step [of x s] by auto
      then show "g (bucket_addr x) = (if marks n m s h x then Chain [] else list_at m x)"
      proof cases
        case low
        have same: "list_at ?m2 z = list_at m z" if "z \<le> x" "z mod 2 ^ Suc s = h" for z
        proof -
          have "z \<noteq> ?y" "\<not> marks n ?m1 (Suc s) ?y z" using that(2) mod_less [OF y(1)] by (auto simp: marks_def simp del: power_Suc)
          then show ?thesis using f_x [of z] that(1) x l1 [of z] by simp
        qed
        have "marks n ?m2 (Suc s) h x \<longleftrightarrow> marks n m (Suc s) h x"
          by (rule marks_cong) (simp add: rehashed_def same)
        then show ?thesis
          using g(2) x same [OF order_refl low] marks_low [OF Suc.prems(5) s(1) low, of m] by simp
      next
        case high
        have "marks n ?m1 (Suc s) ?y x \<longleftrightarrow> marks n m (Suc s) ?y x"
          unfolding marks_def r1 by blast
        moreover have "\<not> marks n ?m2 (Suc s) h x" using high by (simp add: marks_def)
        ultimately show ?thesis
          using g(2) x f_x [OF x] l1 [of x] marks_high [OF Suc.prems(5) s(1) high, of m] False by auto
      next
        case apart
        then have no: "x mod 2 ^ Suc s \<noteq> h" "x mod 2 ^ Suc s \<noteq> ?y"
          using mod_s Suc.prems(5) by (auto simp del: power_Suc)
        then have "\<not> marks n ?m2 (Suc s) h x" "\<not> marks n ?m1 (Suc s) ?y x" "\<not> marks n m s h x" "x \<noteq> ?y"
          using apart mod_less [OF y(1)] by (auto simp: marks_def simp del: power_Suc)
        then show ?thesis using g(2) x f_x [OF x] l1 [of x] by simp
      qed
    qed
  qed
qed

subsection \<open>Rehashing one marked bucket\<close>

lemma below_segment: "h < 2 ^ (segment_index_of h + 1)"
proof -
  have "h \<le> h OR 1" unfolding or_one_eq by simp
  also have "h OR 1 < 2 ^ Suc (tbb_log2 (h OR 1))"
    unfolding or_one_eq by (intro conjunct2 [OF tbb_log2_bounds]) (cases "even h", auto elim!: oddE)
  finally show ?thesis by (simp add: segment_index_of_def)
qed

lemma rehash_root_ok:
  assumes ok: "hm_ok hash n m" and b: "1 < b" "b < 2 ^ n" "\<not> rehashed m b"
  shows "\<exists>h l. rehash_root b m = Some h \<and> 1 \<le> l \<and> l \<le> n \<and> h = b mod 2 ^ l \<and> rehashed m h \<and>
    (\<forall>j. l \<le> j \<and> j \<le> n \<longrightarrow> b mod 2 ^ j = h \<or> \<not> rehashed m (b mod 2 ^ j))"
  using b
proof (induction b rule: less_induct)
  case (less b)
  define l where "l = tbb_log2 b"
  have l: "2 ^ l \<le> b" "b < 2 ^ Suc l" "l < n"
    using less.prems tbb_log2_bounds [of b] tbb_log2_less [of b n] by (simp_all add: l_def)
  then have l1: "1 \<le> l" using less.prems(1) by (cases l) auto
  have "parent b < b" using less.prems(1) by (intro parent_lt) simp
  moreover have "b AND (2 ^ l - 1) = parent b" by (simp only: and_mask_mod parent_def l_def)
  ultimately have par: "b AND (2 ^ l - 1) = parent b" "parent b = b mod 2 ^ l" "parent b < b" "parent b < 2 ^ n"
    using less.prems(2) by (simp_all add: parent_def l_def)
  have nl: "node_list m (parent b) = Some (list_at m (parent b))"
    using hm_okD(1) [OF ok] par(4) by (rule node_list_at)
  have "parent_mask b = Some (2 ^ l - 1)"
    using hm_okD(2) [OF ok] l(3) by (simp add: parent_mask_def l_def)
  then have step: "rehash_root b m = (case list_at m (parent b) of Rehash_req \<Rightarrow> rehash_root (parent b) m | Chain _ \<Rightarrow> Some (parent b))"
    using less.prems(1) nl by (subst rehash_root.simps) (simp add: par(1) [unfolded One_nat_def])
  have above: "b mod 2 ^ j = b" if "l < j" for j
  proof -
    have "(2 :: nat) ^ Suc l \<le> 2 ^ j" using that by (intro power_increasing) simp_all
    then show ?thesis using l(2) by (intro mod_less) linarith
  qed
  show ?case
  proof (cases "rehashed m (parent b)")
    case True
    then have "rehash_root b m = Some (parent b)" unfolding step by (auto simp: rehashed_def split: chain.splits)
    moreover have "b mod 2 ^ j = parent b \<or> \<not> rehashed m (b mod 2 ^ j)" if "l \<le> j" for j
      using that above [of j] less.prems(3) par(2) by (cases "j = l") auto
    ultimately show ?thesis using True l1 l(3) par(2) by (intro exI [of _ "parent b"] exI [of _ l]) auto
  next
    case False
    then have big: "1 < parent b" using ok by (cases "parent b = 0"; cases "parent b = 1") (auto simp: hm_ok_def)
    from less.IH [OF par(3) big par(4) False] obtain h k where
      h: "rehash_root (parent b) m = Some h" "1 \<le> k" "k \<le> n" "h = parent b mod 2 ^ k" "rehashed m h"
        "\<And>j. k \<le> j \<Longrightarrow> j \<le> n \<Longrightarrow> parent b mod 2 ^ j = h \<or> \<not> rehashed m (parent b mod 2 ^ j)" by blast
    have kl: "k \<le> l"
    proof (rule ccontr)
      assume kl: "\<not> k \<le> l"
      have "parent b < 2 ^ l" by (simp add: par(2))
      also have "(2 :: nat) ^ l \<le> 2 ^ k" using kl by (intro power_increasing) simp_all
      finally have "h = parent b" using h(4) by simp
      with h(5) False show False by simp
    qed
    have "b mod 2 ^ j = h \<or> \<not> rehashed m (b mod 2 ^ j)" if "k \<le> j" "j \<le> n" for j
    proof (cases "j \<le> l")
      case True
      then have "parent b mod 2 ^ j = b mod 2 ^ j" unfolding par(2) by (rule mod_mod_exp)
      with h(6) [OF that] show ?thesis by simp
    next
      case False
      then show ?thesis using above [of j] less.prems(3) by simp
    qed
    moreover have "h = b mod 2 ^ k" using h(4) mod_mod_exp [OF kl, of b] par(2) by simp
    moreover have "rehash_root b m = Some h"
      unfolding step using False h(1) by (simp add: rehashed_def)
    ultimately show ?thesis using h(2,3,5) by (intro exI [of _ h] exI [of _ k]) auto
  qed
qed

text \<open>So a marked bucket is among those below its root that get marked as rehashed.\<close>

lemma root_marks:
  assumes "1 \<le> l" "l \<le> n" "h = b mod 2 ^ l" "rehashed m h" "\<not> rehashed m b" "b < 2 ^ n"
    and "\<forall>j. l \<le> j \<and> j \<le> n \<longrightarrow> b mod 2 ^ j = h \<or> \<not> rehashed m (b mod 2 ^ j)"
  shows "segment_index_of h + 1 \<le> n \<and> marks n m (segment_index_of h + 1) h b"
proof -
  let ?s = "segment_index_of h + 1"
  have hl: "h < 2 ^ l" using assms(3) by simp
  then have sl: "?s \<le> l" using segment_index_of_le [of l h] assms(1) by simp
  have "b mod 2 ^ j = h" if "?s \<le> j" "j \<le> l" for j
  proof -
    have "(2 :: nat) ^ ?s \<le> 2 ^ j" using that(1) by (intro power_increasing) simp_all
    then have "h < 2 ^ j" using below_segment [of h] by linarith
    then show ?thesis using mod_mod_exp [OF that(2), of b] assms(3) by simp
  qed
  then have "b mod 2 ^ ?s = h" "\<forall>j. ?s \<le> j \<and> j \<le> n \<longrightarrow> b mod 2 ^ j = h \<or> \<not> rehashed m (b mod 2 ^ j)"
    using sl assms(7) by (auto simp del: power_Suc) (metis nat_le_linear)
  moreover have "b \<noteq> h" using assms(4,5) by auto
  ultimately show ?thesis using sl assms(2) unfolding marks_def by simp
qed

text \<open>The nodes that leave the chain of \<open>h\<close> go to the front of the chains of their buckets.\<close>

lemma spread_ok:
  assumes "table_ok n m" "\<forall>q \<in> set ns. hash (fst q) mod 2 ^ n \<noteq> h \<longrightarrow> rehashed m (hash (fst q) mod 2 ^ n)"
  shows "\<exists>f. spread hash (2 ^ n - 1) h ns m = Some (filter (\<lambda>q. hash (fst q) mod 2 ^ n = h) ns, m\<lparr>node_lists := f\<rparr>) \<and>
    (\<forall>x < 2 ^ n. f (bucket_addr x) =
      (case list_at m x of
         Rehash_req \<Rightarrow> Rehash_req
       | Chain cs \<Rightarrow> Chain (if x = h then cs else rev (filter (\<lambda>q. hash (fst q) mod 2 ^ n = x) ns) @ cs)))"
  using assms
proof (induction ns arbitrary: m)
  case Nil
  then show ?case by (intro exI [of _ "node_lists m"]) (auto simp: list_at_def split: chain.splits)
next
  case (Cons q ns)
  let ?i = "hash (fst q) mod 2 ^ n"
  have i: "hash (fst q) AND (2 ^ n - 1) = ?i" by (rule and_mask_mod)
  show ?case
  proof (cases "?i = h")
    case True
    from Cons.IH [OF Cons.prems(1)] Cons.prems(2) obtain f where
      "spread hash (2 ^ n - 1) h ns m = Some (filter (\<lambda>q. hash (fst q) mod 2 ^ n = h) ns, m\<lparr>node_lists := f\<rparr>)"
      "\<forall>x < 2 ^ n. f (bucket_addr x) =
        (case list_at m x of
           Rehash_req \<Rightarrow> Rehash_req
         | Chain cs \<Rightarrow> Chain (if x = h then cs else rev (filter (\<lambda>q. hash (fst q) mod 2 ^ n = x) ns) @ cs))" by auto
    with True show ?thesis unfolding spread.simps i by (intro exI [of _ f]) (auto split: chain.splits)
  next
    case False
    have lt: "?i < 2 ^ n" by simp
    from False Cons.prems(2) have "rehashed m ?i" by simp
    then obtain cs where cs: "list_at m ?i = Chain cs" by (cases "list_at m ?i") (auto simp: rehashed_def)
    let ?m1 = "m\<lparr>node_lists := (node_lists m)(bucket_addr ?i := Chain (q # cs))\<rparr>"
    have l1: "list_at ?m1 x = (if x = ?i then Chain (q # cs) else list_at m x)" for x
      by (auto simp: list_at_def dest: bucket_addr_inj)
    have "\<forall>q \<in> set ns. hash (fst q) mod 2 ^ n \<noteq> h \<longrightarrow> rehashed ?m1 (hash (fst q) mod 2 ^ n)"
      using Cons.prems(2) by (auto simp: rehashed_def l1)
    moreover have "table_ok n ?m1" using Cons.prems(1) by simp
    ultimately obtain f where
      f: "spread hash (2 ^ n - 1) h ns ?m1 = Some (filter (\<lambda>q. hash (fst q) mod 2 ^ n = h) ns, ?m1\<lparr>node_lists := f\<rparr>)"
      "\<And>x. x < 2 ^ n \<Longrightarrow> f (bucket_addr x) =
        (case list_at ?m1 x of
           Rehash_req \<Rightarrow> Rehash_req
         | Chain cs \<Rightarrow> Chain (if x = h then cs else rev (filter (\<lambda>q. hash (fst q) mod 2 ^ n = x) ns) @ cs))"
      using Cons.IH [of ?m1] by blast
    have "node_list m ?i = Some (Chain cs)" using node_list_at [OF Cons.prems(1) lt] cs by simp
    moreover have "set_node_list ?i c m = Some (m\<lparr>node_lists := (node_lists m)(bucket_addr ?i := c)\<rparr>)" for c
      using get_bucket_addr [OF Cons.prems(1) lt] by (simp add: set_node_list_def)
    ultimately have "spread hash (2 ^ n - 1) h (q # ns) m =
        Some (filter (\<lambda>q. hash (fst q) mod 2 ^ n = h) (q # ns), m\<lparr>node_lists := f\<rparr>)"
      using False f(1) unfolding spread.simps i by (simp add: add_to_bucket_def)
    moreover have "f (bucket_addr x) =
        (case list_at m x of
           Rehash_req \<Rightarrow> Rehash_req
         | Chain cs \<Rightarrow> Chain (if x = h then cs else rev (filter (\<lambda>q. hash (fst q) mod 2 ^ n = x) (q # ns)) @ cs))"
      if "x < 2 ^ n" for x
      using f(2) [OF that] False cs by (cases "x = ?i") (auto simp: l1 split: chain.splits)
    ultimately show ?thesis by blast
  qed
qed

lemma sum_length_filter:
  "finite S \<Longrightarrow> (\<Sum>x \<in> S. length (filter (\<lambda>q. c q = x) ns)) = length (filter (\<lambda>q. c q \<in> S) ns)"
proof (induction ns)
  case (Cons q ns)
  have "(\<Sum>x \<in> S. length (filter (\<lambda>q. c q = x) (q # ns))) =
      (\<Sum>x \<in> S. (if c q = x then 1 else 0) + length (filter (\<lambda>q. c q = x) ns))"
    by (intro sum.cong) auto
  with Cons show ?case by (simp add: sum.distrib sum.delta)
qed simp

lemma marks_not_rehashed: "marks n m s h x \<Longrightarrow> x < 2 ^ n \<Longrightarrow> s \<le> n \<Longrightarrow> \<not> rehashed m x"
  unfolding marks_def by (metis mod_less order_refl)

lemma rehash_levels_ok:
  assumes ok: "hm_ok hash n m" and h: "h < 2 ^ n" "rehashed m h" and s: "1 \<le> s" "s \<le> n" "h < 2 ^ s"
    and tab: "table_ok n m'" "my_size m' = my_size m"
    and c: "c = (\<lambda>q. hash (fst q) mod 2 ^ n)"
    and dest: "\<And>q. q \<in> set (nodes_at m h) \<Longrightarrow> c q = h \<or> marks n m s h (c q)"
    and lists: "\<And>x. x < 2 ^ n \<Longrightarrow> list_at m' x =
      (if x = h then Chain (filter (\<lambda>q. c q = h) (nodes_at m h))
       else if marks n m s h x then Chain (rev (filter (\<lambda>q. c q = x) (nodes_at m h))) else list_at m x)"
  shows "hm_ok hash n m' \<and> items n m' = items n m"
proof -
  let ?M = "\<lambda>x. marks n m s h x" and ?ns = "nodes_at m h"
  have fresh: "\<not> rehashed m x" "nodes_at m x = []" if "?M x" "x < 2 ^ n" for x
    using marks_not_rehashed [OF that s(2)] by (auto simp: rehashed_def nodes_at_def)
  have reh: "rehashed m' x \<longleftrightarrow> rehashed m x \<or> ?M x" if "x < 2 ^ n" for x
    using lists [OF that] h(2) by (auto simp: rehashed_def)
  have nodes: "nodes_at m' x = (if x = h then filter (\<lambda>q. c q = h) ?ns
      else if ?M x then rev (filter (\<lambda>q. c q = x) ?ns) else nodes_at m x)" if "x < 2 ^ n" for x
    using lists [OF that] by (simp add: nodes_at_def)
  have closed: "rehashed m' (parent x)" if x: "x < 2 ^ n" "1 < x" "rehashed m' x" for x
  proof -
    have px: "parent x < 2 ^ n" using x parent_lt [of x] by simp
    show ?thesis
    proof (cases "rehashed m x")
      case True
      then show ?thesis using ok x reh [OF px] by (auto simp: hm_ok_def)
    next
      case False
      with x reh have M: "?M x" by blast
      then have xh: "x mod 2 ^ s = h" "x \<noteq> h" by (simp_all add: marks_def)
      define l where "l = tbb_log2 x"
      have l: "2 ^ l \<le> x" "x < 2 ^ Suc l" "parent x = x mod 2 ^ l" "l < n"
        using x tbb_log2_bounds [of x] tbb_log2_less [of x n] by (simp_all add: l_def parent_def)
      have sl: "s \<le> l"
      proof (rule ccontr)
        assume "\<not> s \<le> l"
        then have "x < 2 ^ s" by (intro less_le_trans [OF l(2)] power_increasing) simp_all
        with xh show False by simp
      qed
      have mods: "x mod 2 ^ l mod 2 ^ j = x mod 2 ^ min j l" for j
        using mod_mod_exp [of j l x] by (cases "j \<le> l") (auto simp: min_def intro!: mod_less less_le_trans [OF mod_less_divisor])
      have "parent x = h \<or> ?M (parent x)"
        using M sl xh(1) unfolding marks_def l(3) by (auto simp: mods min_def)
      with h(2) reh [OF px] show ?thesis by auto
    qed
  qed
  have placed: "placed n m' (hash (fst q)) x" if x: "x < 2 ^ n" and q: "q \<in> set (nodes_at m' x)" for x q
  proof (cases "x = h \<or> ?M x")
    case True
    then have "hash (fst q) mod 2 ^ n = x" using q nodes [OF x] by (auto simp: c split: if_splits)
    then show ?thesis unfolding placed_def using hm_okD(4) [OF ok] by (intro exI [of _ n]) auto
  next
    case False
    then have q': "q \<in> set (nodes_at m x)" using q nodes [OF x] by simp
    then have rx: "rehashed m x" by (rule nodes_at_some)
    from ok x q' obtain j where j: "1 \<le> j" "j \<le> n" "x = hash (fst q) mod 2 ^ j"
      and up: "\<And>j'. j \<le> j' \<Longrightarrow> j' \<le> n \<Longrightarrow> hash (fst q) mod 2 ^ j' = x \<or> \<not> rehashed m (hash (fst q) mod 2 ^ j')"
      unfolding hm_ok_def placed_def by blast
    have "\<not> ?M (hash (fst q) mod 2 ^ j')" if j': "j \<le> j'" "j' \<le> n" for j'
    proof
      assume M: "?M (hash (fst q) mod 2 ^ j')"
      let ?y = "hash (fst q) mod 2 ^ j'"
      have y_h: "?y mod 2 ^ s = h" "?y \<noteq> h" using M by (simp_all add: marks_def)
      have sj: "s \<le> j'"
      proof (rule ccontr)
        assume "\<not> s \<le> j'"
        then have "?y < 2 ^ s" by (intro less_le_trans [OF mod_less_divisor] power_increasing) simp_all
        with y_h show False by simp
      qed
      show False
      proof (cases "s \<le> j")
        case True
        have "?y mod 2 ^ j = x" using mod_mod_exp [OF j'(1), of "hash (fst q)"] j(3) by simp
        with M True j(2) rx False show False unfolding marks_def by metis
      next
        case lt: False
        have "hash (fst q) mod 2 ^ s = h" using mod_mod_exp [OF sj, of "hash (fst q)"] y_h(1) by simp
        with up [of s] lt s(2) h(2) False show False by auto
      qed
    qed
    then have "hash (fst q) mod 2 ^ j' = x \<or> \<not> rehashed m' (hash (fst q) mod 2 ^ j')" if "j \<le> j'" "j' \<le> n" for j'
      using up [OF that] reh [OF mod_exp_less [OF that(2), of "hash (fst q)"]] that by blast
    with j show ?thesis unfolding placed_def by blast
  qed
  have distinct: "distinct (map fst (nodes_at m' x))" if "x < 2 ^ n" for x
    using ok that nodes [OF that] h(1)
    by (auto simp: hm_ok_def distinct_map_filter rev_map [symmetric])
  define A where "A = {x. x < 2 ^ n \<and> (x = h \<or> ?M x)}"
  have A: "finite A" "A \<subseteq> {..< 2 ^ n}" "h \<in> A" using h(1) by (auto simp: A_def)
  have c_A: "c q \<in> A" if "q \<in> set ?ns" for q using dest [OF that] by (auto simp: A_def c)
  have "(\<Sum>x \<in> A. length (nodes_at m' x)) = (\<Sum>x \<in> A. length (filter (\<lambda>q. c q = x) ?ns))"
    by (intro sum.cong) (auto simp: A_def nodes)
  also have "\<dots> = length (filter (\<lambda>q. c q \<in> A) ?ns)" by (rule sum_length_filter [OF A(1)])
  also have "\<dots> = length ?ns" using c_A by (subst filter_True) simp_all
  also have "\<dots> = (\<Sum>x \<in> A. if x = h then length ?ns else 0)" using A by simp
  also have "\<dots> = (\<Sum>x \<in> A. length (nodes_at m x))" by (intro sum.cong) (auto simp: A_def fresh)
  finally have "(\<Sum>x < 2 ^ n. length (nodes_at m' x)) = (\<Sum>x < 2 ^ n. length (nodes_at m x))"
    using sum.subset_diff [OF A(2), of "\<lambda>x. length (nodes_at m' x)"] sum.subset_diff [OF A(2), of "\<lambda>x. length (nodes_at m x)"]
      sum.cong [of "{..< 2 ^ n} - A" _ "\<lambda>x. length (nodes_at m' x)" "\<lambda>x. length (nodes_at m x)"]
    by (auto simp: nodes A_def)
  then have size: "my_size m' = (\<Sum>x < 2 ^ n. length (nodes_at m' x))"
    using ok tab(2) by (simp add: hm_ok_def)
  have "q \<in> items n m' \<longleftrightarrow> q \<in> items n m" for q
  proof
    assume "q \<in> items n m'"
    then show "q \<in> items n m" using h(1) by (auto simp: items_def nodes split: if_splits)
  next
    assume "q \<in> items n m"
    then obtain x where x: "x < 2 ^ n" "q \<in> set (nodes_at m x)" by (auto simp: items_def)
    show "q \<in> items n m'"
    proof (cases "x = h")
      case True
      then have "c q \<in> A" "q \<in> set (nodes_at m' (c q))"
        using x c_A [of q] nodes [of "c q"] dest [of q] h(1) by (auto simp: c)
      then show ?thesis using A(2) by (auto simp: items_def)
    next
      case False
      then have "q \<in> set (nodes_at m' x)" using x nodes [OF x(1)] fresh(2) [of x] by auto
      then show ?thesis using x(1) by (auto simp: items_def)
    qed
  qed
  moreover have "(1 :: nat) < 2 ^ n" using hm_okD(4) [OF ok] by (intro one_less_power) simp_all
  then have "rehashed m' 0" "rehashed m' 1" using ok reh [of 0] reh [of 1] by (simp_all add: hm_ok_def)
  ultimately show ?thesis
    using ok tab(1) closed placed distinct size by (auto simp: hm_ok_def)
qed

lemma rehash_marked_ok:
  assumes ok: "hm_ok hash n m" and null: "my_table m ! n = Null" and b: "1 < b" "b < 2 ^ n" "\<not> rehashed m b"
  shows "\<exists>f. rehash_marked hash (2 ^ n - 1) b m = Some (m\<lparr>node_lists := f\<rparr>) \<and>
    hm_ok hash n (m\<lparr>node_lists := f\<rparr>) \<and> items n (m\<lparr>node_lists := f\<rparr>) = items n m \<and>
    rehashed (m\<lparr>node_lists := f\<rparr>) b \<and> (\<forall>x < 2 ^ n. rehashed m x \<longrightarrow> rehashed (m\<lparr>node_lists := f\<rparr>) x)"
proof -
  have tab: "table_ok n m" by (rule hm_okD [OF ok])
  from rehash_root_ok [OF ok b] obtain h l where root: "rehash_root b m = Some h"
    and l: "1 \<le> l" "l \<le> n" "h = b mod 2 ^ l" "rehashed m h"
      "\<forall>j. l \<le> j \<and> j \<le> n \<longrightarrow> b mod 2 ^ j = h \<or> \<not> rehashed m (b mod 2 ^ j)" by blast
  define s where "s = segment_index_of h + 1"
  have s: "1 \<le> s" "s \<le> n" "h < 2 ^ s" and Mb: "marks n m s h b"
    using root_marks [OF l(1-4) b(3,2) l(5)] below_segment [of h] by (simp_all add: s_def)
  have hn: "h < 2 ^ n" using l(2,3) mod_exp_less by simp
  let ?c = "\<lambda>q. hash (fst q) mod 2 ^ n" and ?ns = "nodes_at m h"
  from mark_levels_ok [OF tab null s] obtain f1 where
    f1: "mark_levels h s m = Some (m\<lparr>node_lists := f1\<rparr>)"
      "\<And>x. x < 2 ^ n \<Longrightarrow> f1 (bucket_addr x) = (if marks n m s h x then Chain [] else list_at m x)" by blast
  let ?m1 = "m\<lparr>node_lists := f1\<rparr>"
  have tab1: "table_ok n ?m1" using tab by simp
  have l1: "list_at ?m1 x = (if marks n m s h x then Chain [] else list_at m x)" if "x < 2 ^ n" for x
    using f1(2) [OF that] by (simp add: list_at_def)
  have lh: "list_at m h = Chain ?ns" using l(4) by (auto simp: nodes_at_def rehashed_def split: chain.splits)
  moreover have "\<not> marks n m s h h" by (simp add: marks_def)
  ultimately have chain: "node_list ?m1 h = Some (Chain ?ns)"
    using node_list_at [OF tab1 hn] l1 [OF hn] by simp
  have dest: "?c q = h \<or> marks n m s h (?c q)" if q: "q \<in> set ?ns" for q
  proof -
    from ok hn q obtain j where j: "1 \<le> j" "j \<le> n" "h = hash (fst q) mod 2 ^ j"
      and up: "\<And>j'. j \<le> j' \<Longrightarrow> j' \<le> n \<Longrightarrow> hash (fst q) mod 2 ^ j' = h \<or> \<not> rehashed m (hash (fst q) mod 2 ^ j')"
      unfolding hm_ok_def placed_def by blast
    have "h < 2 ^ j" using j(3) by simp
    then have sj: "s \<le> j" using segment_index_of_le [of j h] j(1) by (simp add: s_def)
    have mods: "?c q mod 2 ^ j' = hash (fst q) mod 2 ^ j'" if "j' \<le> n" for j'
      using that by (rule mod_mod_exp)
    have low: "hash (fst q) mod 2 ^ j' = h" if "s \<le> j'" "j' \<le> j" for j'
    proof -
      have "h < 2 ^ j'" using s(3) that(1) by (rule less_le_trans [OF _ power_increasing]) simp
      then show ?thesis using mod_mod_exp [OF that(2), of "hash (fst q)"] j(3) by simp
    qed
    have "?c q mod 2 ^ s = h" using low [of s] sj mods [OF s(2)] by simp
    moreover have "?c q mod 2 ^ j' = h \<or> \<not> rehashed m (?c q mod 2 ^ j')" if "s \<le> j'" "j' \<le> n" for j'
      using that mods [OF that(2)] low [of j'] up [of j'] by (cases "j' \<le> j") auto
    ultimately show ?thesis unfolding marks_def by blast
  qed
  have "rehashed ?m1 (?c q)" if "q \<in> set ?ns" for q
    using dest [OF that] l1 [of "?c q"] l(4) l1 [OF hn] by (auto simp: rehashed_def)
  then obtain f2 where
    f2: "spread hash (2 ^ n - 1) h ?ns ?m1 = Some (filter (\<lambda>q. ?c q = h) ?ns, ?m1\<lparr>node_lists := f2\<rparr>)"
      "\<And>x. x < 2 ^ n \<Longrightarrow> f2 (bucket_addr x) =
        (case list_at ?m1 x of
           Rehash_req \<Rightarrow> Rehash_req
         | Chain cs \<Rightarrow> Chain (if x = h then cs else rev (filter (\<lambda>q. ?c q = x) ?ns) @ cs))"
    using spread_ok [OF tab1, of ?ns hash h] by auto
  let ?f = "f2(bucket_addr h := Chain (filter (\<lambda>q. ?c q = h) ?ns))"
  let ?m' = "m\<lparr>node_lists := ?f\<rparr>"
  have "get_bucket (m\<lparr>node_lists := g\<rparr>) h = Some (bucket_addr h)" for g
    using get_bucket_addr [of n "m\<lparr>node_lists := g\<rparr>" h] tab hn by simp
  then have run: "rehash_marked hash (2 ^ n - 1) b m = Some ?m'"
    using root f1(1) chain f2(1) by (simp add: rehash_marked_def mark_rehashed_levels_def s_def set_node_list_def chain_nodes_def)
  have none: "filter (\<lambda>q. ?c q = x) ?ns = []" if "x \<noteq> h" "\<not> marks n m s h x" for x
    using dest that by (auto simp: filter_empty_conv)
  have lists: "list_at ?m' x = (if x = h then Chain (filter (\<lambda>q. ?c q = h) ?ns)
      else if marks n m s h x then Chain (rev (filter (\<lambda>q. ?c q = x) ?ns)) else list_at m x)" if "x < 2 ^ n" for x
    using f2(2) [OF that] l1 [OF that] none [of x]
    by (auto simp: list_at_def dest: bucket_addr_inj split: chain.splits)
  have "table_ok n ?m'" "my_size ?m' = my_size m" using tab by simp_all
  from rehash_levels_ok [OF ok hn l(4) s this refl dest lists]
  have "hm_ok hash n ?m' \<and> items n ?m' = items n m" by blast
  moreover have "rehashed ?m' b" using lists [OF b(2)] Mb by (simp add: rehashed_def)
  moreover have "rehashed ?m' x" if "x < 2 ^ n" "rehashed m x" for x
    using lists [OF that(1)] that(2) by (simp add: rehashed_def)
  ultimately show ?thesis using run by blast
qed

subsection \<open>Rehashing the table\<close>

lemma last_segment_step:
  assumes "2 ^ (n - 1) \<le> b" "b + 1 < 2 ^ n" "n < 64"
  shows "bucket_addr (b + 1) = (fst (bucket_addr b), snd (bucket_addr b) + 1)"
proof -
  have pow: "(2 :: nat) ^ n \<le> 2 ^ 64" using assms(3) by (intro power_increasing) simp_all
  have n: "n = Suc (n - 1)" using assms(1,2) by (cases n) auto
  have "b + 1 \<noteq> 2 ^ tbb_log2 (b + 1)"
  proof -
    have "tbb_log2 (b + 1) = n - 1"
      using assms(1,2) n by (intro tbb_log2_unique) (auto simp: le_SucI simp flip: power_Suc)
    then show ?thesis using assms(1) by simp
  qed
  then have "of_nat (b + 1) AND (of_nat (b + 1) - 2) \<noteq> (0 :: u64)"
    using first_of_segment [of "b + 1"] assms(2) pow by linarith
  from next_bucket_address [OF _ _ this] assms(2) pow show ?thesis by simp
qed

lemma rehash_loop_ok:
  assumes "hm_ok hash n m" "my_table m ! n = Null" "2 ^ (n - 1) \<le> b" "b \<le> 2 ^ n" "b < 2 ^ n \<longrightarrow> bp = bucket_addr b"
  shows "\<exists>f. rehash_loop hash (2 ^ n - 1) b bp m = Some (m\<lparr>node_lists := f\<rparr>) \<and>
    hm_ok hash n (m\<lparr>node_lists := f\<rparr>) \<and> items n (m\<lparr>node_lists := f\<rparr>) = items n m \<and>
    (\<forall>x < 2 ^ n. rehashed m x \<or> b \<le> x \<longrightarrow> rehashed (m\<lparr>node_lists := f\<rparr>) x)"
  using assms
proof (induction "2 ^ n - b" arbitrary: b bp m)
  case 0
  then have "b = 2 ^ n" by simp
  moreover have "0 < (2 :: nat) ^ n" by simp
  ultimately have "\<not> b \<le> 2 ^ n - 1" by linarith
  then have "rehash_loop hash (2 ^ n - 1) b bp m = Some (m\<lparr>node_lists := node_lists m\<rparr>)"
    by (subst rehash_loop.simps) simp
  with 0 show ?case by (intro exI [of _ "node_lists m"]) auto
next
  case (Suc d)
  then have lt: "b < 2 ^ n" and d: "d = 2 ^ n - (b + 1)" by simp_all
  have tab: "table_ok n m" and n: "n < 64" using Suc.prems(1) by (auto simp: hm_ok_def table_ok_def)
  have bp: "bp = bucket_addr b" using Suc.prems(5) lt by simp
  have next_bp: "b + 1 < 2 ^ n \<longrightarrow> (fst bp, snd bp + 1) = bucket_addr (b + 1)"
    using last_segment_step [OF Suc.prems(3) _ n] bp by auto
  have b_le: "b \<le> 2 ^ n - 1" using lt by simp
  have "\<exists>f. (case node_lists m bp of Rehash_req \<Rightarrow> rehash_marked hash (2 ^ n - 1) b m | Chain _ \<Rightarrow> Some m) = Some (m\<lparr>node_lists := f\<rparr>) \<and>
    hm_ok hash n (m\<lparr>node_lists := f\<rparr>) \<and> items n (m\<lparr>node_lists := f\<rparr>) = items n m \<and>
    rehashed (m\<lparr>node_lists := f\<rparr>) b \<and> (\<forall>x < 2 ^ n. rehashed m x \<longrightarrow> rehashed (m\<lparr>node_lists := f\<rparr>) x)"
  proof (cases "rehashed m b")
    case True
    then obtain cs where "node_lists m bp = Chain cs"
      using bp by (cases "node_lists m bp") (auto simp: rehashed_def list_at_def)
    with True Suc.prems(1) show ?thesis by (intro exI [of _ "node_lists m"]) simp
  next
    case False
    then have "1 < b" using Suc.prems(1) by (cases "b = 0"; cases "b = 1") (auto simp: hm_ok_def)
    moreover have "node_lists m bp = Rehash_req" using False bp by (simp add: rehashed_def list_at_def)
    ultimately show ?thesis
      using rehash_marked_ok [OF Suc.prems(1,2) _ lt False] by simp
  qed
  then obtain f where f: "(case node_lists m bp of Rehash_req \<Rightarrow> rehash_marked hash (2 ^ n - 1) b m | Chain _ \<Rightarrow> Some m) = Some (m\<lparr>node_lists := f\<rparr>)"
    "hm_ok hash n (m\<lparr>node_lists := f\<rparr>)" "items n (m\<lparr>node_lists := f\<rparr>) = items n m"
    "rehashed (m\<lparr>node_lists := f\<rparr>) b" "\<forall>x < 2 ^ n. rehashed m x \<longrightarrow> rehashed (m\<lparr>node_lists := f\<rparr>) x" by blast
  let ?m1 = "m\<lparr>node_lists := f\<rparr>"
  have b1: "2 ^ (n - 1) \<le> b + 1" "b + 1 \<le> 2 ^ n" using Suc.prems(3) lt by simp_all
  have "my_table ?m1 ! n = Null" using Suc.prems(2) by simp
  from Suc.hyps(1) [OF d f(2) this b1 next_bp] obtain g where
    g: "rehash_loop hash (2 ^ n - 1) (b + 1) (fst bp, snd bp + 1) ?m1 = Some (?m1\<lparr>node_lists := g\<rparr>)"
      "hm_ok hash n (?m1\<lparr>node_lists := g\<rparr>)" "items n (?m1\<lparr>node_lists := g\<rparr>) = items n ?m1"
      "\<forall>x < 2 ^ n. rehashed ?m1 x \<or> b + 1 \<le> x \<longrightarrow> rehashed (?m1\<lparr>node_lists := g\<rparr>) x" by blast
  have "rehash_loop hash (2 ^ n - 1) b bp m = Some (m\<lparr>node_lists := g\<rparr>)"
    using b_le f(1) g(1) by (subst rehash_loop.simps) simp
  moreover have "rehashed (m\<lparr>node_lists := g\<rparr>) x" if "x < 2 ^ n" "rehashed m x \<or> b \<le> x" for x
    using that f(4,5) g(4) by (cases "x = b") auto
  ultimately show ?case using g(2,3) f(3) by (intro exI [of _ g]) auto
qed

text \<open>When the last segment is rehashed, so is everything above it.\<close>

lemma last_rehashed_all:
  assumes ok: "hm_ok hash n m" and last: "\<And>x. 2 ^ (n - 1) \<le> x \<Longrightarrow> x < 2 ^ n \<Longrightarrow> rehashed m x" and x: "x < 2 ^ n"
  shows "rehashed m x"
proof (cases "2 ^ (n - 1) \<le> x \<or> x = 0")
  case True
  then show ?thesis using last x ok by (auto simp: hm_ok_def)
next
  case False
  then have lt: "x < 2 ^ (n - 1)" "0 < x" by simp_all
  have "n = Suc (n - 1)" using hm_okD(4) [OF ok] by simp
  then have pow: "(2 :: nat) ^ n = 2 ^ (n - 1) + 2 ^ (n - 1)" by (metis mult_2 power_Suc)
  have big: "x + 2 ^ (n - 1) < 2 ^ n" "1 < x + 2 ^ (n - 1)" "2 ^ (n - 1) \<le> x + 2 ^ (n - 1)" using lt pow by simp_all
  from last [OF big(3,1)] big ok have "rehashed m (parent (x + 2 ^ (n - 1)))" unfolding hm_ok_def by blast
  then show ?thesis using parent_add [OF lt(1)] by simp
qed

subsection \<open>Reserving buckets\<close>

text \<open>No thread is about to enable a segment.\<close>

definition no_growth :: "('k, 'v) hash_map \<Rightarrow> bool" where
  "no_growth m \<longleftrightarrow> Claimed \<notin> set (my_table m)"

lemma no_growth_null: "hm_ok hash n m \<Longrightarrow> no_growth m \<Longrightarrow> my_table m ! n = Null"
proof -
  assume ok: "hm_ok hash n m" and g: "no_growth m"
  have "my_table m ! n \<in> {Null, Claimed}" "n < 64" "length (my_table m) = 64"
    using hm_okD(1) [OF ok] by (simp_all add: table_ok_def)
  with g show ?thesis unfolding no_growth_def by (metis insert_iff nth_mem singletonD)
qed

lemma fold_update_set: "Claimed \<notin> set tab \<Longrightarrow> Claimed \<notin> set (fold (\<lambda>i tab. tab[i := Seg k (f i)]) is tab)"
proof (induction "is" arbitrary: tab)
  case (Cons i "is")
  have "Claimed \<notin> set (tab[i := Seg k (f i)])"
    using Cons.prems set_update_subset_insert [of tab i "Seg k (f i)"] by auto
  with Cons.IH show ?case by simp
qed simp

lemma no_growth_enable: "no_growth m \<Longrightarrow> enable_segment alloc k init m = (r, m') \<Longrightarrow> no_growth m'"
  using set_update_subset_insert [of "my_table m" k "Seg k 0"] set_update_subset_insert [of "my_table m" k Null]
  by (auto simp: no_growth_def enable_segment_def Let_def fold_update_set split: if_splits)

text \<open>An empty table whose buckets are all rehashed grows by buckets that need no rehashing.\<close>

lemma grow_empty_ok:
  assumes ok: "hm_ok hash n m" and n: "next_bits n \<le> 32" and e: "enable_segment alloc n True m = (True, m')"
    and empty: "my_size m = 0" and all: "\<And>x. x < 2 ^ n \<Longrightarrow> rehashed m x"
  shows "hm_ok hash (next_bits n) m' \<and> my_size m' = 0 \<and> (\<forall>x < 2 ^ next_bits n. rehashed m' x \<and> nodes_at m' x = [])"
proof -
  have tab: "table_ok n m" by (rule hm_okD [OF ok])
  have n64: "next_bits n < 64" using n by simp
  have none: "nodes_at m x = []" if "x < 2 ^ n" for x
    using ok empty that by (simp add: hm_ok_def)
  have lists: "list_at m' x = (if 2 ^ n \<le> x then Chain [] else list_at m x)" if "x < 2 ^ next_bits n" for x
    using enable_segment_lists [OF tab n64 e that] by simp
  have new: "rehashed m' x \<and> nodes_at m' x = []" if "x < 2 ^ next_bits n" for x
    using lists [OF that] all [of x] none [of x] by (auto simp: rehashed_def nodes_at_def)
  have size: "my_size m' = 0" using enable_segment_size [of alloc n True m] e empty by simp
  have "1 \<le> next_bits n" by (simp add: next_bits_def)
  then have "(1 :: nat) < 2 ^ next_bits n" by (intro one_less_power) simp_all
  moreover have "parent x < 2 ^ next_bits n" if "x < 2 ^ next_bits n" "1 < x" for x
    using parent_lt [of x] that by simp
  ultimately show ?thesis
    using enable_segment_mask_table [OF tab n64 e] n new size by (simp add: hm_ok_def)
qed

definition growable :: "nat \<Rightarrow> ('k, 'v) hash_map \<Rightarrow> bool" where
  "growable n m \<longleftrightarrow> no_growth m \<and> (my_size m = 0 \<longrightarrow> (\<forall>x < 2 ^ n. rehashed m x))"

lemma empty_items: "hm_ok hash n m \<Longrightarrow> my_size m = 0 \<Longrightarrow> items n m = {}"
  by (auto simp: hm_ok_def items_def)

lemma grow_step:
  assumes ok: "hm_ok hash n m" "growable n m" and n: "next_bits n \<le> 32"
    and e: "enable_segment alloc n (my_size m = 0) m = (True, m')"
  shows "hm_ok hash (next_bits n) m' \<and> growable (next_bits n) m' \<and> items (next_bits n) m' = items n m \<and> my_size m' = my_size m"
proof -
  have g: "no_growth m'" using no_growth_enable [OF _ e] ok(2) by (simp add: growable_def)
  have size: "my_size m' = my_size m" using enable_segment_size [of alloc n "my_size m = 0" m] e by simp
  show ?thesis
  proof (cases "my_size m = 0")
    case True
    with e ok grow_empty_ok [OF ok(1) n, of alloc m'] have m': "hm_ok hash (next_bits n) m'" "\<forall>x < 2 ^ next_bits n. rehashed m' x"
      by (simp_all add: growable_def)
    with True ok(1) g size empty_items [OF m'(1)] empty_items [OF ok(1)] show ?thesis by (simp add: growable_def)
  next
    case False
    with e grow_ok [OF ok(1) n, of alloc m'] g size show ?thesis by (simp add: growable_def)
  qed
qed

text \<open>A failed allocation leaves the table as it was, apart from its segment.\<close>

lemma failed_step:
  assumes ok: "hm_ok hash n m" "growable n m" and e: "enable_segment alloc n init m = (False, m')"
  shows "hm_ok hash n m' \<and> growable n m' \<and> items n m' = items n m \<and> my_size m' = my_size m"
proof -
  have l: "table_ok n m'" "list_at m' = list_at m" "my_size m' = my_size m"
    using enable_segment_fails [OF hm_okD(1) [OF ok(1)] e] by simp_all
  moreover from this(2) have "rehashed m' x = rehashed m x" for x by (simp add: rehashed_def)
  ultimately show ?thesis
    using hm_ok_cong [OF ok(1) l] no_growth_enable [OF _ e] ok(2) by (simp add: growable_def)
qed

lemma reserve_loop_any:
  assumes "hm_ok hash n m" "growable n m" "buckets < 2 ^ 31" "init = (my_size m = 0)"
  shows "\<exists>n' ok m'. reserve_loop alloc buckets init m = Some (ok, m') \<and> hm_ok hash n' m' \<and> growable n' m' \<and>
    items n' m' = items n m \<and> my_size m' = my_size m \<and> ((\<forall>sz. alloc sz) \<longrightarrow> ok) \<and> (ok \<longrightarrow> buckets \<le> my_mask m') \<and>
    n \<le> n' \<and> (n < 32 \<longrightarrow> n' < 32)"
  using assms
proof (induction "32 - n" arbitrary: n m rule: less_induct)
  case less
  have mask: "my_mask m + 1 = 2 ^ n" and n: "1 \<le> n" "n \<le> 32" using hm_okD [OF less.prems(1)] by simp_all
  show ?case
  proof (cases "buckets > my_mask m")
    case False
    then have "reserve_loop alloc buckets init m = Some (True, m)" by (subst reserve_loop.simps) simp
    with False less.prems show ?thesis by (intro exI [of _ n] exI [of _ True] exI [of _ m]) simp
  next
    case True
    then have "(2 :: nat) ^ n < 2 ^ 31" using mask less.prems(3) by linarith
    then have n31: "n < 31" by (subst (asm) power_strict_increasing_iff) simp_all
    then have next_n: "next_bits n \<le> 31" "n < next_bits n" by (auto simp: next_bits_def)
    have seg: "segment_index_of (my_mask m + 1) = n" unfolding mask using n(1) by (intro segment_index_of_pos) simp_all
    obtain r m1 where e: "enable_segment alloc n init m = (r, m1)" by (cases "enable_segment alloc n init m")
    have all: "(\<forall>sz. alloc sz) \<longrightarrow> r" using e by (auto simp: enable_segment_def Let_def split: if_splits)
    show ?thesis
    proof (cases r)
      case False
      have "reserve_loop alloc buckets init m = Some (False, m1)"
        using True e False seg by (subst reserve_loop.simps) simp
      with failed_step [OF less.prems(1,2), of alloc init m1] e False all show ?thesis
        by (intro exI [of _ n] exI [of _ False] exI [of _ m1]) simp
    next
      case r: True
      with e less.prems(4) have "enable_segment alloc n (my_size m = 0) m = (True, m1)" by simp
      from grow_step [OF less.prems(1,2) _ this] next_n have
        m1: "hm_ok hash (next_bits n) m1" "growable (next_bits n) m1" "items (next_bits n) m1 = items n m" "my_size m1 = my_size m"
        by auto
      have "32 - next_bits n < 32 - n" using next_n by linarith
      from less.hyps [OF this m1(1,2) less.prems(3)] m1(4) less.prems(4) obtain n' ok m' where
        "reserve_loop alloc buckets init m1 = Some (ok, m')" "hm_ok hash n' m'" "growable n' m'"
        "items n' m' = items (next_bits n) m1" "my_size m' = my_size m1" "(\<forall>sz. alloc sz) \<longrightarrow> ok"
        "ok \<longrightarrow> buckets \<le> my_mask m'" "next_bits n \<le> n'" "next_bits n < 32 \<longrightarrow> n' < 32" by auto
      moreover have "reserve_loop alloc buckets init m = reserve_loop alloc buckets init m1"
        using True e r seg by (subst reserve_loop.simps) simp
      ultimately show ?thesis using m1 next_n by (intro exI [of _ n'] exI [of _ ok] exI [of _ m']) auto
    qed
  qed
qed

lemma reserve_any:
  assumes "hm_ok hash n m" "growable n m" "buckets \<le> 2 ^ 31"
  shows "\<exists>n' ok m'. reserve alloc buckets m = Some (ok, m') \<and> hm_ok hash n' m' \<and> growable n' m' \<and>
    items n' m' = items n m \<and> my_size m' = my_size m \<and> ((\<forall>sz. alloc sz) \<longrightarrow> ok) \<and> (ok \<longrightarrow> buckets \<le> my_mask m' + 1) \<and>
    n \<le> n' \<and> (n < 32 \<longrightarrow> n' < 32)"
proof (cases "buckets = 0")
  case True
  with assms show ?thesis by (intro exI [of _ n] exI [of _ True] exI [of _ m]) (simp add: reserve_def)
next
  case False
  with assms(3) have "buckets - 1 < 2 ^ 31" by simp
  from reserve_loop_any [OF assms(1,2) this refl, of alloc] obtain n' ok m' where
    "reserve_loop alloc (buckets - 1) (my_size m = 0) m = Some (ok, m')" "hm_ok hash n' m'" "growable n' m'"
    "items n' m' = items n m" "my_size m' = my_size m" "(\<forall>sz. alloc sz) \<longrightarrow> ok" "ok \<longrightarrow> buckets - 1 \<le> my_mask m'"
    "n \<le> n'" "n < 32 \<longrightarrow> n' < 32" by blast
  with False show ?thesis by (intro exI [of _ n'] exI [of _ ok] exI [of _ m']) (auto simp: reserve_def)
qed

lemma reserve_ok:
  assumes "hm_ok hash n m" "growable n m" "\<forall>sz. alloc sz" "buckets \<le> 2 ^ 31"
  shows "\<exists>n' m'. reserve alloc buckets m = Some (True, m') \<and> hm_ok hash n' m' \<and> growable n' m' \<and>
    items n' m' = items n m \<and> my_size m' = my_size m \<and> buckets \<le> my_mask m' + 1 \<and> n \<le> n' \<and> (n < 32 \<longrightarrow> n' < 32)"
  using reserve_any [OF assms(1,2,4), of alloc] assms(3) by auto

lemma reserve_nothing: "sz \<le> my_mask m + 1 \<Longrightarrow> reserve alloc sz m = Some (True, m)"
  by (subst reserve_def, subst reserve_loop.simps) auto

subsection \<open>The whole operation\<close>

lemma step_bucket_next:
  assumes "table_ok n m" "k < 2 ^ n" "0 < k \<longrightarrow> bp = bucket_addr (k - 1)"
  shows "step_bucket m k bp = Some (bucket_addr k)"
proof (cases "k = 0")
  case True
  with get_bucket_addr [OF assms(1,2)] show ?thesis by (simp add: step_bucket_def)
next
  case False
  have "(2 :: nat) ^ n \<le> 2 ^ 64" using assms(1) by (intro power_increasing) (simp_all add: table_ok_def)
  with assms(2) have "k < 2 ^ 64" by linarith
  with False assms get_bucket_addr [OF assms(1,2)] next_bucket_address [of k] show ?thesis
    by (simp add: step_bucket_def)
qed

lemma buckets_from_eq:
  assumes "table_ok n m" "k + l \<le> 2 ^ n" "0 < k \<longrightarrow> bp = bucket_addr (k - 1)"
  shows "buckets_from m l k bp = Some (map bucket_addr [k..<k + l])"
  using assms(2,3)
proof (induction l arbitrary: k bp)
  case (Suc l)
  have "step_bucket m k bp = Some (bucket_addr k)"
    using Suc.prems by (intro step_bucket_next [OF assms(1)]) simp_all
  moreover have "buckets_from m l (k + 1) (bucket_addr k) = Some (map bucket_addr [k + 1..<k + 1 + l])"
    using Suc.prems by (intro Suc.IH) simp_all
  ultimately show ?case using upt_conv_Cons [of k "k + Suc l"] by (simp del: upt_Suc)
qed simp

lemma placed_rehashed:
  assumes "placed n m c i" "rehashed m (c mod 2 ^ n)"
  shows "i = c mod 2 ^ n"
  using assms unfolding placed_def by (metis order_refl)

lemma rehash_assertions_ok:
  assumes ok: "hm_ok hash n m" and all: "\<And>x. x < 2 ^ n \<Longrightarrow> rehashed m x"
  shows "rehash_assertions hash m = Some True"
proof -
  have tab: "table_ok n m" and mask: "my_mask m + 1 = 2 ^ n" "my_mask m = 2 ^ n - 1"
    using hm_okD [OF ok] by (simp_all add: table_ok_def)
  have "buckets_from m (2 ^ n) 0 (0, 0) = Some (map bucket_addr [0..<2 ^ n])"
    using buckets_from_eq [OF tab, of 0 "2 ^ n" "(0, 0)"] by simp
  moreover have "case node_lists m (bucket_addr x) of Rehash_req \<Rightarrow> False
      | Chain ns \<Rightarrow> list_all (\<lambda>q. hash (fst q) AND my_mask m = x) ns" if x: "x < 2 ^ n" for x
  proof -
    have "hash (fst q) mod 2 ^ n = x" if "q \<in> set (nodes_at m x)" for q
      using placed_rehashed [of n m "hash (fst q)" x] all [of "hash (fst q) mod 2 ^ n"] ok x that by (auto simp: hm_ok_def)
    then show ?thesis
      using all [OF x] unfolding mask(2) and_mask_mod
      by (auto simp: rehashed_def nodes_at_def list_at_def list_all_iff split: chain.splits)
  qed
  ultimately show ?thesis
    unfolding rehash_assertions_def mask(1) by (simp add: zip_map2 zip_same_conv_map list.pred_map comp_def) (simp add: list_all_iff)
qed

lemma rehash_reserved:
  assumes r: "reserve alloc sz m = Some (True, m1)" and ok: "hm_ok hash n m1" and g: "no_growth m1"
  shows "\<exists>f. rehash hash alloc sz m = Some (True, m1\<lparr>node_lists := f\<rparr>) \<and> hm_ok hash n (m1\<lparr>node_lists := f\<rparr>) \<and>
    items n (m1\<lparr>node_lists := f\<rparr>) = items n m1 \<and> (\<forall>x < 2 ^ n. rehashed (m1\<lparr>node_lists := f\<rparr>) x)"
proof -
  have tab: "table_ok n m1" and mask: "my_mask m1 + 1 = 2 ^ n" "my_mask m1 = 2 ^ n - 1" and n1: "1 \<le> n"
    using hm_okD [OF ok] by (simp_all add: table_ok_def)
  have "2 ^ n = 2 * (2 :: nat) ^ (n - 1)" using n1 by (metis Suc_diff_1 less_le_trans zero_less_one power_Suc)
  then have half: "(my_mask m1 + 1) div 2 = 2 ^ (n - 1)" "(2 :: nat) ^ (n - 1) < 2 ^ n" unfolding mask(1) by simp_all
  have bp: "get_bucket m1 (2 ^ (n - 1)) = Some (bucket_addr (2 ^ (n - 1)))" by (rule get_bucket_addr [OF tab half(2)])
  have null: "my_table m1 ! n = Null" by (rule no_growth_null [OF ok g])
  from rehash_loop_ok [OF ok null order_refl less_imp_le [OF half(2)], of "bucket_addr (2 ^ (n - 1))"] obtain f where
    f: "rehash_loop hash (2 ^ n - 1) (2 ^ (n - 1)) (bucket_addr (2 ^ (n - 1))) m1 = Some (m1\<lparr>node_lists := f\<rparr>)"
      "hm_ok hash n (m1\<lparr>node_lists := f\<rparr>)" "items n (m1\<lparr>node_lists := f\<rparr>) = items n m1"
      "\<forall>x < 2 ^ n. rehashed m1 x \<or> 2 ^ (n - 1) \<le> x \<longrightarrow> rehashed (m1\<lparr>node_lists := f\<rparr>) x" by blast
  have "\<forall>x < 2 ^ n. rehashed (m1\<lparr>node_lists := f\<rparr>) x"
    using last_rehashed_all [OF f(2)] f(4) by blast
  moreover have "rehash hash alloc sz m = Some (True, m1\<lparr>node_lists := f\<rparr>)"
    using r f(1) bp unfolding rehash_def half(1) mask(2) [symmetric] by (simp add: Let_def half(1) [unfolded add_Suc_right add_0_right One_nat_def])
  ultimately show ?thesis using f(2,3) by blast
qed

definition all_rehashed :: "('k, 'v) hash_map \<Rightarrow> bool" where
  "all_rehashed m \<longleftrightarrow> (\<forall>x \<le> my_mask m. node_list m x \<noteq> Some Rehash_req)"

lemma all_rehashed_iff: "hm_ok hash n m \<Longrightarrow> all_rehashed m \<longleftrightarrow> (\<forall>x < 2 ^ n. rehashed m x)"
proof -
  assume ok: "hm_ok hash n m"
  have "x \<le> my_mask m \<longleftrightarrow> x < 2 ^ n" for x using hm_okD(3) [OF ok] by linarith
  then show ?thesis
    using node_list_at [OF hm_okD(1) [OF ok]] by (auto simp: all_rehashed_def rehashed_def)
qed

lemma growableI: "hm_ok hash n m \<Longrightarrow> no_growth m \<Longrightarrow> (my_size m = 0 \<longrightarrow> all_rehashed m) \<Longrightarrow> growable n m"
  using all_rehashed_iff by (auto simp: growable_def)

lemma rehash_done:
  assumes "reserve alloc sz m = Some (True, m1)" "hm_ok hash n m" "hm_ok hash n1 m1" "no_growth m1"
    "items n1 m1 = items n m" "sz \<le> my_mask m1 + 1"
  shows "\<exists>m'. rehash hash alloc sz m = Some (True, m') \<and> hm_valid hash m' \<and> hm_abs m' = hm_abs m \<and>
    sz \<le> my_mask m' + 1 \<and> all_rehashed m' \<and> rehash_assertions hash m' = Some True"
proof -
  from rehash_reserved [OF assms(1,3,4)] obtain f where
    r: "rehash hash alloc sz m = Some (True, m1\<lparr>node_lists := f\<rparr>)" "hm_ok hash n1 (m1\<lparr>node_lists := f\<rparr>)"
      "items n1 (m1\<lparr>node_lists := f\<rparr>) = items n1 m1" "\<forall>x < 2 ^ n1. rehashed (m1\<lparr>node_lists := f\<rparr>) x" by blast
  have "hm_abs (m1\<lparr>node_lists := f\<rparr>) = hm_abs m"
    by (rule hm_abs_same [OF assms(2) r(2)]) (simp add: r(3) assms(5))
  moreover have "hm_valid hash (m1\<lparr>node_lists := f\<rparr>)" using r(2) by (auto simp: hm_valid_def)
  moreover have "all_rehashed (m1\<lparr>node_lists := f\<rparr>)" using all_rehashed_iff [OF r(2)] r(4) by blast
  moreover have "rehash_assertions hash (m1\<lparr>node_lists := f\<rparr>) = Some True"
    by (rule rehash_assertions_ok [OF r(2)]) (simp add: r(4))
  ultimately show ?thesis using r(1) assms(6) by auto
qed

text \<open>
  C29. Rehashing a table to at most \<open>2 ^ 31\<close> buckets, which grows it first when it has fewer, keeps
  its contents, whether allocations succeed or not.  It only fails when the allocation of a
  segment fails; otherwise the table has at least the requested number of buckets afterwards,
  none of them is marked, and the assertions at the end of a build that checks them hold.  No
  other thread may be about to enable a segment, and an empty table has to be free of marks
  already if it has to grow (\<open>rehash_emptied\<close> shows what happens when it is not).
\<close>

theorem rehash_correct:
  assumes "hm_valid hash m" "no_growth m" "my_size m = 0 \<and> my_mask m + 1 < sz \<longrightarrow> all_rehashed m" "sz \<le> 2 ^ 31"
  shows "\<exists>ok m'. rehash hash alloc sz m = Some (ok, m') \<and> hm_valid hash m' \<and> hm_abs m' = hm_abs m \<and>
    ((\<forall>k. alloc k) \<longrightarrow> ok) \<and>
    (ok \<longrightarrow> sz \<le> my_mask m' + 1 \<and> all_rehashed m' \<and> rehash_assertions hash m' = Some True)"
proof -
  from assms(1) obtain n where ok: "hm_ok hash n m" by (auto simp: hm_valid_def)
  show ?thesis
  proof (cases "sz \<le> my_mask m + 1")
    case True
    from rehash_done [OF reserve_nothing [OF True, of alloc] ok ok assms(2) refl True] show ?thesis by blast
  next
    case False
    with assms(3) have "my_size m = 0 \<longrightarrow> all_rehashed m" by simp
    from reserve_any [OF ok growableI [OF ok assms(2) this] assms(4), of alloc] obtain n1 b m1 where
      r: "reserve alloc sz m = Some (b, m1)" "hm_ok hash n1 m1" "growable n1 m1" "items n1 m1 = items n m"
        "(\<forall>k. alloc k) \<longrightarrow> b" "b \<longrightarrow> sz \<le> my_mask m1 + 1" by blast
    show ?thesis
    proof (cases b)
      case True
      with r rehash_done [OF _ ok r(2) _ r(4), of alloc sz] show ?thesis by (auto simp: growable_def)
    next
      case False
      have "hm_abs m1 = hm_abs m" by (rule hm_abs_same [OF ok r(2,4)])
      moreover have "hm_valid hash m1" using r(2) by (auto simp: hm_valid_def)
      moreover have "rehash hash alloc sz m = Some (False, m1)" using r(1) False by (simp add: rehash_def)
      ultimately show ?thesis using r(5) False by (intro exI [of _ False] exI [of _ m1]) simp
    qed
  qed
qed

theorem rehash_correct_witness:
  "\<exists>m'. rehash id (\<lambda>_. True) 1000 sample_table = Some (True, m') \<and> hm_abs m' = [5 \<mapsto> 7] \<and> 1000 \<le> my_mask m' + 1 \<and>
    all_rehashed m'"
proof -
  have "no_growth sample_table \<and> my_size sample_table = 1" unfolding no_growth_def by code_simp
  with rehash_correct [OF sample_valid(1), of 1000 "\<lambda>_. True"] sample_valid(2) show ?thesis by auto
qed

subsection \<open>A table that has become empty\<close>

lemma rehash_loop_nothing:
  assumes "table_ok n m" "2 ^ (n - 1) \<le> b" "b \<le> 2 ^ n" "b < 2 ^ n \<longrightarrow> bp = bucket_addr b"
    and "\<And>x. b \<le> x \<Longrightarrow> x < 2 ^ n \<Longrightarrow> rehashed m x"
  shows "rehash_loop hash (2 ^ n - 1) b bp m = Some m"
  using assms(2-)
proof (induction "2 ^ n - b" arbitrary: b bp)
  case 0
  have "0 < (2 :: nat) ^ n" by simp
  with 0 have "\<not> b \<le> 2 ^ n - 1" by linarith
  then show ?case by (subst rehash_loop.simps) simp
next
  case (Suc d)
  then have lt: "b < 2 ^ n" and d: "d = 2 ^ n - (b + 1)" by simp_all
  have n: "n < 64" using assms(1) by (simp add: table_ok_def)
  have "rehashed m b" using Suc.prems(4) lt by simp
  then obtain cs where "node_lists m bp = Chain cs"
    using Suc.prems(3) lt by (cases "node_lists m bp") (auto simp: rehashed_def list_at_def)
  moreover have "rehash_loop hash (2 ^ n - 1) (b + 1) (fst bp, snd bp + 1) m = Some m"
    using Suc.prems lt last_segment_step [OF Suc.prems(1) _ n] by (intro Suc.hyps(1) [OF d]) auto
  moreover have "b \<le> 2 ^ n - 1" using lt by linarith
  ultimately show ?case by (subst rehash_loop.simps) simp
qed

text \<open>
  When the last item has been removed, \<^verbatim>\<open>reserve\<close> takes the table for one that was never used
  and adds buckets that count as rehashed; \<^verbatim>\<open>rehash\<close> looks at the last segment only, so older
  marks stay, and the assertions at its end fail.
\<close>

theorem rehash_emptied:
  assumes "hm_valid hash m" "my_size m = 0" "x \<le> my_mask m" "node_list m x = Some Rehash_req"
    and "my_mask m + 1 < sz" "sz \<le> 2 * (my_mask m + 1)" "sz \<le> 2 ^ 31" "\<forall>sz. alloc sz"
  shows "\<exists>m'. rehash hash alloc sz m = Some (True, m') \<and> node_list m' x = Some Rehash_req \<and>
    rehash_assertions hash m' = Some False"
proof -
  from assms(1) obtain n where ok: "hm_ok hash n m" by (auto simp: hm_valid_def)
  have tab: "table_ok n m" and mask: "my_mask m + 1 = 2 ^ n" by (rule hm_okD [OF ok])+
  have x: "x < 2 ^ n" "\<not> rehashed m x"
    using assms(3,4) mask node_list_at [OF tab, of x] by (simp_all add: rehashed_def)
  have "n \<noteq> 1"
  proof
    assume "n = 1"
    with x ok show False by (cases "x = 0") (auto simp: hm_ok_def less_2_cases_iff)
  qed
  then have n8: "8 \<le> n" "next_bits n = Suc n" using tab by (simp_all add: table_ok_def next_bits_def)
  have "(2 :: nat) ^ n < 2 ^ 31" using assms(5,7) mask by linarith
  then have n31: "n < 31" by (subst (asm) power_strict_increasing_iff) simp_all
  have seg: "segment_index_of (my_mask m + 1) = n" unfolding mask using n8 by (intro segment_index_of_pos) simp_all
  obtain r m1 where e: "enable_segment alloc n True m = (r, m1)" by (cases "enable_segment alloc n True m")
  then have r: r using assms(8) by (auto simp: enable_segment_def Let_def split: if_splits)
  have next_n: "next_bits n < 64" using n31 n8 by simp
  have tab1: "table_ok (Suc n) m1"
    using enable_segment_mask_table [OF tab next_n] e r n8 by simp
  have lists: "list_at m1 y = (if 2 ^ n \<le> y then Chain [] else list_at m y)" if "y < 2 ^ Suc n" for y
    using enable_segment_lists [OF tab next_n, of alloc True m1 y] e r n8 that by simp
  have mask1: "my_mask m1 = 2 ^ Suc n - 1" using tab1 by (simp add: table_ok_def)
  have big: "\<not> sz - 1 > my_mask m1" using assms(6) mask mask1 by simp
  have "sz - 1 > my_mask m" using assms(5) by simp
  then have "reserve alloc sz m = Some (True, m1)"
    using assms(2) seg e r big by (subst reserve_def) (simp add: reserve_loop.simps [of alloc _ True])
  moreover have "(my_mask m1 + 1) div 2 = 2 ^ n" unfolding mask1 by simp
  moreover have "get_bucket m1 (2 ^ n) = Some (bucket_addr (2 ^ n))" by (rule get_bucket_addr [OF tab1]) simp
  moreover have "rehash_loop hash (2 ^ Suc n - 1) (2 ^ n) (bucket_addr (2 ^ n)) m1 = Some m1"
    using lists by (intro rehash_loop_nothing [OF tab1]) (simp_all add: rehashed_def)
  ultimately have "rehash hash alloc sz m = Some (True, m1)"
    unfolding rehash_def by (simp add: Let_def mask1 del: One_nat_def power_Suc)
  moreover have "list_at m1 x = Rehash_req" using lists [of x] x by (simp add: rehashed_def)
  moreover have "node_list m1 x = Some (list_at m1 x)" using node_list_at [OF tab1, of x] x by simp
  moreover have "buckets_from m1 (2 ^ Suc n) 0 (0, 0) = Some (map bucket_addr [0..<2 ^ Suc n])"
    using buckets_from_eq [OF tab1, of 0 "2 ^ Suc n" "(0, 0)"] by simp
  moreover have N: "my_mask m1 + 1 = 2 ^ Suc n" by (simp add: mask1)
  ultimately show ?thesis
    using x(1) unfolding rehash_assertions_def
    by (intro exI [of _ m1]) (simp add: N zip_map2 zip_same_conv_map list.pred_map comp_def list_at_def
        del: power_Suc One_nat_def Suc_eq_plus1 add_Suc_right,
      auto simp: list_all_iff intro!: bexI [of _ x])
qed

theorem rehash_emptied_witness:
  "\<exists>m m'. rehash id (\<lambda>_. True) 300 (m :: (nat, nat) hash_map) = Some (True, m') \<and> rehash_assertions id m' = Some False"
proof -
  define m where "m = snd (the (hm_erase id 5 sample_table))"
  have "mask_of sample_table (my_mask sample_table)" by (rule mask_of_self [OF sample_valid(1)])
  from erase_abs [OF sample_valid(1) this, of 5] have "hm_valid id m" by (auto simp: m_def hm_erase_def)
  moreover have "my_size m = 0" "my_mask m = 255" "node_list m 2 = Some Rehash_req"
    unfolding m_def by code_simp+
  ultimately show ?thesis using rehash_emptied [of id m 2 300 "\<lambda>_. True"] by auto
qed

end
