(* ===== verification/Hash_Whole.thy ===== *)
theory Hash_Whole
  imports Hash_Rehash "HOL-Library.Multiset"
begin

text \<open>
  The operations of \<^verbatim>\<open>tbb::concurrent_hash_map\<close> on whole tables
  (\<^verbatim>\<open>src/src/tbb/include/tbb/concurrent_hash_map.h\<close>): clearing, copying and assignment, comparison and
  exchange.  They are not made for concurrent use, so each is a single step.
\<close>

subsection \<open>Clearing\<close>

text \<open>
  One segment: the nodes of its chains are deleted, from the front of each chain, and the memory of
  the block is returned where the segment owns it (pointer and number of buckets).
\<close>

definition clear_segment ::
  "nat \<Rightarrow> ('k, 'v) hash_map \<Rightarrow> (('k \<times> 'v) list \<times> ((nat \<times> int) \<times> nat) list \<times> ('k, 'v) hash_map) option" where
  "clear_segment s m =
     (case my_table m ! s of
        Seg b i \<Rightarrow>
          let sz = segment_size (if s \<noteq> 0 then s else 1);
              buckets = map (\<lambda>j. (b, i + int j)) [0..<sz];
              deleted = concat (map (\<lambda>a. case node_lists m a of Chain ns \<Rightarrow> ns | Rehash_req \<Rightarrow> []) buckets);
              lists = (\<lambda>a. if a \<in> set buckets \<and> node_lists m a \<noteq> Rehash_req then Chain [] else node_lists m a);
              freed = (if s \<ge> first_block then [((b, i), sz)]
                       else if s = embedded_block \<and> embedded_block \<noteq> first_block
                       then [((b, i), segment_size first_block - embedded_buckets)] else []);
              table = (if s \<ge> embedded_block then (my_table m)[s := Null] else my_table m)
          in Some (deleted, freed, m\<lparr>node_lists := lists, my_table := table\<rparr>)
      | _ \<Rightarrow> None)"

fun clear_loop ::
  "nat \<Rightarrow> ('k, 'v) hash_map \<Rightarrow> (('k \<times> 'v) list \<times> ((nat \<times> int) \<times> nat) list \<times> ('k, 'v) hash_map) option" where
  "clear_loop 0 m = clear_segment 0 m"
| "clear_loop (Suc s) m =
     do { (ns, bs, m) \<leftarrow> clear_segment (Suc s) m;
          (ns', bs', m) \<leftarrow> clear_loop s m;
          Some (ns @ ns', bs @ bs', m) }"

definition clear ::
  "('k, 'v) hash_map \<Rightarrow> (('k \<times> 'v) list \<times> ((nat \<times> int) \<times> nat) list \<times> ('k, 'v) hash_map) option" where
  "clear m =
     (let s = segment_index_of (my_mask m)
      in if my_mask m AND (my_mask m + 1) = 0 \<and> (s + 1 = pointers_per_table \<or> my_table m ! (s + 1) = Null)
         then do { (ns, bs, m) \<leftarrow> clear_loop s (m\<lparr>my_size := 0\<rparr>);
                   Some (ns, bs, m\<lparr>my_mask := embedded_buckets - 1\<rparr>) }
         else None)"

subsection \<open>Copying\<close>

definition copy_node :: "('k \<Rightarrow> nat) \<Rightarrow> nat \<Rightarrow> 'k \<times> 'v \<Rightarrow> ('k, 'v) hash_map \<Rightarrow> ('k, 'v) hash_map option" where
  "copy_node hash msk n m =
     do { c \<leftarrow> Option.bind (node_list m (hash (fst n) AND msk)) (add_to_bucket n);
          m \<leftarrow> set_node_list (hash (fst n) AND msk) c m;
          Some (m\<lparr>my_size := my_size m + 1\<rparr>) }"

text \<open>The items of the table \<open>src\<close> from an iterator on.\<close>

partial_function (option) copy_range ::
  "('k \<Rightarrow> nat) \<Rightarrow> ('k, 'v) hash_map \<Rightarrow> nat \<Rightarrow> ('k, 'v) iterator \<Rightarrow> ('k, 'v) hash_map \<Rightarrow> ('k, 'v) hash_map option" where
  "copy_range hash src msk it m =
     (case snd it of
        None \<Rightarrow> Some m
      | Some bn \<Rightarrow>
          if snd bn = [] then None
          else Option.bind (copy_node hash msk (hd (snd bn)) m) (\<lambda>m.
               Option.bind (increment src it) (\<lambda>it. copy_range hash src msk it m)))"

text \<open>The loop over two tables of the same size; the flag tells that a bucket was marked.\<close>

fun copy_buckets ::
  "('k, 'v) hash_map \<Rightarrow> nat \<Rightarrow> nat \<Rightarrow> nat \<times> int \<Rightarrow> nat \<times> int \<Rightarrow> ('k, 'v) hash_map \<Rightarrow> (bool \<times> ('k, 'v) hash_map) option" where
  "copy_buckets src 0 k dp sp m = Some (False, m)"
| "copy_buckets src (Suc l) k dp sp m =
     do { dp \<leftarrow> step_bucket m k dp;
          sp \<leftarrow> step_bucket src k sp;
          cs \<leftarrow> chain_nodes (node_lists m dp);
          case node_lists src sp of
            Rehash_req \<Rightarrow>
              do { (r, m) \<leftarrow> copy_buckets src l (k + 1) dp sp (m\<lparr>node_lists := (node_lists m)(dp := Rehash_req)\<rparr>);
                   Some (True, m) }
          | Chain ns \<Rightarrow>
              copy_buckets src l (k + 1) dp sp
                (m\<lparr>node_lists := (node_lists m)(dp := Chain (fold (#) ns cs)), my_size := my_size m + length ns\<rparr>) }"

definition internal_copy ::
  "('k \<Rightarrow> nat) \<Rightarrow> (nat \<Rightarrow> bool) \<Rightarrow> ('k, 'v) hash_map \<Rightarrow> ('k, 'v) hash_map \<Rightarrow> (bool \<times> ('k, 'v) hash_map) option" where
  "internal_copy hash alloc src m =
     do { (ok, m) \<leftarrow> reserve alloc (my_size src) m;
          if \<not> ok then Some (False, m)
          else if my_mask m = my_mask src
          then do { (rehash_required, m) \<leftarrow> copy_buckets src (my_mask src + 1) 0 (0, 0) (0, 0) m;
                    if rehash_required then rehash hash alloc 0 m else Some (True, m) }
          else do { it \<leftarrow> hm_begin src;
                    m \<leftarrow> copy_range hash src (my_mask m) it m;
                    Some (True, m) } }"

definition hm_copy ::
  "('k \<Rightarrow> nat) \<Rightarrow> (nat \<Rightarrow> bool) \<Rightarrow> ('k, 'v) hash_map \<Rightarrow> (bool \<times> ('k, 'v) hash_map) option" where
  "hm_copy hash alloc table = internal_copy hash alloc table hash_map_base"

definition hm_sized :: "(nat \<Rightarrow> bool) \<Rightarrow> nat \<Rightarrow> (bool \<times> ('k, 'v) hash_map) option" where
  "hm_sized alloc n = reserve alloc n hash_map_base"

text \<open>Assignment from another table (an assignment to itself does nothing).\<close>

definition hm_assign ::
  "('k \<Rightarrow> nat) \<Rightarrow> (nat \<Rightarrow> bool) \<Rightarrow> ('k, 'v) hash_map \<Rightarrow> ('k, 'v) hash_map \<Rightarrow> (bool \<times> ('k, 'v) hash_map) option" where
  "hm_assign hash alloc table m =
     do { (ns, bs, m) \<leftarrow> clear m; internal_copy hash alloc table m }"

subsection \<open>Comparison and exchange\<close>

partial_function (option) equal_loop ::
  "('k \<Rightarrow> nat) \<Rightarrow> ('k, 'v) hash_map \<Rightarrow> ('k, 'v) hash_map \<Rightarrow> ('k, 'v) iterator \<Rightarrow> bool option" where
  "equal_loop hash a b it =
     (case snd it of
        None \<Rightarrow> Some True
      | Some bn \<Rightarrow>
          if snd bn = [] then None
          else Option.bind (equal_range hash (fst (hd (snd bn))) b) (\<lambda>j.
               if j = None \<or> snd (the j) \<noteq> snd (hd (snd bn)) then Some False
               else Option.bind (increment a it) (\<lambda>it. equal_loop hash a b it)))"

definition hm_equal :: "('k \<Rightarrow> nat) \<Rightarrow> ('k, 'v) hash_map \<Rightarrow> ('k, 'v) hash_map \<Rightarrow> bool option" where
  "hm_equal hash a b =
     (if my_size a \<noteq> my_size b then Some False
      else do { it \<leftarrow> hm_begin a; equal_loop hash a b it })"

text \<open>
  The exchange of two tables: masks, sizes, the chains of the embedded buckets and the pointers to
  the other segments, which take their blocks along.
\<close>

definition swap_into :: "('k, 'v) hash_map \<Rightarrow> ('k, 'v) hash_map \<Rightarrow> ('k, 'v) hash_map" where
  "swap_into this table =
     this\<lparr>my_mask := my_mask table, my_size := my_size table,
          node_lists := (\<lambda>(b, i). if b = 0
            then if 0 \<le> i \<and> i < int embedded_buckets then node_lists table (b, i) else node_lists this (b, i)
            else node_lists table (b, i)),
          my_table := map (\<lambda>i. if embedded_block \<le> i then my_table table ! i else my_table this ! i) [0..<pointers_per_table]\<rparr>"

definition internal_swap ::
  "('k, 'v) hash_map \<Rightarrow> ('k, 'v) hash_map \<Rightarrow> ('k, 'v) hash_map \<times> ('k, 'v) hash_map" where
  "internal_swap this table = (swap_into this table, swap_into table this)"

subsection \<open>What clearing frees\<close>

fun freed_blocks :: "nat \<Rightarrow> ((nat \<times> int) \<times> nat) list" where
  "freed_blocks 0 = []"
| "freed_blocks (Suc s) =
     (if 8 \<le> Suc s then [((Suc s, 0), 2 ^ Suc s)] else if s = 0 then [((1, 0), 2 ^ 8 - 2)] else []) @ freed_blocks s"

text \<open>The buckets of a segment.\<close>

definition segment_buckets :: "nat \<Rightarrow> nat list" where
  "segment_buckets s = (if s = 0 then [0, 1] else [2 ^ s..<2 ^ Suc s])"

lemma segment_buckets_upto: "mset [0..<2 ^ Suc s] = mset (segment_buckets s) + (if s = 0 then {#} else mset [0..<2 ^ s])"
proof (cases s)
  case 0
  then show ?thesis by (simp add: segment_buckets_def upt_rec numeral_2_eq_2)
next
  case (Suc k)
  have "[0..<2 ^ Suc s] = [0..<2 ^ s] @ [2 ^ s..<2 ^ Suc s]"
    using upt_add_eq_append [of 0 "2 ^ s" "2 ^ s"] by (simp add: mult_2)
  then show ?thesis using Suc by (simp add: segment_buckets_def del: power_Suc)
qed

lemma segment_addrs:
  assumes "table_ok n m" "s < n"
  obtains b i where "my_table m ! s = Seg b i"
    and "map (\<lambda>j. (b, i + int j)) [0..<segment_size (if s \<noteq> 0 then s else 1)] = map bucket_addr (segment_buckets s)"
proof (cases "s = 0")
  case True
  have "my_table m ! 0 = Seg 0 0" using assms(1) by (simp add: table_ok_def)
  moreover have "map (\<lambda>j. (0, 0 + int j)) [0..<segment_size 1] = map bucket_addr (segment_buckets 0)"
    by (simp add: segment_size_eq segment_buckets_def bucket_addr_def upt_rec numeral_2_eq_2)
  ultimately show ?thesis using that True by simp
next
  case False
  then have s: "1 \<le> s" by simp
  have n: "n < 64" using assms(1) by (simp add: table_ok_def)
  obtain b i where e: "my_table m ! s = Seg b i"
    using table_entry [OF assms(1) s assms(2), of 0] by (metis zero_less_numeral zero_less_power)
  have "(b, i + int j) = bucket_addr (2 ^ s + j)" if "j < 2 ^ s" for j
    using table_entry [OF assms(1) s assms(2) that] e by (auto simp: add.commute)
  then have "map (\<lambda>j. (b, i + int j)) [0..<2 ^ s] = map (\<lambda>j. bucket_addr (2 ^ s + j)) [0..<2 ^ s]"
    by (intro map_cong) simp_all
  also have "\<dots> = map bucket_addr (map (\<lambda>j. j + 2 ^ s) [0..<2 ^ s])"
    by (simp add: comp_def add.commute)
  also have "map (\<lambda>j. j + 2 ^ s) [0..<2 ^ s] = segment_buckets s"
    using False by (simp add: segment_buckets_def map_add_upt mult_2)
  finally show ?thesis using that e False n assms(2) by (simp add: segment_size_eq)
qed

text \<open>A table whose segments above \<open>s\<close> may be gone already.\<close>

definition agrees :: "nat \<Rightarrow> ('k, 'v) hash_map \<Rightarrow> ('k, 'v) hash_map \<Rightarrow> bool" where
  "agrees s m0 m \<longleftrightarrow> length (my_table m) = 64 \<and> (\<forall>k \<le> s. my_table m ! k = my_table m0 ! k) \<and>
     (\<forall>h < 2 ^ Suc s. list_at m h = list_at m0 h)"

lemma clear_segment_ok:
  assumes "table_ok n m0" "s < n" "agrees s m0 m"
  shows "\<exists>f. clear_segment s m = Some (concat (map (nodes_at m0) (segment_buckets s)),
      if 8 \<le> s then [((s, 0), 2 ^ s)] else if s = 1 then [((1, 0), 2 ^ 8 - 2)] else [],
      m\<lparr>node_lists := f, my_table := if 1 \<le> s then (my_table m)[s := Null] else my_table m\<rparr>) \<and>
    (\<forall>h. f (bucket_addr h) = (if h \<in> set (segment_buckets s) \<and> rehashed m h then Chain [] else list_at m h))"
proof -
  have n: "n < 64" using assms(1) by (simp add: table_ok_def)
  have entry: "my_table m ! s = my_table m0 ! s" using assms(3) by (simp add: agrees_def)
  obtain b i where e: "my_table m ! s = Seg b i"
    and addrs: "map (\<lambda>j. (b, i + int j)) [0..<segment_size (if s \<noteq> 0 then s else 1)] = map bucket_addr (segment_buckets s)"
    using segment_addrs [OF assms(1,2)] entry by auto
  have freed: "8 \<le> s \<Longrightarrow> b = s \<and> i = 0" "s = 1 \<Longrightarrow> b = 1 \<and> i = 0"
    using assms(1,2) e entry by (auto simp: table_ok_def)
  have sizes: "s \<noteq> 0 \<Longrightarrow> segment_size s = 2 ^ s" "segment_size 8 = 2 ^ 8"
    using assms(2) n by (simp_all add: segment_size_eq)
  have "h < 2 ^ Suc s" if "h \<in> set (segment_buckets s)" for h
    using that by (auto simp: segment_buckets_def split: if_splits)
  then have same: "list_at m h = list_at m0 h" if "h \<in> set (segment_buckets s)" for h
    using assms(3) that by (simp add: agrees_def)
  have nodes: "map (\<lambda>h. case list_at m h of Chain ns \<Rightarrow> ns | Rehash_req \<Rightarrow> []) (segment_buckets s) = map (nodes_at m0) (segment_buckets s)"
    by (intro map_cong refl) (simp add: same nodes_at_def split: chain.splits)
  let ?f = "\<lambda>a. if a \<in> set (map bucket_addr (segment_buckets s)) \<and> node_lists m a \<noteq> Rehash_req then Chain [] else node_lists m a"
  have lists: "?f (bucket_addr h) = (if h \<in> set (segment_buckets s) \<and> rehashed m h then Chain [] else list_at m h)" for h
    by (auto simp: rehashed_def list_at_def dest: bucket_addr_inj)
  show ?thesis
  proof (intro exI [of _ ?f] conjI allI)
    show "clear_segment s m = Some (concat (map (nodes_at m0) (segment_buckets s)),
      if 8 \<le> s then [((s, 0), 2 ^ s)] else if s = 1 then [((1, 0), 2 ^ 8 - 2)] else [],
      m\<lparr>node_lists := ?f, my_table := if 1 \<le> s then (my_table m)[s := Null] else my_table m\<rparr>)"
      unfolding clear_segment_def e segment_ptr.case Let_def addrs nodes [symmetric]
      using freed sizes by (auto simp: comp_def list_at_def first_block_def embedded_block_def embedded_buckets_def)
  qed (rule lists)
qed

lemma mset_concat_map: "mset xs = mset ys \<Longrightarrow> mset (concat (map g xs)) = mset (concat (map g ys))"
proof -
  have "mset (concat (map g xs)) = sum_mset (image_mset (\<lambda>x. mset (g x)) (mset xs))" for xs
    by (induction xs) simp_all
  then show "mset xs = mset ys \<Longrightarrow> mset (concat (map g xs)) = mset (concat (map g ys))" by simp
qed

lemma clear_loop_ok:
  assumes "table_ok n m0" "s < n" "agrees s m0 m" "rehashed m0 0" "rehashed m0 1"
  shows "\<exists>ns f tab. clear_loop s m = Some (ns, freed_blocks s, m\<lparr>node_lists := f, my_table := tab\<rparr>) \<and>
    mset ns = mset (concat (map (nodes_at m0) [0..<2 ^ Suc s])) \<and> length tab = 64 \<and>
    (\<forall>k < 64. tab ! k = (if 1 \<le> k \<and> k \<le> s then Null else my_table m ! k)) \<and>
    f (bucket_addr 0) = Chain [] \<and> f (bucket_addr 1) = Chain []"
  using assms(2,3)
proof (induction s arbitrary: m)
  case 0
  from clear_segment_ok [OF assms(1) 0] obtain f where
    f: "clear_segment 0 m = Some (concat (map (nodes_at m0) (segment_buckets 0)), [], m\<lparr>node_lists := f, my_table := my_table m\<rparr>)"
      "\<forall>h. f (bucket_addr h) = (if h \<in> set (segment_buckets 0) \<and> rehashed m h then Chain [] else list_at m h)" by auto
  have "list_at m 0 = list_at m0 0" "list_at m 1 = list_at m0 1" using 0(2) by (simp_all add: agrees_def)
  then have "rehashed m 0" "rehashed m 1" using assms(4,5) by (simp_all add: rehashed_def)
  then have "f (bucket_addr 0) = Chain []" "f (bucket_addr 1) = Chain []"
    using f(2) by (simp_all add: segment_buckets_def)
  moreover have "mset (concat (map (nodes_at m0) (segment_buckets 0))) = mset (concat (map (nodes_at m0) [0..<2 ^ Suc 0]))"
    using segment_buckets_upto [of 0] by (intro mset_concat_map) simp
  ultimately show ?case
    using f(1) 0(2) by (intro exI [of _ "concat (map (nodes_at m0) (segment_buckets 0))"] exI [of _ f] exI [of _ "my_table m"])
      (auto simp: agrees_def)
next
  case (Suc s)
  let ?fr = "if 8 \<le> Suc s then [((Suc s, 0), 2 ^ Suc s)] else if Suc s = 1 then [((1, 0), 2 ^ 8 - 2)] else []"
  from clear_segment_ok [OF assms(1) Suc.prems] obtain f where
    f: "clear_segment (Suc s) m = Some (concat (map (nodes_at m0) (segment_buckets (Suc s))), ?fr,
        m\<lparr>node_lists := f, my_table := (my_table m)[Suc s := Null]\<rparr>)"
      "\<forall>h. f (bucket_addr h) = (if h \<in> set (segment_buckets (Suc s)) \<and> rehashed m h then Chain [] else list_at m h)" by auto
  let ?m1 = "m\<lparr>node_lists := f, my_table := (my_table m)[Suc s := Null]\<rparr>"
  have "agrees s m0 ?m1"
    using Suc.prems(2) f(2) by (auto simp: agrees_def list_at_def segment_buckets_def)
  from Suc.IH [OF _ this] Suc.prems(1) obtain ns g tab where
    g: "clear_loop s ?m1 = Some (ns, freed_blocks s, ?m1\<lparr>node_lists := g, my_table := tab\<rparr>)"
      "mset ns = mset (concat (map (nodes_at m0) [0..<2 ^ Suc s]))" "length tab = 64"
      "\<forall>k < 64. tab ! k = (if 1 \<le> k \<and> k \<le> s then Null else my_table ?m1 ! k)"
      "g (bucket_addr 0) = Chain [] \<and> g (bucket_addr 1) = Chain []" by auto
  have fr: "?fr @ freed_blocks s = freed_blocks (Suc s)" by simp
  have "clear_loop (Suc s) m = Some (concat (map (nodes_at m0) (segment_buckets (Suc s))) @ ns, ?fr @ freed_blocks s,
      ?m1\<lparr>node_lists := g, my_table := tab\<rparr>)"
    using f(1) g(1) by (simp del: freed_blocks.simps)
  moreover have "mset (segment_buckets (Suc s) @ [0..<2 ^ Suc s]) = mset [0..<2 ^ Suc (Suc s)]"
    using segment_buckets_upto [of "Suc s"] by (simp del: power_Suc)
  from mset_concat_map [OF this, of "nodes_at m0"] g(2)
  have "mset (concat (map (nodes_at m0) (segment_buckets (Suc s))) @ ns) = mset (concat (map (nodes_at m0) [0..<2 ^ Suc (Suc s)]))"
    by (simp del: power_Suc)
  moreover have "\<forall>k < 64. tab ! k = (if 1 \<le> k \<and> k \<le> Suc s then Null else my_table m ! k)"
    using g(4) Suc.prems(2) by (auto simp: agrees_def nth_list_update le_Suc_eq)
  ultimately show ?case
    unfolding fr using g(3,5) by (intro exI [of _ "concat (map (nodes_at m0) (segment_buckets (Suc s))) @ ns"] exI [of _ g] exI [of _ tab]) simp
qed

text \<open>A table as new: one segment, no items, no marks.\<close>

definition as_new :: "('k, 'v) hash_map \<Rightarrow> bool" where
  "as_new m \<longleftrightarrow> table_ok 1 m \<and> my_table m ! 1 = Null \<and> my_size m = 0 \<and> list_at m 0 = Chain [] \<and> list_at m 1 = Chain []"

lemma as_new_base: "as_new hash_map_base"
  using table_ok_base by (simp add: as_new_def) (simp add: hash_map_base_def pointers_per_table_def)

lemma as_new_ok:
  assumes "as_new m"
  shows "hm_ok hash 1 m" "growable 1 m" "items 1 m = {}"
proof -
  have l: "list_at m x = Chain []" if "x < 2" for x
    using assms that by (cases x) (auto simp: as_new_def less_Suc_eq numeral_2_eq_2)
  show "hm_ok hash 1 m"
    using assms l by (simp add: hm_ok_def as_new_def rehashed_def nodes_at_def)
  show "items 1 m = {}" using l by (simp add: items_def nodes_at_def)
  have "length (my_table m) = 64" "\<forall>k < 64. my_table m ! k \<noteq> Claimed"
    using assms by (auto simp: as_new_def table_ok_def) (metis One_nat_def gr0I less_one linorder_neqE_nat segment_ptr.distinct(1,5))
  then have "no_growth m" by (auto simp: no_growth_def in_set_conv_nth)
  with l show "growable 1 m" by (simp add: growable_def rehashed_def)
qed

lemma freed_blocks_set:
  "distinct (freed_blocks s) \<and>
   set (freed_blocks s) = {((b, 0), block_size b) | b. b \<noteq> 0 \<and> (\<exists>h < 2 ^ Suc s. fst (bucket_addr h) = b)}"
proof -
  have ex: "(\<exists>h < 2 ^ Suc s. fst (bucket_addr h) = b) \<longleftrightarrow> (b = 1 \<and> 1 \<le> s \<or> 8 \<le> b \<and> b \<le> s)" if "b \<noteq> 0" for b
  proof
    assume "\<exists>h < 2 ^ Suc s. fst (bucket_addr h) = b"
    then obtain h where h: "h < 2 ^ Suc s" "fst (bucket_addr h) = b" by blast
    then have "2 \<le> h" using that by (auto simp: bucket_addr_block split: if_splits)
    then have "2 ^ 1 < (2 :: nat) ^ Suc s" using h(1) by simp
    then have s1: "1 \<le> s" by (subst (asm) power_strict_increasing_iff) simp_all
    show "b = 1 \<and> 1 \<le> s \<or> 8 \<le> b \<and> b \<le> s"
    proof (cases "h < 2 ^ 8")
      case True
      with h \<open>2 \<le> h\<close> s1 show ?thesis by (simp add: bucket_addr_block)
    next
      case False
      then have "b = tbb_log2 h" using h \<open>2 \<le> h\<close> by (simp add: bucket_addr_block)
      moreover have "8 \<le> tbb_log2 h" using False by (intro tbb_log2_ge) simp
      moreover have "tbb_log2 h < Suc s" using h(1) \<open>2 \<le> h\<close> by (intro tbb_log2_less) simp_all
      ultimately show ?thesis by simp
    qed
  next
    assume "b = 1 \<and> 1 \<le> s \<or> 8 \<le> b \<and> b \<le> s"
    then show "\<exists>h < 2 ^ Suc s. fst (bucket_addr h) = b"
    proof
      assume "b = 1 \<and> 1 \<le> s"
      then have "fst (bucket_addr 2) = b" "1 < Suc s" by (simp_all add: bucket_addr_block)
      moreover have "(2 :: nat) ^ 1 < 2 ^ Suc s" by (rule power_strict_increasing [OF \<open>1 < Suc s\<close>]) simp
      ultimately show ?thesis by (intro exI [of _ 2]) simp
    next
      assume b: "8 \<le> b \<and> b \<le> s"
      then have "8 \<le> b" "b < Suc s" by simp_all
      then have "(2 :: nat) ^ 8 \<le> 2 ^ b" "(2 :: nat) ^ b < 2 ^ Suc s"
        by (intro power_increasing power_strict_increasing; simp)+
      moreover have "tbb_log2 (2 ^ b) = b" by (rule tbb_log2_unique) simp_all
      ultimately show ?thesis by (intro exI [of _ "2 ^ b"]) (simp add: bucket_addr_block)
    qed
  qed
  have "distinct (freed_blocks s) \<and> set (freed_blocks s) = {((b, 0), block_size b) | b. b = 1 \<and> 1 \<le> s \<or> 8 \<le> b \<and> b \<le> s}"
    by (induction s) (auto simp: block_size_def le_Suc_eq)
  moreover have "{((b, 0 :: int), block_size b) | b. b = 1 \<and> 1 \<le> s \<or> 8 \<le> b \<and> b \<le> s} =
      {((b, 0), block_size b) | b. b \<noteq> 0 \<and> (\<exists>h < 2 ^ Suc s. fst (bucket_addr h) = b)}"
    using ex by (intro Collect_cong ex_cong1) (metis not_one_le_zero le_zero_eq zero_neq_numeral)
  ultimately show ?thesis by simp
qed

lemma clear_run:
  assumes ok: "hm_ok hash n m" and g: "no_growth m"
  shows "\<exists>ns m'. clear m = Some (ns, freed_blocks (n - 1), m') \<and> mset ns = mset (contents m) \<and> as_new m'"
proof -
  have tab: "table_ok n m" and mask: "my_mask m + 1 = 2 ^ n" "my_mask m = 2 ^ n - 1" and n: "1 \<le> n" "n < 64"
    using hm_okD [OF ok] by (simp_all add: table_ok_def)
  have sn: "Suc (n - 1) = n" using n by simp
  have seg: "segment_index_of (my_mask m) = n - 1"
  proof (cases "n = 1")
    case True
    then show ?thesis by (simp add: mask(2) segment_index_of_zero)
  next
    case False
    then have "0 < n - 1" using n by simp
    moreover have "(2 :: nat) ^ (n - 1) < 2 ^ n" by (rule power_strict_increasing) (use n in simp_all)
    then have "(2 :: nat) ^ (n - 1) \<le> 2 ^ n - 1" by linarith
    moreover have "(2 :: nat) ^ n - 1 < 2 ^ Suc (n - 1)" unfolding sn by simp
    ultimately show ?thesis unfolding mask(2) by (rule segment_index_of_pos)
  qed
  have "my_mask m AND (my_mask m + 1) = 0"
    unfolding mask and.commute [of "2 ^ n - 1 :: nat"] and_mask_mod by simp
  moreover have "my_table m ! n = Null" by (rule no_growth_null [OF ok g])
  moreover have "agrees (n - 1) m (m\<lparr>my_size := 0\<rparr>)" using tab by (simp add: agrees_def list_at_def table_ok_def)
  with clear_loop_ok [OF tab, of "n - 1" "m\<lparr>my_size := 0\<rparr>"] ok n obtain ns f tab' where
    c: "clear_loop (n - 1) (m\<lparr>my_size := 0\<rparr>) = Some (ns, freed_blocks (n - 1), m\<lparr>my_size := 0, node_lists := f, my_table := tab'\<rparr>)"
      "mset ns = mset (concat (map (nodes_at m) [0..<2 ^ n]))" "length tab' = 64"
      "\<forall>k < 64. tab' ! k = (if 1 \<le> k \<and> k \<le> n - 1 then Null else my_table m ! k)"
      "f (bucket_addr 0) = Chain []" "f (bucket_addr 1) = Chain []"
    unfolding sn by (auto simp: hm_ok_def)
  let ?m' = "m\<lparr>my_size := 0, node_lists := f, my_table := tab', my_mask := 1\<rparr>"
  have null: "tab' ! k = Null" if "1 \<le> k" "k < 64" for k
    using c(4) that tab \<open>my_table m ! n = Null\<close> by (cases "k < n"; cases "k = n") (auto simp: table_ok_def)
  moreover have "tab' ! 0 = Seg 0 0" using c(4) tab by (simp add: table_ok_def)
  ultimately have "table_ok 1 ?m'" using c(3) by (simp add: table_ok_def)
  then have "as_new ?m'" using c(5,6) null [of 1] by (simp add: as_new_def list_at_def)
  moreover have "clear m = Some (ns, freed_blocks (n - 1), ?m')"
    using c(1) seg sn \<open>my_table m ! n = Null\<close> \<open>my_mask m AND (my_mask m + 1) = 0\<close>
    by (simp add: clear_def Let_def embedded_buckets_def embedded_block_def)
  moreover have "mset ns = mset (contents m)" using c(2) unfolding contents_def mask(1) .
  ultimately show ?thesis by blast
qed

text \<open>
  C31. Clearing deletes every item once, returns every block of buckets once, with the size it was
  allocated with, and leaves an empty table that is as new.
\<close>

theorem clear_correct:
  assumes "hm_valid hash m" "no_growth m"
  shows "\<exists>ns bs m'. clear m = Some (ns, bs, m') \<and> mset ns = mset (contents m) \<and> distinct bs \<and>
    set bs = {((b, 0), block_size b) | b. b \<noteq> 0 \<and> (\<exists>h \<le> my_mask m. fst (bucket_addr h) = b)} \<and>
    hm_valid hash m' \<and> hm_abs m' = Map.empty \<and> my_mask m' = 1 \<and> all_rehashed m'"
proof -
  from assms(1) obtain n where ok: "hm_ok hash n m" by (auto simp: hm_valid_def)
  from clear_run [OF ok assms(2)] obtain ns m' where
    c: "clear m = Some (ns, freed_blocks (n - 1), m')" "mset ns = mset (contents m)" "as_new m'" by blast
  have ok': "hm_ok hash 1 m'" by (rule as_new_ok [OF c(3)])
  have "1 \<le> n" "my_mask m + 1 = 2 ^ n" using hm_okD [OF ok] by (simp_all add: table_ok_def)
  then have "my_mask m + 1 = 2 ^ Suc (n - 1)" by (simp del: power_Suc)
  then have "h \<le> my_mask m \<longleftrightarrow> h < 2 ^ Suc (n - 1)" for h by linarith
  then have "distinct (freed_blocks (n - 1)) \<and> set (freed_blocks (n - 1)) =
      {((b, 0), block_size b) | b. b \<noteq> 0 \<and> (\<exists>h \<le> my_mask m. fst (bucket_addr h) = b)}"
    using freed_blocks_set [of "n - 1"] by (simp del: power_Suc)
  moreover have "hm_abs m' = Map.empty"
    using hm_abs_none [OF ok'] as_new_ok(3) [OF c(3)] by (auto simp: fun_eq_iff)
  moreover have "my_mask m' = 1" using c(3) by (simp add: as_new_def table_ok_def)
  moreover have "all_rehashed m'"
    using as_new_ok(2) [OF c(3)] c(3) all_rehashed_iff [OF ok'] by (simp add: growable_def as_new_def)
  ultimately show ?thesis using c(1,2) ok' unfolding hm_valid_def by blast
qed

theorem clear_correct_witness:
  "\<exists>ns bs m'. clear sample_table = Some (ns, bs, m') \<and> length ns = 1 \<and> hm_abs m' = Map.empty \<and> my_mask m' = 1"
proof -
  have "no_growth sample_table" unfolding no_growth_def by code_simp
  from clear_correct [OF sample_valid(1) this] obtain ns bs m' where
    c: "clear sample_table = Some (ns, bs, m')" "mset ns = mset (contents sample_table)" "hm_abs m' = Map.empty" "my_mask m' = 1"
    by blast
  have "length (contents sample_table) = 1" by code_simp
  with c show ?thesis by (metis size_mset)
qed

end
