(* ===== verification/Hash_Copy.thy ===== *)
theory Hash_Copy
  imports Hash_Whole
begin

text \<open>
  What copying, assignment, comparison and exchange of whole tables do to the maps the tables
  stand for.
\<close>

subsection \<open>Copying bucket by bucket\<close>

definition copied :: "('k, 'v) chain \<Rightarrow> ('k, 'v) chain" where
  "copied c = (case c of Rehash_req \<Rightarrow> Rehash_req | Chain ns \<Rightarrow> Chain (rev ns))"

lemma copied_mark [simp]: "copied c = Rehash_req \<longleftrightarrow> c = Rehash_req"
  by (simp add: copied_def split: chain.splits)

lemma upt_sum_first: "k < N \<Longrightarrow> (\<Sum>i = k..<N. g i) = g k + (\<Sum>i = k + 1..<N. g i)" for k N :: nat and g :: "nat \<Rightarrow> nat"
  by (simp add: sum.atLeast_Suc_lessThan)

lemma copy_buckets_ok:
  assumes "table_ok n src" "table_ok n m" "k + l = 2 ^ n"
    and "0 < k \<longrightarrow> dp = bucket_addr (k - 1) \<and> sp = bucket_addr (k - 1)"
    and "\<forall>x. k \<le> x \<and> x < 2 ^ n \<longrightarrow> list_at m x = Chain []"
  shows "\<exists>f. copy_buckets src l k dp sp m =
      Some (\<exists>x. k \<le> x \<and> x < 2 ^ n \<and> \<not> rehashed src x,
        m\<lparr>node_lists := f, my_size := my_size m + (\<Sum>x = k..<2 ^ n. length (nodes_at src x))\<rparr>) \<and>
    (\<forall>x < 2 ^ n. f (bucket_addr x) = (if x < k then list_at m x else copied (list_at src x)))"
  using assms(2-)
proof (induction l arbitrary: k dp sp m)
  case 0
  then show ?case by (intro exI [of _ "node_lists m"]) (auto simp: list_at_def)
next
  case (Suc l)
  have lt: "k < 2 ^ n" and l: "(k + 1) + l = 2 ^ n" using Suc.prems(2) by simp_all
  have steps: "step_bucket m k dp = Some (bucket_addr k)" "step_bucket src k sp = Some (bucket_addr k)"
    using Suc.prems(3) by (auto intro!: step_bucket_next [OF Suc.prems(1) lt] step_bucket_next [OF assms(1) lt])
  have empty: "node_lists m (bucket_addr k) = Chain []"
    using Suc.prems(4) lt by (simp add: list_at_def)
  let ?m1 = "m\<lparr>node_lists := (node_lists m)(bucket_addr k := copied (list_at src k)), my_size := my_size m + length (nodes_at src k)\<rparr>"
  have at1: "list_at ?m1 x = (if x = k then copied (list_at src k) else list_at m x)" for x
    by (auto simp: list_at_def dest: bucket_addr_inj)
  have tab1: "table_ok n ?m1" using Suc.prems(1) by (simp add: table_ok_def)
  have rest: "\<forall>x. k + 1 \<le> x \<and> x < 2 ^ n \<longrightarrow> list_at ?m1 x = Chain []"
    using Suc.prems(4) unfolding at1 by simp
  have here: "0 < k + 1 \<longrightarrow> bucket_addr k = bucket_addr (k + 1 - 1) \<and> bucket_addr k = bucket_addr (k + 1 - 1)" by simp
  from Suc.IH [OF tab1 l here rest] obtain f where
    f: "copy_buckets src l (k + 1) (bucket_addr k) (bucket_addr k) ?m1 =
        Some (\<exists>x. k + 1 \<le> x \<and> x < 2 ^ n \<and> \<not> rehashed src x,
          ?m1\<lparr>node_lists := f, my_size := my_size ?m1 + (\<Sum>x = k + 1..<2 ^ n. length (nodes_at src x))\<rparr>)"
      "\<forall>x < 2 ^ n. f (bucket_addr x) = (if x < k + 1 then list_at ?m1 x else copied (list_at src x))"
    by blast
  have lists: "\<forall>x < 2 ^ n. f (bucket_addr x) = (if x < k then list_at m x else copied (list_at src x))"
    using f(2) unfolding at1 by (auto simp: less_Suc_eq)
  have from_here: "k \<le> x \<longleftrightarrow> x = k \<or> k + 1 \<le> x" for x by auto
  have flag: "(\<exists>x. k \<le> x \<and> x < 2 ^ n \<and> \<not> rehashed src x) \<longleftrightarrow>
      \<not> rehashed src k \<or> (\<exists>x. k + 1 \<le> x \<and> x < 2 ^ n \<and> \<not> rehashed src x)"
  proof (cases "rehashed src k")
    case True
    then have "(k \<le> x \<and> x < 2 ^ n \<and> \<not> rehashed src x) = (k + 1 \<le> x \<and> x < 2 ^ n \<and> \<not> rehashed src x)" for x
      using from_here [of x] by metis
    with True show ?thesis by simp
  next
    case False
    with lt show ?thesis by auto
  qed
  have size: "my_size ?m1 + (\<Sum>x = k + 1..<2 ^ n. length (nodes_at src x)) =
      my_size m + (\<Sum>x = k..<2 ^ n. length (nodes_at src x))"
    unfolding upt_sum_first [OF lt] by simp
  show ?case
  proof (cases "list_at src k")
    case Rehash_req
    then have "?m1 = m\<lparr>node_lists := (node_lists m)(bucket_addr k := Rehash_req)\<rparr>"
      by (simp add: copied_def nodes_at_def)
    then have "copy_buckets src (Suc l) k dp sp m =
        Some (True, ?m1\<lparr>node_lists := f, my_size := my_size ?m1 + (\<Sum>x = k + 1..<2 ^ n. length (nodes_at src x))\<rparr>)"
      using f(1) steps empty Rehash_req by (simp add: chain_nodes_def list_at_def)
    with lists flag size Rehash_req show ?thesis
      by (intro exI [of _ f]) (simp add: rehashed_def)
  next
    case (Chain ns)
    then have "?m1 = m\<lparr>node_lists := (node_lists m)(bucket_addr k := Chain (fold (#) ns [])), my_size := my_size m + length ns\<rparr>"
      by (simp add: copied_def nodes_at_def fold_Cons_rev)
    then have "copy_buckets src (Suc l) k dp sp m = copy_buckets src l (k + 1) (bucket_addr k) (bucket_addr k) ?m1"
      using steps empty Chain by (simp add: chain_nodes_def list_at_def)
    with f(1) lists flag size Chain show ?thesis
      by (intro exI [of _ f]) (simp add: rehashed_def)
  qed
qed

lemma copy_same_mask:
  assumes src: "hm_ok hash n src" and m: "hm_ok hash n m" "my_size m = 0" "\<forall>x < 2 ^ n. rehashed m x"
  shows "\<exists>f. copy_buckets src (2 ^ n) 0 (0, 0) (0, 0) m =
      Some (\<exists>x < 2 ^ n. \<not> rehashed src x, m\<lparr>node_lists := f, my_size := my_size src\<rparr>) \<and>
    hm_ok hash n (m\<lparr>node_lists := f, my_size := my_size src\<rparr>) \<and>
    items n (m\<lparr>node_lists := f, my_size := my_size src\<rparr>) = items n src \<and>
    (\<forall>x < 2 ^ n. rehashed (m\<lparr>node_lists := f, my_size := my_size src\<rparr>) x \<longleftrightarrow> rehashed src x)"
proof -
  have tab: "table_ok n src" "table_ok n m" using hm_okD(1) src m(1) by blast+
  have "list_at m x = Chain []" if "x < 2 ^ n" for x
  proof -
    have "nodes_at m x = []" using m(1,2) that by (simp add: hm_ok_def)
    moreover have "list_at m x \<noteq> Rehash_req" using m(3) that by (simp add: rehashed_def)
    ultimately show ?thesis by (cases "list_at m x") (simp_all add: nodes_at_def)
  qed
  then have "\<forall>x. 0 \<le> x \<and> x < 2 ^ n \<longrightarrow> list_at m x = Chain []" by blast
  from copy_buckets_ok [OF tab _ _ this, of "2 ^ n" "(0, 0)" "(0, 0)"] obtain f where
    f: "copy_buckets src (2 ^ n) 0 (0, 0) (0, 0) m =
      Some (\<exists>x < 2 ^ n. \<not> rehashed src x,
        m\<lparr>node_lists := f, my_size := my_size m + (\<Sum>x = 0..<2 ^ n. length (nodes_at src x))\<rparr>)"
      "\<forall>x < 2 ^ n. f (bucket_addr x) = copied (list_at src x)" by auto
  have size: "my_size m + (\<Sum>x = 0..<2 ^ n. length (nodes_at src x)) = my_size src"
    using src m(2) by (simp add: hm_ok_def atLeast0LessThan)
  define c where "c = m\<lparr>node_lists := f, my_size := my_size src\<rparr>"
  have reh: "rehashed c x \<longleftrightarrow> rehashed src x" if "x < 2 ^ n" for x
    using f(2) that by (simp add: c_def rehashed_def list_at_def)
  have nodes: "nodes_at c x = rev (nodes_at src x)" if "x < 2 ^ n" for x
    using f(2) that by (simp add: c_def nodes_at_def list_at_def copied_def split: chain.splits)
  have path: "k mod 2 ^ j < 2 ^ n" if "j \<le> n" for k j :: nat using that by (rule mod_exp_less)
  have placed: "placed n c k i \<longleftrightarrow> placed n src k i" for k i
    unfolding placed_def using reh [OF path] by blast
  have one: "(1 :: nat) < 2 ^ n" using hm_okD(4) [OF src] by (intro one_less_power) simp_all
  have par: "parent x < 2 ^ n" if "x < 2 ^ n" "1 < x" for x using parent_lt [of x] that by simp
  have s: "n \<le> 32" "rehashed src 0" "rehashed src 1" "\<forall>i < 2 ^ n. 1 < i \<and> rehashed src i \<longrightarrow> rehashed src (parent i)"
    "\<forall>i < 2 ^ n. \<forall>x \<in> set (nodes_at src i). placed n src (hash (fst x)) i"
    "\<forall>i < 2 ^ n. distinct (map fst (nodes_at src i))" "my_size src = (\<Sum>i < 2 ^ n. length (nodes_at src i))"
    using src by (simp_all add: hm_ok_def)
  have "(\<Sum>x < 2 ^ n. length (nodes_at c x)) = (\<Sum>x < 2 ^ n. length (nodes_at src x))"
    by (intro sum.cong refl) (simp add: nodes)
  then have "my_size c = (\<Sum>x < 2 ^ n. length (nodes_at c x))" using s(7) by (simp add: c_def)
  moreover have "distinct (map fst (nodes_at c x))" if "x < 2 ^ n" for x
    using s(6) that by (simp add: nodes flip: rev_map)
  moreover have "table_ok n c" using tab(2) by (simp add: c_def table_ok_def)
  moreover have "\<forall>i < 2 ^ n. 1 < i \<and> rehashed c i \<longrightarrow> rehashed c (parent i)" using s(4) par by (simp add: reh)
  moreover have "rehashed c 0" "rehashed c 1" using s(2,3) one by (simp_all add: reh)
  moreover have "\<forall>i < 2 ^ n. \<forall>x \<in> set (nodes_at c i). placed n c (hash (fst x)) i" using s(5) by (simp add: nodes placed)
  ultimately have "hm_ok hash n c" using s(1) unfolding hm_ok_def by blast
  moreover have "items n c = items n src" by (simp add: items_def nodes)
  ultimately show ?thesis using f(1) reh unfolding size c_def by blast
qed

subsection \<open>Copying item by item\<close>

lemma placed_last: "1 \<le> n \<Longrightarrow> placed n m c (c mod 2 ^ n)"
  unfolding placed_def by (metis le_antisym order_refl)

lemma distinct_buckets:
  assumes ok: "hm_ok hash n m"
  shows "k \<le> 2 ^ n \<Longrightarrow> distinct (map fst (concat (map (nodes_at m) [0..<k])))"
proof (induction k)
  case (Suc k)
  have disjoint: "key \<notin> fst ` set (nodes_at m k)" if "key \<in> fst ` set (nodes_at m i)" "i < k" for key i
  proof
    assume "key \<in> fst ` set (nodes_at m k)"
    then obtain v where v: "(key, v) \<in> set (nodes_at m k)" by auto
    from that(1) obtain w where w: "(key, w) \<in> set (nodes_at m i)" by auto
    have "placed n m (hash key) k" "placed n m (hash key) i"
      using ok v w Suc.prems that(2) unfolding hm_ok_def by (metis Suc_le_lessD fst_conv less_trans)+
    from placed_unique [OF this nodes_at_some [OF v] nodes_at_some [OF w]] that(2) show False by simp
  qed
  have "distinct (map fst (nodes_at m k))" using ok Suc.prems by (simp add: hm_ok_def)
  moreover have "distinct (map fst (concat (map (nodes_at m) [0..<k])))" using Suc by simp
  moreover have "fst ` set (concat (map (nodes_at m) [0..<k])) \<inter> fst ` set (nodes_at m k) = {}"
  proof -
    have "key \<notin> fst ` set (nodes_at m k)" if "key \<in> fst ` set (concat (map (nodes_at m) [0..<k]))" for key
    proof -
      from that obtain i v where "i < k" "(key, v) \<in> set (nodes_at m i)" by auto
      then have "i < k" "key \<in> fst ` set (nodes_at m i)" by force+
      then show ?thesis by (intro disjoint)
    qed
    then show ?thesis by blast
  qed
  ultimately show ?case by simp
qed simp

lemma distinct_contents: "distinct (map fst (contents m))" if "hm_ok hash n m"
  using distinct_buckets [OF that order_refl] unfolding contents_def hm_okD(3) [OF that] .

lemma copy_node_ok:
  assumes ok: "hm_ok hash n m" and all: "\<forall>x < 2 ^ n. rehashed m x" and new: "fst p \<notin> fst ` items n m"
  shows "\<exists>m'. copy_node hash (my_mask m) p m = Some m' \<and> hm_ok hash n m' \<and> (\<forall>x < 2 ^ n. rehashed m' x) \<and>
    items n m' = insert p (items n m) \<and> my_size m' = my_size m + 1 \<and> my_mask m' = my_mask m"
proof -
  have tab: "table_ok n m" and n: "1 \<le> n" and mask: "my_mask m = 2 ^ n - 1"
    using hm_okD [OF ok] by (simp_all add: table_ok_def)
  define h where "h = hash (fst p) mod 2 ^ n"
  have h: "h < 2 ^ n" "hash (fst p) AND my_mask m = h" unfolding h_def mask and_mask_mod by simp_all
  then have reh: "rehashed m h" using all by simp
  then have at: "list_at m h = Chain (nodes_at m h)"
    by (cases "list_at m h") (simp_all add: rehashed_def nodes_at_def)
  let ?ns = "p # nodes_at m h"
  let ?m' = "m\<lparr>node_lists := (node_lists m)(bucket_addr h := Chain ?ns), my_size := my_size m + 1\<rparr>"
  have run: "copy_node hash (my_mask m) p m = Some ?m'"
    using node_list_at [OF tab h(1)] get_bucket_addr [OF tab h(1)] at
    by (simp add: copy_node_def h(2) add_to_bucket_def set_node_list_def)
  have tab': "table_ok n ?m'" using tab by (simp add: table_ok_def)
  have lists: "list_at ?m' = list_at (put (bucket_addr h) (Chain ?ns) m)"
    by (simp add: fun_eq_iff list_at_def put_def)
  have "placed n m (hash (fst p)) h" unfolding h_def by (rule placed_last [OF n])
  then have placed: "\<forall>x \<in> set ?ns. placed n m (hash (fst x)) h" using ok h(1) by (simp add: hm_ok_def)
  have "fst p \<notin> fst ` set (nodes_at m h)" using new h(1) by (auto simp: items_def)
  then have "distinct (map fst ?ns)" using ok h(1) by (simp add: hm_ok_def)
  from store_ok [OF ok h(1) reh placed this tab' lists] have ok': "hm_ok hash n ?m'" by simp
  moreover have "rehashed ?m' x" if "x < 2 ^ n" for x
    using all that rehashed_put [of h ?ns m x] unfolding rehashed_def lists by simp
  moreover have "items n ?m' = insert p (items n m)"
    unfolding store_items [OF h(1) lists] items_split [OF h(1), of m] by simp
  ultimately show ?thesis using run by (intro exI [of _ ?m']) simp
qed

lemma copy_range_ok:
  assumes src: "table_ok ns src"
  shows "iterator_ok ns src it \<Longrightarrow> hm_ok hash n m \<Longrightarrow> \<forall>x < 2 ^ n. rehashed m x \<Longrightarrow>
    distinct (map fst (remaining ns src it)) \<Longrightarrow> fst ` set (remaining ns src it) \<inter> fst ` items n m = {} \<Longrightarrow>
    \<exists>m'. copy_range hash src (my_mask m) it m = Some m' \<and> hm_ok hash n m' \<and> (\<forall>x < 2 ^ n. rehashed m' x) \<and>
      items n m' = set (remaining ns src it) \<union> items n m"
proof (induction "remaining ns src it" arbitrary: it m)
  case Nil
  then have "snd it = None" by (cases it) (auto simp: remaining_def iterator_ok_def split: option.splits)
  then have "copy_range hash src (my_mask m) it m = Some m" by (subst copy_range.simps) simp
  with Nil show ?case by (metis list.set(1) sup_bot_left)
next
  case (Cons p ps)
  obtain k r where "it = (k, r)" by (cases it)
  moreover from this Cons.hyps(2) obtain b l where "r = Some (b, l)" by (cases r) (auto simp: remaining_def)
  ultimately obtain xs where it: "it = (k, Some (b, p # xs))"
    using Cons.hyps(2) Cons.prems(1) by (cases l) (simp_all add: remaining_def iterator_ok_def)
  from increment_remaining [OF src Cons.prems(1) it] obtain it' where
    it': "increment src it = Some it'" "iterator_ok ns src it'" "remaining ns src it = p # remaining ns src it'" by blast
  then have ps: "ps = remaining ns src it'" using Cons.hyps(2) by simp
  have "fst p \<notin> fst ` items n m" using Cons.prems(5) it'(3) by auto
  from copy_node_ok [OF Cons.prems(2,3) this] obtain m1 where
    m1: "copy_node hash (my_mask m) p m = Some m1" "hm_ok hash n m1" "\<forall>x < 2 ^ n. rehashed m1 x"
      "items n m1 = insert p (items n m)" "my_mask m1 = my_mask m" by blast
  have "distinct (map fst (remaining ns src it'))" "fst ` set (remaining ns src it') \<inter> fst ` items n m1 = {}"
    using Cons.prems(4,5) it'(3) m1(4) by auto
  from Cons.hyps(1) [OF ps it'(2) m1(2,3) this] obtain m2 where
    m2: "copy_range hash src (my_mask m) it' m1 = Some m2" "hm_ok hash n m2" "\<forall>x < 2 ^ n. rehashed m2 x"
      "items n m2 = set (remaining ns src it') \<union> items n m1" unfolding m1(5) by blast
  have "copy_range hash src (my_mask m) it m = Some m2"
    using it m1(1) it'(1) m2(1) by (subst copy_range.simps) simp
  with m2 m1(4) it'(3) show ?case by (intro exI [of _ m2]) auto
qed

subsection \<open>Copying a table\<close>

lemma size_card: "my_size m = card (dom (hm_abs m))" if "hm_ok hash n m"
proof -
  have "dom (hm_abs m) = set (map fst (contents m))" by (simp add: hm_abs_def dom_map_of_conv_image_fst)
  then show ?thesis
    using distinct_card [OF distinct_contents [OF that]] length_contents [OF that] by simp
qed

lemma internal_copy_run:
  assumes src: "hm_ok hash n src" and m: "as_new m" and alloc: "\<forall>sz. alloc sz" and size: "my_size src \<le> 2 ^ 31"
  shows "\<exists>n' m'. internal_copy hash alloc src m = Some (True, m') \<and> hm_ok hash n' m' \<and>
    items n' m' = items n src \<and> (\<forall>x < 2 ^ n'. rehashed m' x)"
proof -
  from reserve_ok [OF as_new_ok(1,2) [OF m] alloc size] obtain n1 m1 where
    r: "reserve alloc (my_size src) m = Some (True, m1)" "hm_ok hash n1 m1" "growable n1 m1"
      "items n1 m1 = items 1 m" "my_size m1 = my_size m" by blast
  have empty: "my_size m1 = 0" "items n1 m1 = {}" using r(4,5) m as_new_ok(3) [OF m] by (simp_all add: as_new_def)
  have all: "\<forall>x < 2 ^ n1. rehashed m1 x" and g: "no_growth m1" using r(3) empty(1) by (simp_all add: growable_def)
  show ?thesis
  proof (cases "my_mask m1 = my_mask src")
    case True
    then have "(2 :: nat) ^ n1 = 2 ^ n" using hm_okD(3) [OF r(2)] hm_okD(3) [OF src] by simp
    then have n: "n1 = n" by simp
    from copy_same_mask [OF src r(2) [unfolded n] empty(1) all [unfolded n]] obtain f where
      c: "copy_buckets src (2 ^ n) 0 (0, 0) (0, 0) m1 =
          Some (\<exists>x < 2 ^ n. \<not> rehashed src x, m1\<lparr>node_lists := f, my_size := my_size src\<rparr>)"
        "hm_ok hash n (m1\<lparr>node_lists := f, my_size := my_size src\<rparr>)"
        "items n (m1\<lparr>node_lists := f, my_size := my_size src\<rparr>) = items n src"
        "\<forall>x < 2 ^ n. rehashed (m1\<lparr>node_lists := f, my_size := my_size src\<rparr>) x \<longleftrightarrow> rehashed src x" by blast
    define c1 where "c1 = m1\<lparr>node_lists := f, my_size := my_size src\<rparr>"
    have run: "internal_copy hash alloc src m =
        (if \<exists>x < 2 ^ n. \<not> rehashed src x then rehash hash alloc 0 c1 else Some (True, c1))"
      using r(1) True c(1) hm_okD(3) [OF src] by (auto simp: internal_copy_def c1_def)
    show ?thesis
    proof (cases "\<exists>x < 2 ^ n. \<not> rehashed src x")
      case False
      with run c(2-4) show ?thesis unfolding c1_def by (intro exI [of _ n] exI [of _ c1]) (auto simp: c1_def)
    next
      case True
      have "reserve alloc 0 c1 = Some (True, c1)" by (simp add: reserve_def)
      moreover have "no_growth c1" using g by (simp add: no_growth_def c1_def)
      ultimately obtain h where "rehash hash alloc 0 c1 = Some (True, c1\<lparr>node_lists := h\<rparr>)" "hm_ok hash n (c1\<lparr>node_lists := h\<rparr>)"
        "items n (c1\<lparr>node_lists := h\<rparr>) = items n c1" "\<forall>x < 2 ^ n. rehashed (c1\<lparr>node_lists := h\<rparr>) x"
        using rehash_reserved [of alloc 0 c1 c1 hash n] c(2) unfolding c1_def [symmetric] by blast
      with run True c(3) show ?thesis unfolding c1_def [symmetric] by (intro exI [of _ n] exI [of _ "c1\<lparr>node_lists := h\<rparr>"]) simp
    qed
  next
    case False
    from hm_begin_remaining [OF src] obtain it where
      it: "hm_begin src = Some it" "iterator_ok n src it" "remaining n src it = contents src" by blast
    from copy_range_ok [OF hm_okD(1) [OF src] it(2) r(2) all] distinct_contents [OF src] empty(2) obtain m2 where
      "copy_range hash src (my_mask m1) it m1 = Some m2" "hm_ok hash n1 m2" "\<forall>x < 2 ^ n1. rehashed m2 x"
      "items n1 m2 = set (contents src)" unfolding it(3) by auto
    then show ?thesis using r(1) False it(1) set_contents [OF src]
      by (intro exI [of _ n1] exI [of _ m2]) (simp add: internal_copy_def)
  qed
qed

lemma internal_copy_ok:
  assumes "hm_valid hash src" "as_new m" "\<forall>sz. alloc sz" "my_size src \<le> 2 ^ 31"
  shows "\<exists>m'. internal_copy hash alloc src m = Some (True, m') \<and> hm_valid hash m' \<and> hm_abs m' = hm_abs src \<and>
    my_size m' = my_size src \<and> all_rehashed m'"
proof -
  from assms(1) obtain n where ok: "hm_ok hash n src" by (auto simp: hm_valid_def)
  from internal_copy_run [OF ok assms(2-4)] obtain n' m' where
    c: "internal_copy hash alloc src m = Some (True, m')" "hm_ok hash n' m'" "items n' m' = items n src"
      "\<forall>x < 2 ^ n'. rehashed m' x" by blast
  have "hm_abs m' = hm_abs src" by (rule hm_abs_same [OF ok c(2,3)])
  moreover have "my_size m' = my_size src" using size_card [OF c(2)] size_card [OF ok] calculation by simp
  ultimately show ?thesis using c all_rehashed_iff [OF c(2)] by (auto simp: hm_valid_def)
qed

subsection \<open>Comparison\<close>

lemma equal_loop_ok:
  assumes a: "table_ok n a" and b: "hm_ok hash nb b"
  shows "iterator_ok n a it \<Longrightarrow>
    equal_loop hash a b it = Some (\<forall>(k, v) \<in> set (remaining n a it). hm_abs b k = Some v)"
proof (induction "remaining n a it" arbitrary: it)
  case Nil
  then have "snd it = None" by (cases it) (auto simp: remaining_def iterator_ok_def split: option.splits)
  then show ?case using Nil by (subst equal_loop.simps) (simp flip: Nil.hyps)
next
  case (Cons p ps)
  obtain k r where "it = (k, r)" by (cases it)
  moreover from this Cons.hyps(2) obtain c l where "r = Some (c, l)" by (cases r) (auto simp: remaining_def)
  ultimately obtain xs where it: "it = (k, Some (c, p # xs))"
    using Cons.hyps(2) Cons.prems(1) by (cases l) (simp_all add: remaining_def iterator_ok_def)
  from increment_remaining [OF a Cons.prems it] obtain it' where
    it': "increment a it = Some it'" "iterator_ok n a it'" "remaining n a it = p # remaining n a it'" by blast
  then have "ps = remaining n a it'" using Cons.hyps(2) by simp
  from Cons.hyps(1) [OF this it'(2)]
  have ih: "equal_loop hash a b it' = Some (\<forall>(k, v) \<in> set (remaining n a it'). hm_abs b k = Some v)" .
  obtain key v where p: "p = (key, v)" by (cases p)
  have "equal_range hash key b = Some (map_option (Pair key) (hm_abs b key))" by (rule equal_range_abs [OF b])
  then show ?case
    using it p it'(1,3) ih by (subst equal_loop.simps) (cases "hm_abs b key"; simp)
qed

text \<open>Two tables are equal when they stand for the same map, whatever their numbers of buckets.\<close>

theorem hm_equal_abs:
  assumes "hm_valid hash a" "hm_valid hash b"
  shows "hm_equal hash a b = Some (hm_abs a = hm_abs b)"
proof -
  from assms obtain n nb where ok: "hm_ok hash n a" "hm_ok hash nb b" by (auto simp: hm_valid_def)
  show ?thesis
  proof (cases "my_size a = my_size b")
    case False
    then have "hm_abs a \<noteq> hm_abs b" using size_card [OF ok(1)] size_card [OF ok(2)] by metis
    with False show ?thesis by (simp add: hm_equal_def)
  next
    case True
    from hm_begin_remaining [OF ok(1)] obtain it where
      it: "hm_begin a = Some it" "iterator_ok n a it" "remaining n a it = contents a" by blast
    from equal_loop_ok [OF hm_okD(1) [OF ok(1)] ok(2) it(2)]
    have "hm_equal hash a b = Some (\<forall>(k, v) \<in> set (contents a). hm_abs b k = Some v)"
      using True it(1,3) by (simp add: hm_equal_def)
    moreover have "(\<forall>(k, v) \<in> set (contents a). hm_abs b k = Some v) \<longleftrightarrow> hm_abs a \<subseteq>\<^sub>m hm_abs b"
    proof -
      have "(k, v) \<in> items n a \<longleftrightarrow> hm_abs a k = Some v" for k v using hm_abs_iff [OF ok(1)] by blast
      then have "(\<forall>(k, v) \<in> set (contents a). hm_abs b k = Some v) \<longleftrightarrow> (\<forall>k v. hm_abs a k = Some v \<longrightarrow> hm_abs b k = Some v)"
        unfolding set_contents [OF ok(1)] Ball_def split_paired_All by simp
      also have "\<dots> \<longleftrightarrow> hm_abs a \<subseteq>\<^sub>m hm_abs b" unfolding map_le_def by (metis domD domI)
      finally show ?thesis .
    qed
    moreover have "hm_abs a = hm_abs b" if "hm_abs a \<subseteq>\<^sub>m hm_abs b"
    proof -
      have "finite (dom (hm_abs b))" by (simp add: hm_abs_def finite_dom_map_of)
      moreover have "card (dom (hm_abs a)) = card (dom (hm_abs b))"
        using True size_card [OF ok(1)] size_card [OF ok(2)] by simp
      ultimately have "dom (hm_abs a) = dom (hm_abs b)"
        using that by (intro card_subset_eq map_le_implies_dom_le)
      with that show ?thesis by (intro map_le_antisym) (auto simp: map_le_def)
    qed
    ultimately show ?thesis by (auto simp: map_le_def)
  qed
qed

subsection \<open>The results\<close>

text \<open>
  C30. A copy, made by the constructor or by assignment to any table, stands for the same map as its
  source, has no marked bucket, and compares equal to the source.
\<close>

theorem copy_correct:
  assumes "hm_valid hash src" "my_size src \<le> 2 ^ 31" "\<forall>sz. alloc sz" "hm_valid hash m" "no_growth m"
  shows "(\<exists>m'. hm_copy hash alloc src = Some (True, m') \<and> hm_valid hash m' \<and> hm_abs m' = hm_abs src \<and>
      all_rehashed m' \<and> hm_equal hash src m' = Some True) \<and>
    (\<exists>m'. hm_assign hash alloc src m = Some (True, m') \<and> hm_valid hash m' \<and> hm_abs m' = hm_abs src \<and>
      all_rehashed m' \<and> hm_equal hash src m' = Some True)"
proof -
  from assms(4) obtain n where ok: "hm_ok hash n m" by (auto simp: hm_valid_def)
  from clear_run [OF ok assms(5)] obtain ns m1 where c: "clear m = Some (ns, freed_blocks (n - 1), m1)" "as_new m1" by blast
  have eq: "hm_equal hash src m' = Some True" if "hm_valid hash m'" "hm_abs m' = hm_abs src" for m'
    using hm_equal_abs [OF assms(1) that(1)] that(2) by simp
  from internal_copy_ok [OF assms(1) as_new_base assms(3,2)] internal_copy_ok [OF assms(1) c(2) assms(3,2)] c(1) eq
  show ?thesis unfolding hm_copy_def hm_assign_def by fastforce
qed

theorem copy_correct_witness:
  "\<exists>m'. hm_assign id (\<lambda>_. True) sample_table hash_map_base = Some (True, m') \<and> hm_abs m' = [5 \<mapsto> (7 :: nat)]"
proof -
  have "my_size sample_table = 1" by code_simp
  then have "my_size sample_table \<le> 2 ^ 31" by simp
  from copy_correct [OF sample_valid(1) this _ hm_valid_base, of "\<lambda>_. True"] as_new_ok(2) [OF as_new_base]
  show ?thesis unfolding sample_valid(2) by (auto simp: growable_def)
qed

theorem hm_equal_abs_witness: "hm_equal id sample_table hash_map_base = Some False"
proof -
  have "hm_abs sample_table 5 = Some 7" "hm_abs (hash_map_base :: (nat, nat) hash_map) 5 = None"
    by (simp_all add: sample_valid(2) hm_abs_base)
  then have "hm_abs sample_table \<noteq> hm_abs hash_map_base" by auto
  with hm_equal_abs [OF sample_valid(1) hm_valid_base] show ?thesis by simp
qed

text \<open>An exchange hands each table the contents of the other.\<close>

lemma swap_into_ok:
  assumes "hm_ok hash n this" "hm_ok hash' k table"
  shows "hm_ok hash' k (swap_into this table) \<and> items k (swap_into this table) = items k table"
proof -
  have tab: "table_ok n this" "table_ok k table" using assms by (simp_all add: hm_okD)
  have zero: "my_table this ! 0 = my_table table ! 0" using tab by (simp add: table_ok_def)
  have "my_table (swap_into this table) = my_table table"
  proof (rule nth_equalityI)
    fix i
    assume "i < length (my_table (swap_into this table))"
    then show "my_table (swap_into this table) ! i = my_table table ! i"
      using zero by (cases "i = 0") (simp_all add: swap_into_def embedded_block_def pointers_per_table_def)
  qed (use tab(2) in \<open>simp add: swap_into_def table_ok_def pointers_per_table_def\<close>)
  then have table: "table_ok k (swap_into this table)" using tab(2) by (simp add: table_ok_def swap_into_def)
  have "list_at (swap_into this table) i = list_at table i" for i
    using tbb_log2_ge [of 8 i] by (auto simp: list_at_def swap_into_def bucket_addr_def embedded_buckets_def embedded_block_def)
  then have lists: "list_at (swap_into this table) = list_at table" by blast
  have nodes: "nodes_at (swap_into this table) = nodes_at table" "rehashed (swap_into this table) = rehashed table"
    by (simp_all add: fun_eq_iff nodes_at_def rehashed_def lists)
  then have "placed k (swap_into this table) = placed k table" by (simp add: fun_eq_iff placed_def)
  then show ?thesis
    using assms(2) table by (simp add: hm_ok_def items_def nodes) (simp add: swap_into_def)
qed

theorem swap_correct:
  assumes "hm_valid hash a" "hm_valid hash' b"
  shows "\<exists>a' b'. internal_swap a b = (a', b') \<and> hm_valid hash' a' \<and> hm_valid hash b' \<and> hm_abs a' = hm_abs b \<and> hm_abs b' = hm_abs a"
proof -
  from assms obtain n k where ok: "hm_ok hash n a" "hm_ok hash' k b" by (auto simp: hm_valid_def)
  from swap_into_ok [OF ok] swap_into_ok [OF ok(2,1)] ok show ?thesis
    unfolding internal_swap_def hm_valid_def by (metis hm_abs_same)
qed

theorem swap_correct_witness:
  "\<exists>a' b'. internal_swap sample_table hash_map_base = (a', b') \<and> hm_abs a' = Map.empty \<and> hm_abs b' = [5 \<mapsto> (7 :: nat)]"
  using swap_correct [OF sample_valid(1) hm_valid_base] unfolding sample_valid(2) hm_abs_base by blast

end
