(* ===== verification/Hash_Range.thy ===== *)
theory Hash_Range
  imports Hash_Copy
begin

text \<open>
  Two parts of \<^verbatim>\<open>tbb::concurrent_hash_map\<close> (\<^verbatim>\<open>src/src/tbb/include/tbb/concurrent_hash_map.h\<close>) that
  refer to positions of a table: the removal of the item an accessor points to, and the ranges
  (\<^verbatim>\<open>hash_map_range\<close>) that parallel algorithms divide.
\<close>

subsection \<open>Removal through an accessor\<close>

text \<open>
  The accessor has the node and its hash code \<open>h\<close>.  The source compares addresses; \<open>is_n\<close> tells
  which node of the table is the one of the accessor, if it is still linked.
\<close>

fun unlink_node :: "('k \<times> 'v \<Rightarrow> bool) \<Rightarrow> ('k \<times> 'v) list \<Rightarrow> ('k \<times> 'v) list" where
  "unlink_node is_n [] = []"
| "unlink_node is_n (p # ps) = (if is_n p then ps else p # unlink_node is_n ps)"

definition exclude_try ::
  "('k \<Rightarrow> nat) \<Rightarrow> nat \<Rightarrow> ('k \<times> 'v \<Rightarrow> bool) \<Rightarrow> nat \<Rightarrow> ('k, 'v) hash_map \<Rightarrow>
     (('k, 'v) hash_map + bool \<times> ('k, 'v) hash_map) option" where
  "exclude_try hash h is_n msk m =
     do { m \<leftarrow> acquire_bucket hash (h AND msk) m;
          ns \<leftarrow> Option.bind (node_list m (h AND msk)) chain_nodes;
          if \<not> list_ex is_n ns
          then do { race \<leftarrow> check_mask_race h msk m;
                    Some (if race then Inl m else Inr (False, m)) }
          else do { m \<leftarrow> set_node_list (h AND msk) (Chain (unlink_node is_n ns)) m;
                    Some (Inr (True, m\<lparr>my_size := my_size m - 1\<rparr>)) } }"

definition exclude ::
  "('k \<Rightarrow> nat) \<Rightarrow> nat \<Rightarrow> ('k \<times> 'v \<Rightarrow> bool) \<Rightarrow> nat \<Rightarrow> ('k, 'v) hash_map \<Rightarrow> (bool \<times> ('k, 'v) hash_map) option" where
  "exclude hash h is_n msk m =
     do { r \<leftarrow> exclude_try hash h is_n msk m;
          case r of
            Inr res \<Rightarrow> Some res
          | Inl m \<Rightarrow>
              do { r \<leftarrow> exclude_try hash h is_n (my_mask m) m;
                   case r of Inr res \<Rightarrow> Some res | Inl m \<Rightarrow> None } }"

subsection \<open>Ranges\<close>

record ('k, 'v) hash_map_range =
  my_begin :: "('k, 'v) iterator"
  my_end :: "('k, 'v) iterator"
  my_midpoint :: "('k, 'v) iterator"
  my_grainsize :: nat

text \<open>Iterators of one table are compared by their nodes.\<close>

definition same_node :: "('k, 'v) iterator \<Rightarrow> ('k, 'v) iterator \<Rightarrow> bool" where
  "same_node i j \<longleftrightarrow> snd i = snd j"

text \<open>The difference of the indexes is computed in 64 bits; \<open>None\<close> is a failed assertion.\<close>

definition set_midpoint :: "('k, 'v) hash_map \<Rightarrow> ('k, 'v) hash_map_range \<Rightarrow> ('k, 'v) hash_map_range option" where
  "set_midpoint tab r =
     do { let d = (fst (my_end r) + 2 ^ 64 - fst (my_begin r)) mod 2 ^ 64;
          mid \<leftarrow> (if d > my_grainsize r
                  then do { let k = fst (my_begin r) + d div 2;
                            b \<leftarrow> get_bucket tab k;
                            iterator_at tab k b }
                  else Some (my_end r));
          if fst (my_begin r) \<le> fst mid \<and> fst mid \<le> fst (my_end r) \<and>
             (\<not> same_node (my_begin r) mid \<or> same_node (my_begin r) (my_end r))
          then Some (r\<lparr>my_midpoint := mid\<rparr>) else None }"

definition hm_range :: "('k, 'v) hash_map \<Rightarrow> nat \<Rightarrow> ('k, 'v) hash_map_range option" where
  "hm_range tab grainsize =
     do { it \<leftarrow> iterator_at tab 0 (0, 0);
          if grainsize = 0 then None
          else let e = (my_mask tab + 1, None)
               in set_midpoint tab \<lparr>my_begin = it, my_end = e, my_midpoint = e, my_grainsize = grainsize\<rparr> }"

definition range_empty :: "('k, 'v) hash_map_range \<Rightarrow> bool" where
  "range_empty r \<longleftrightarrow> same_node (my_begin r) (my_end r)"

definition is_divisible :: "('k, 'v) hash_map_range \<Rightarrow> bool" where
  "is_divisible r \<longleftrightarrow> \<not> same_node (my_midpoint r) (my_end r)"

text \<open>The splitting constructor: the first range keeps the lower half, the second is the new one.\<close>

definition range_split ::
  "('k, 'v) hash_map \<Rightarrow> ('k, 'v) hash_map_range \<Rightarrow> (('k, 'v) hash_map_range \<times> ('k, 'v) hash_map_range) option" where
  "range_split tab r =
     (let upper = \<lparr>my_begin = my_midpoint r, my_end = my_end r, my_midpoint = my_end r, my_grainsize = my_grainsize r\<rparr>;
          lower = r\<lparr>my_end := my_midpoint r\<rparr>
      in if range_empty upper \<or> range_empty lower then None
         else do { upper \<leftarrow> set_midpoint tab upper;
                   lower \<leftarrow> set_midpoint tab lower;
                   Some (lower, upper) })"

subsection \<open>The removal is the removal of the key\<close>

lemma unlink_is_remove:
  assumes "\<forall>x \<in> set ns. is_n x \<longleftrightarrow> fst x = key"
  shows "unlink_node is_n ns = remove_node key ns" "list_ex is_n ns \<longleftrightarrow> search_bucket key ns \<noteq> None"
  using assms by (induction ns) auto

lemma exclude_try_erase:
  assumes ok: "hm_ok hash n m" and j: "1 \<le> j" "j \<le> n" and is_n: "\<forall>x \<in> items n m. is_n x \<longleftrightarrow> fst x = key"
  shows "exclude_try hash (hash key) is_n (2 ^ j - 1) m = erase_try hash key (2 ^ j - 1) m"
proof -
  let ?h = "hash key AND (2 ^ j - 1)" and ?b = "hash key mod 2 ^ j"
  from acquire_for [OF ok j, of "hash key"] obtain m1 where acq: "acquire_bucket hash ?h m = Some m1"
    and it: "items n m1 = items n m" and ns: "Option.bind (node_list m1 ?h) chain_nodes = Some (nodes_at m1 ?b)"
    by blast
  have "?b < 2 ^ n" using j(2) by (rule mod_exp_less)
  then have "set (nodes_at m1 ?b) \<subseteq> items n m" unfolding it [symmetric] by (auto simp: items_def)
  with is_n have "\<forall>x \<in> set (nodes_at m1 ?b). is_n x \<longleftrightarrow> fst x = key" by blast
  note same = unlink_is_remove [OF this]
  show ?thesis
    unfolding exclude_try_def erase_try_def Let_def acq ns Option.bind.simps same
    by (cases "search_bucket key (nodes_at m1 ?b)") simp_all
qed

lemma exclude_erase:
  assumes ok: "hm_ok hash n m" and j: "1 \<le> j" "j \<le> n" and is_n: "\<forall>x \<in> items n m. is_n x \<longleftrightarrow> fst x = key"
  shows "exclude hash (hash key) is_n (2 ^ j - 1) m = erase hash key (2 ^ j - 1) m"
proof -
  have same: "exclude_try hash (hash key) is_n (2 ^ j - 1) m = erase_try hash key (2 ^ j - 1) m"
    by (rule exclude_try_erase [OF assms])
  from erase_try_ok [OF ok j, of key]
  consider (restart) m1 where "erase_try hash key (2 ^ j - 1) m = Some (Inl m1)" "hm_ok hash n m1" "items n m1 = items n m"
    | (result) res where "erase_try hash key (2 ^ j - 1) m = Some (Inr res)"
    by blast
  then show ?thesis
  proof cases
    case restart
    have mask: "my_mask m1 = 2 ^ n - 1" and n: "1 \<le> n" using hm_okD [OF restart(2)] by simp_all
    have "\<forall>x \<in> items n m1. is_n x \<longleftrightarrow> fst x = key" using is_n restart(3) by simp
    from exclude_try_erase [OF restart(2) n order_refl this] show ?thesis
      unfolding exclude_def erase_def same restart(1) by (simp add: mask)
  next
    case result
    then show ?thesis unfolding exclude_def erase_def same by simp
  qed
qed

lemma exclude_try_gone:
  assumes ok: "hm_ok hash n m" and j: "1 \<le> j" "j \<le> n" and gone: "\<forall>x \<in> items n m. \<not> is_n x"
  shows "\<exists>m1. hm_ok hash n m1 \<and> items n m1 = items n m \<and>
    (exclude_try hash h is_n (2 ^ j - 1) m = Some (Inl m1) \<and> j \<noteq> n \<or>
     exclude_try hash h is_n (2 ^ j - 1) m = Some (Inr (False, m1)))"
proof -
  from acquire_for [OF ok j, of h] obtain m1 where acq: "acquire_bucket hash (h AND (2 ^ j - 1)) m = Some m1"
    and ok1: "hm_ok hash n m1" and r1: "rehashed m1 (h mod 2 ^ j)" and it: "items n m1 = items n m"
    and ns: "Option.bind (node_list m1 (h AND (2 ^ j - 1))) chain_nodes = Some (nodes_at m1 (h mod 2 ^ j))"
    by blast
  have "h mod 2 ^ j < 2 ^ n" using j(2) by (rule mod_exp_less)
  then have "set (nodes_at m1 (h mod 2 ^ j)) \<subseteq> items n m" unfolding it [symmetric] by (auto simp: items_def)
  with gone have none: "\<not> list_ex is_n (nodes_at m1 (h mod 2 ^ j))" by (auto simp: list_ex_iff)
  from check_mask_race_placed [OF ok1 j r1] obtain race where
    race: "check_mask_race h (2 ^ j - 1) m1 = Some race" "j = n \<longrightarrow> \<not> race" by blast
  have "exclude_try hash h is_n (2 ^ j - 1) m = Some (if race then Inl m1 else Inr (False, m1))"
    unfolding exclude_try_def acq ns Option.bind.simps race(1) using none by simp
  with ok1 it race(2) show ?thesis by (cases race) auto
qed

lemma exclude_gone:
  assumes ok: "hm_ok hash n m" and j: "1 \<le> j" "j \<le> n" and gone: "\<forall>x \<in> items n m. \<not> is_n x"
  shows "\<exists>m'. exclude hash h is_n (2 ^ j - 1) m = Some (False, m') \<and> hm_ok hash n m' \<and> items n m' = items n m"
proof -
  from exclude_try_gone [OF assms, of h] obtain m1 where
    m1: "hm_ok hash n m1" "items n m1 = items n m" and
    r: "exclude_try hash h is_n (2 ^ j - 1) m = Some (Inl m1) \<or>
      exclude_try hash h is_n (2 ^ j - 1) m = Some (Inr (False, m1))" by blast
  from r show ?thesis
  proof
    assume restart: "exclude_try hash h is_n (2 ^ j - 1) m = Some (Inl m1)"
    have mask: "my_mask m1 = 2 ^ n - 1" and n: "1 \<le> n" using hm_okD [OF m1(1)] by simp_all
    have "\<forall>x \<in> items n m1. \<not> is_n x" using gone m1(2) by simp
    from exclude_try_gone [OF m1(1) n order_refl this, of h] obtain m2 where
      "hm_ok hash n m2" "items n m2 = items n m1" "exclude_try hash h is_n (2 ^ n - 1) m1 = Some (Inr (False, m2))" by blast
    then show ?thesis using m1(2) unfolding exclude_def restart by (simp add: mask)
  next
    assume "exclude_try hash h is_n (2 ^ j - 1) m = Some (Inr (False, m1))"
    then show ?thesis using m1 unfolding exclude_def by simp
  qed
qed

text \<open>
  The removal through an accessor takes out the item of the accessor; when another thread has
  removed it before, also when a new item has its key, nothing changes.
\<close>

theorem exclude_correct:
  assumes "hm_valid hash m" "mask_of m msk"
    and "\<forall>x \<in> set (contents m). is_n x \<longrightarrow> hash (fst x) = h"
    and "\<forall>x \<in> set (contents m). \<forall>y \<in> set (contents m). is_n x \<and> is_n y \<longrightarrow> x = y"
  shows "\<exists>m'. exclude hash h is_n msk m = Some (list_ex is_n (contents m), m') \<and> hm_valid hash m' \<and>
    hm_abs m' = (case List.find is_n (contents m) of None \<Rightarrow> hm_abs m | Some x \<Rightarrow> (hm_abs m)(fst x := None))"
proof -
  from assms(1) obtain n where ok: "hm_ok hash n m" by (auto simp: hm_valid_def)
  from mask_of_le [OF ok assms(2)] obtain j where j: "1 \<le> j" "j \<le> n" "msk = 2 ^ j - 1" .
  show ?thesis
  proof (cases "List.find is_n (contents m)")
    case None
    then have none: "\<forall>x \<in> items n m. \<not> is_n x" unfolding find_None_iff set_contents [OF ok, symmetric] by blast
    then have "\<not> list_ex is_n (contents m)" unfolding list_ex_iff set_contents [OF ok] by blast
    with exclude_gone [OF ok j(1,2) none, of h] hm_abs_same [OF ok] None j(3) show ?thesis
      by (auto simp: hm_valid_def)
  next
    case (Some p)
    then have p: "p \<in> set (contents m)" "is_n p" by (auto simp: find_Some_iff)
    have "is_n x \<longleftrightarrow> fst x = fst p" if x: "x \<in> items n m" for x
    proof
      assume "is_n x"
      then show "fst x = fst p" using assms(4) p x set_contents [OF ok] by metis
    next
      assume "fst x = fst p"
      then have "x = p" using items_functional [OF ok, of "fst p" "snd x" "snd p"] x p(1) set_contents [OF ok]
        by (metis prod.collapse)
      with p(2) show "is_n x" by simp
    qed
    then have "exclude hash (hash (fst p)) is_n msk m = erase hash (fst p) msk m"
      unfolding j(3) by (intro exclude_erase [OF ok j(1,2)]) blast
    moreover have "hash (fst p) = h" using assms(3) p by blast
    moreover have "hm_abs m (fst p) \<noteq> None" using p(1) hm_abs_iff [OF ok, of "fst p" "snd p"] set_contents [OF ok] by simp
    moreover have "list_ex is_n (contents m)" using p by (auto simp: list_ex_iff)
    ultimately show ?thesis using erase_abs [OF assms(1,2), of "fst p"] Some by simp
  qed
qed

theorem exclude_correct_witness:
  "\<exists>m'. exclude id 5 (\<lambda>x. x = (5, 7)) 1 sample_table = Some (True, m') \<and> hm_abs m' = Map.empty"
proof -
  have c: "contents sample_table = [(5, 7)]" by code_simp
  from exclude_correct [OF sample_valid(1) sample_old_mask, of "\<lambda>x. x = (5, 7)" 5] show ?thesis
    unfolding c sample_valid(2) by auto
qed

subsection \<open>Dividing a range\<close>

text \<open>The iterators of ranges point to the first node of a bucket, or to the end.\<close>

definition bucket_start :: "nat \<Rightarrow> ('k, 'v) hash_map \<Rightarrow> ('k, 'v) iterator \<Rightarrow> bool" where
  "bucket_start n m it \<longleftrightarrow>
     it = (2 ^ n, None) \<or>
     fst it < 2 ^ n \<and> nodes_at m (fst it) \<noteq> [] \<and> snd it = Some (bucket_addr (fst it), nodes_at m (fst it))"

lemma bucket_start_le: "bucket_start n m it \<Longrightarrow> fst it \<le> 2 ^ n"
  by (auto simp: bucket_start_def)

lemma same_node_start: "bucket_start n m i \<Longrightarrow> bucket_start n m j \<Longrightarrow> same_node i j \<longleftrightarrow> fst i = fst j"
  by (auto simp: bucket_start_def same_node_def) (metis bucket_addr_inj)

lemma iterator_at_start:
  assumes "table_ok n m" "k < 2 ^ n"
  shows "\<exists>it. iterator_at m k (bucket_addr k) = Some it \<and> bucket_start n m it \<and> k \<le> fst it \<and>
    (\<forall>i. k \<le> i \<and> i < fst it \<longrightarrow> nodes_at m i = [])"
proof (cases "nodes_at m k")
  case Nil
  then have "iterator_at m k (bucket_addr k) = advance_to_next_bucket m (bucket_addr (k + 1 - 1)) (k + 1)"
    by (auto simp: iterator_at_def nodes_at_def list_at_def split: chain.splits list.splits)
  moreover from advance_step [OF assms(1) _ _ refl, of "k + 1"] assms(2) obtain k' r where
    r: "advance_to_next_bucket m (bucket_addr (k + 1 - 1)) (k + 1) = Some (k', r)" "k + 1 \<le> k'"
      "case r of
         None \<Rightarrow> k' = 2 ^ n \<and> (\<forall>i. k + 1 \<le> i \<and> i < 2 ^ n \<longrightarrow> nodes_at m i = [])
       | Some (b', ns) \<Rightarrow> k' < 2 ^ n \<and> b' = bucket_addr k' \<and> ns = nodes_at m k' \<and> ns \<noteq> [] \<and>
           (\<forall>i. k + 1 \<le> i \<and> i < k' \<longrightarrow> nodes_at m i = [])" by auto
  then have "bucket_start n m (k', r) \<and> (\<forall>i. k + 1 \<le> i \<and> i < k' \<longrightarrow> nodes_at m i = [])"
    by (cases r) (auto simp: bucket_start_def)
  moreover have "nodes_at m i = []" if "k \<le> i" "k + 1 \<le> i \<Longrightarrow> nodes_at m i = []" for i
    using that Nil by (cases "i = k") auto
  ultimately show ?thesis using r(1,2) by (intro exI [of _ "(k', r)"]) auto
next
  case (Cons x xs)
  then have "iterator_at m k (bucket_addr k) = Some (k, Some (bucket_addr k, x # xs))"
    by (auto simp: iterator_at_def nodes_at_def list_at_def split: chain.splits)
  with Cons assms(2) show ?thesis by (auto simp: bucket_start_def)
qed

definition range_ok :: "nat \<Rightarrow> ('k, 'v) hash_map \<Rightarrow> ('k, 'v) hash_map_range \<Rightarrow> bool" where
  "range_ok n m r \<longleftrightarrow> 0 < my_grainsize r \<and>
     bucket_start n m (my_begin r) \<and> bucket_start n m (my_end r) \<and> bucket_start n m (my_midpoint r) \<and>
     fst (my_begin r) \<le> fst (my_midpoint r) \<and> fst (my_midpoint r) \<le> fst (my_end r) \<and>
     (fst (my_midpoint r) = fst (my_begin r) \<longrightarrow> fst (my_begin r) = fst (my_end r))"

lemma set_midpoint_ok:
  assumes tab: "table_ok n m" and g: "0 < my_grainsize r"
    and b: "bucket_start n m (my_begin r)" "bucket_start n m (my_end r)" "fst (my_begin r) \<le> fst (my_end r)"
  shows "\<exists>mid. set_midpoint m r = Some (r\<lparr>my_midpoint := mid\<rparr>) \<and> range_ok n m (r\<lparr>my_midpoint := mid\<rparr>)"
proof -
  let ?b = "fst (my_begin r)" and ?e = "fst (my_end r)"
  have "n < 64" using tab by (simp add: table_ok_def)
  then have "(2 :: nat) ^ n < 2 ^ 64" by (intro power_strict_increasing) simp_all
  then have e: "?e \<le> 2 ^ n" "?e < 2 ^ 64" using bucket_start_le [OF b(2)] by simp_all
  then have "?e + 2 ^ 64 - ?b = (?e - ?b) + 2 ^ 64" using b(3) by simp
  then have d: "(?e + 2 ^ 64 - ?b) mod 2 ^ 64 = ?e - ?b" using e(2) by (simp only: mod_add_self2) simp
  note begin_end = same_node_start [OF b(1,2)]
  show ?thesis
  proof (cases "?e - ?b > my_grainsize r")
    case False
    then have "set_midpoint m r = Some (r\<lparr>my_midpoint := my_end r\<rparr>)"
      using b(3) unfolding set_midpoint_def Let_def d by simp
    then show ?thesis using g b by (intro exI [of _ "my_end r"]) (simp add: range_ok_def)
  next
    case True
    let ?k = "?b + (?e - ?b) div 2"
    have k: "?b < ?k" "?k < ?e" using True g by linarith+
    then have lt: "?k < 2 ^ n" using e(1) by simp
    from iterator_at_start [OF tab lt] obtain it where
      it: "iterator_at m ?k (bucket_addr ?k) = Some it" "bucket_start n m it" "?k \<le> fst it"
        "\<forall>i. ?k \<le> i \<and> i < fst it \<longrightarrow> nodes_at m i = []" by blast
    have le: "fst it \<le> ?e"
    proof (rule ccontr)
      assume "\<not> fst it \<le> ?e"
      then have "nodes_at m ?e = []" "?e \<noteq> 2 ^ n" using it(4) k(2) bucket_start_le [OF it(2)] by simp_all
      with b(2) show False by (auto simp: bucket_start_def)
    qed
    have gt: "?b < fst it" using k(1) it(3) by simp
    then have "\<not> same_node (my_begin r) it" using same_node_start [OF b(1) it(2)] by simp
    then have "set_midpoint m r = Some (r\<lparr>my_midpoint := it\<rparr>)"
      using True le gt it(1) get_bucket_addr [OF tab lt] unfolding set_midpoint_def Let_def d by simp
    then show ?thesis using g b it(2) le gt by (intro exI [of _ it]) (simp add: range_ok_def)
  qed
qed

text \<open>The items of a range.\<close>

definition range_nodes :: "('k, 'v) hash_map \<Rightarrow> ('k, 'v) hash_map_range \<Rightarrow> ('k \<times> 'v) list" where
  "range_nodes m r = concat (map (nodes_at m) [fst (my_begin r)..<fst (my_end r)])"

lemma hm_range_ok:
  assumes "table_ok n m" "0 < g"
  shows "\<exists>r. hm_range m g = Some r \<and> range_ok n m r \<and> range_nodes m r = contents m"
proof -
  have mask: "my_mask m + 1 = 2 ^ n" using assms(1) by (simp add: table_ok_def)
  have addr: "bucket_addr 0 = (0, 0)" by (simp add: bucket_addr_def)
  from iterator_at_start [OF assms(1), of 0] obtain it where
    it: "iterator_at m 0 (0, 0) = Some it" "bucket_start n m it" "\<forall>i < fst it. nodes_at m i = []"
    unfolding addr by auto
  let ?e = "(2 ^ n, None) :: ('a, 'b) iterator"
  let ?r = "\<lparr>my_begin = it, my_end = ?e, my_midpoint = ?e, my_grainsize = g\<rparr>"
  have "bucket_start n m ?e" by (simp add: bucket_start_def)
  with set_midpoint_ok [OF assms(1), of ?r] assms(2) it(2) bucket_start_le [OF it(2)] obtain mid where
    r: "set_midpoint m ?r = Some (?r\<lparr>my_midpoint := mid\<rparr>)" "range_ok n m (?r\<lparr>my_midpoint := mid\<rparr>)" by auto
  have "[0..<2 ^ n] = [0..<fst it] @ [fst it..<2 ^ n]"
    using bucket_start_le [OF it(2)] by (metis le_add_diff_inverse upt_add_eq_append zero_le)
  then have "contents m = concat (map (nodes_at m) [0..<fst it]) @ range_nodes m (?r\<lparr>my_midpoint := mid\<rparr>)"
    unfolding contents_def mask range_nodes_def by simp
  moreover have "concat (map (nodes_at m) [0..<fst it]) = []" using it(3) by simp
  moreover have "hm_range m g = Some (?r\<lparr>my_midpoint := mid\<rparr>)"
    using it(1) assms(2) r(1) unfolding hm_range_def mask by simp
  ultimately show ?thesis using r(2) by simp
qed

lemma range_split_ok:
  assumes tab: "table_ok n m" and r: "range_ok n m r" and d: "is_divisible r"
  shows "\<exists>r1 r2. range_split m r = Some (r1, r2) \<and> range_ok n m r1 \<and> range_ok n m r2 \<and>
    fst (my_begin r1) = fst (my_begin r) \<and> fst (my_begin r1) < fst (my_end r1) \<and>
    fst (my_end r1) = fst (my_begin r2) \<and> fst (my_begin r2) < fst (my_end r2) \<and> fst (my_end r2) = fst (my_end r)"
proof -
  let ?upper = "\<lparr>my_begin = my_midpoint r, my_end = my_end r, my_midpoint = my_end r, my_grainsize = my_grainsize r\<rparr>"
  let ?lower = "r\<lparr>my_end := my_midpoint r\<rparr>"
  have s: "bucket_start n m (my_begin r)" "bucket_start n m (my_end r)" "bucket_start n m (my_midpoint r)" "0 < my_grainsize r"
    using r by (simp_all add: range_ok_def)
  have "fst (my_midpoint r) \<noteq> fst (my_end r)" using d same_node_start [OF s(3,2)] by (simp add: is_divisible_def)
  then have order: "fst (my_begin r) < fst (my_midpoint r)" "fst (my_midpoint r) < fst (my_end r)"
    using r by (auto simp: range_ok_def)
  have "\<not> range_empty ?upper" "\<not> range_empty ?lower"
    using order same_node_start [OF s(3,2)] same_node_start [OF s(1,3)] by (simp_all add: range_empty_def)
  moreover from set_midpoint_ok [OF tab, of ?upper] s order obtain mu where
    "set_midpoint m ?upper = Some (?upper\<lparr>my_midpoint := mu\<rparr>)" "range_ok n m (?upper\<lparr>my_midpoint := mu\<rparr>)" by auto
  moreover from set_midpoint_ok [OF tab, of ?lower] s order obtain ml where
    "set_midpoint m ?lower = Some (?lower\<lparr>my_midpoint := ml\<rparr>)" "range_ok n m (?lower\<lparr>my_midpoint := ml\<rparr>)" by auto
  ultimately show ?thesis
    using order unfolding range_split_def Let_def
    by (intro exI [of _ "?lower\<lparr>my_midpoint := ml\<rparr>"] exI [of _ "?upper\<lparr>my_midpoint := mu\<rparr>"]) simp
qed

text \<open>The ranges a parallel algorithm can get from a table by dividing the whole one.\<close>

inductive sub_range :: "('k, 'v) hash_map \<Rightarrow> nat \<Rightarrow> ('k, 'v) hash_map_range \<Rightarrow> bool" for m g where
  whole: "hm_range m g = Some r \<Longrightarrow> sub_range m g r"
| lower: "sub_range m g r \<Longrightarrow> is_divisible r \<Longrightarrow> range_split m r = Some (r1, r2) \<Longrightarrow> sub_range m g r1"
| upper: "sub_range m g r \<Longrightarrow> is_divisible r \<Longrightarrow> range_split m r = Some (r1, r2) \<Longrightarrow> sub_range m g r2"

lemma sub_range_ok: "sub_range m g r \<Longrightarrow> table_ok n m \<Longrightarrow> 0 < g \<Longrightarrow> range_ok n m r"
proof (induction rule: sub_range.induct)
  case (whole r)
  with hm_range_ok [of n m g] show ?case by auto
next
  case (lower r r1 r2)
  with range_split_ok [of n m r] show ?case by auto
next
  case (upper r r1 r2)
  with range_split_ok [of n m r] show ?case by auto
qed

text \<open>
  C37. The whole range has the contents of the table; a range that is divisible is split into two
  ranges that are not empty, of fewer buckets each, whose items are those of the range, in order.
\<close>

theorem range_partition:
  assumes "hm_valid hash m" "0 < g"
  shows "(\<exists>r. hm_range m g = Some r \<and> range_nodes m r = contents m) \<and>
    (\<forall>r. sub_range m g r \<and> is_divisible r \<longrightarrow>
      (\<exists>r1 r2. range_split m r = Some (r1, r2) \<and> \<not> range_empty r1 \<and> \<not> range_empty r2 \<and>
         range_nodes m r = range_nodes m r1 @ range_nodes m r2 \<and>
         fst (my_end r1) - fst (my_begin r1) < fst (my_end r) - fst (my_begin r) \<and>
         fst (my_end r2) - fst (my_begin r2) < fst (my_end r) - fst (my_begin r)))"
proof -
  from assms(1) obtain n where tab: "table_ok n m" by (auto simp: hm_valid_def hm_ok_def)
  have "\<exists>r1 r2. range_split m r = Some (r1, r2) \<and> \<not> range_empty r1 \<and> \<not> range_empty r2 \<and>
         range_nodes m r = range_nodes m r1 @ range_nodes m r2 \<and>
         fst (my_end r1) - fst (my_begin r1) < fst (my_end r) - fst (my_begin r) \<and>
         fst (my_end r2) - fst (my_begin r2) < fst (my_end r) - fst (my_begin r)"
    if r: "sub_range m g r" "is_divisible r" for r
  proof -
    from range_split_ok [OF tab sub_range_ok [OF r(1) tab assms(2)] r(2)] obtain r1 r2 where
      s: "range_split m r = Some (r1, r2)" "range_ok n m r1" "range_ok n m r2" "fst (my_begin r1) = fst (my_begin r)"
        "fst (my_begin r1) < fst (my_end r1)" "fst (my_end r1) = fst (my_begin r2)"
        "fst (my_begin r2) < fst (my_end r2)" "fst (my_end r2) = fst (my_end r)" by blast
    have "\<not> range_empty r1" "\<not> range_empty r2"
      using s(2,3,5,7) same_node_start [of n m] by (auto simp: range_empty_def range_ok_def)
    moreover have "[fst (my_begin r)..<fst (my_end r)] = [fst (my_begin r)..<fst (my_end r1)] @ [fst (my_end r1)..<fst (my_end r)]"
      using s(4-8) by (metis le_add_diff_inverse less_imp_le upt_add_eq_append)
    then have "range_nodes m r = range_nodes m r1 @ range_nodes m r2"
      unfolding range_nodes_def s(4,8) s(6) [symmetric] by simp
    ultimately show ?thesis using s(1,4-8) by auto
  qed
  with hm_range_ok [OF tab assms(2)] show ?thesis by blast
qed

text \<open>Two items in different halves of the table.\<close>

definition pair_table :: "(nat, nat) hash_map" where
  "pair_table = snd (the (lookup id (\<lambda>_. True) True 200 9 255 sample_table))"

lemma pair_valid: "hm_valid id pair_table"
proof -
  have "mask_of sample_table 255" using mask_of_self [OF sample_valid(1)] by (simp add: sample_mask)
  from lookup_abs [OF sample_valid(1) this, of "\<lambda>_. True" True 200 9] sample_mask show ?thesis
    by (auto simp: pair_table_def)
qed

theorem range_partition_witness:
  "\<exists>r r1 r2. hm_range pair_table 1 = Some r \<and> range_split pair_table r = Some (r1, r2) \<and>
     \<not> range_empty r1 \<and> \<not> range_empty r2 \<and> range_nodes pair_table r = range_nodes pair_table r1 @ range_nodes pair_table r2"
proof -
  from range_partition [OF pair_valid, of 1] obtain r where r: "hm_range pair_table 1 = Some r" by auto
  have "iterator_at pair_table 0 (0, 0) = Some (1, Some ((0, 1), [(5, 7)]))" by code_simp
  moreover have "get_bucket pair_table 128 = Some (1, 126)" by code_simp
  moreover have "iterator_at pair_table 128 (1, 126) = Some (200, Some ((1, 198), [(200, 9)]))" by code_simp
  moreover have "my_mask pair_table = 255" by code_simp
  ultimately have "is_divisible r"
    using r by (auto simp: hm_range_def set_midpoint_def is_divisible_def same_node_def)
  moreover have "sub_range pair_table 1 r" by (rule sub_range.whole [OF r])
  ultimately show ?thesis using range_partition [OF pair_valid, of 1] r by (metis zero_less_one)
qed

end
