(* ===== verification/Hash_Load.thy ===== *)
theory Hash_Load
  imports Hash_Range
begin

text \<open>
  The operations of \<^verbatim>\<open>tbb::concurrent_hash_map\<close> (\<^verbatim>\<open>src/src/tbb/include/tbb/concurrent_hash_map.h\<close>)
  that take a sequence of items, and the fast search.
\<close>

subsection \<open>Operations\<close>

text \<open>Insertion of a range; an exception of a failed allocation leaves the loop.\<close>

fun hm_insert_range ::
  "('k \<Rightarrow> nat) \<Rightarrow> (nat \<Rightarrow> bool) \<Rightarrow> ('k \<times> 'v) list \<Rightarrow> ('k, 'v) hash_map \<Rightarrow> (bool \<times> ('k, 'v) hash_map) option" where
  "hm_insert_range hash alloc [] m = Some (True, m)"
| "hm_insert_range hash alloc (p # ps) m =
     do { ((r, a), m) \<leftarrow> hm_insert hash alloc p m;
          if r = Bad_alloc then Some (False, m) else hm_insert_range hash alloc ps m }"

text \<open>\<^verbatim>\<open>internal_copy\<close> of any range of items, and the constructor from a range.\<close>

fun copy_list :: "('k \<Rightarrow> nat) \<Rightarrow> nat \<Rightarrow> ('k \<times> 'v) list \<Rightarrow> ('k, 'v) hash_map \<Rightarrow> ('k, 'v) hash_map option" where
  "copy_list hash msk [] m = Some m"
| "copy_list hash msk (p # ps) m = Option.bind (copy_node hash msk p m) (copy_list hash msk ps)"

definition hm_from_range ::
  "('k \<Rightarrow> nat) \<Rightarrow> (nat \<Rightarrow> bool) \<Rightarrow> ('k \<times> 'v) list \<Rightarrow> (bool \<times> ('k, 'v) hash_map) option" where
  "hm_from_range hash alloc ps =
     do { (ok, m) \<leftarrow> reserve alloc (length ps) hash_map_base;
          if ok then map_option (Pair True) (copy_list hash (my_mask m) ps m) else Some (False, m) }"

text \<open>The search that does not lock the bucket.\<close>

definition fast_find_try ::
  "('k \<Rightarrow> nat) \<Rightarrow> 'k \<Rightarrow> nat \<Rightarrow> ('k, 'v) hash_map \<Rightarrow> (('k, 'v) hash_map + ('k \<times> 'v) option \<times> ('k, 'v) hash_map) option" where
  "fast_find_try hash key msk m =
     do { let h = hash key;
          c \<leftarrow> node_list m (h AND msk);
          m \<leftarrow> (case c of Rehash_req \<Rightarrow> rehash_bucket hash (h AND msk) m | Chain _ \<Rightarrow> Some m);
          ns \<leftarrow> Option.bind (node_list m (h AND msk)) chain_nodes;
          case search_bucket key ns of
            Some n \<Rightarrow> Some (Inr (Some n, m))
          | None \<Rightarrow> do { race \<leftarrow> check_mask_race h msk m; Some (if race then Inl m else Inr (None, m)) } }"

definition internal_fast_find ::
  "('k \<Rightarrow> nat) \<Rightarrow> 'k \<Rightarrow> nat \<Rightarrow> ('k, 'v) hash_map \<Rightarrow> (('k \<times> 'v) option \<times> ('k, 'v) hash_map) option" where
  "internal_fast_find hash key msk m =
     do { r \<leftarrow> fast_find_try hash key msk m;
          case r of
            Inr res \<Rightarrow> Some res
          | Inl m \<Rightarrow>
              do { r \<leftarrow> fast_find_try hash key (my_mask m) m;
                   case r of Inr res \<Rightarrow> Some res | Inl m \<Rightarrow> None } }"

subsection \<open>The fast search\<close>

lemma fast_find_try_lookup:
  "fast_find_try hash key msk m =
     map_option (map_sum id (\<lambda>((r, a), m). (a, m))) (lookup_try hash alloc False key v msk m)"
proof -
  have acq: "(case c of Rehash_req \<Rightarrow> rehash_bucket hash h m | Chain ns \<Rightarrow> Some m) = acquire_bucket hash h m"
    if "node_list m h = Some c" for h c
    using that by (subst acquire_bucket.simps) (simp split: chain.splits)
  have none: "acquire_bucket hash h m = None" if "node_list m h = None" for h
    using that by (subst acquire_bucket.simps) simp
  show ?thesis
    unfolding fast_find_try_def lookup_try_def Let_def
    by (cases "node_list m (hash key AND msk)")
      (auto simp: none acq split: option.splits Option.bind_splits)
qed

lemma fast_find_lookup:
  "internal_fast_find hash key msk m = map_option (\<lambda>((r, a), m). (a, m)) (lookup hash alloc False key v msk m)"
  unfolding internal_fast_find_def lookup_def fast_find_try_lookup [of hash key _ _ alloc v]
  by (auto split: option.splits sum.splits Option.bind_splits)

text \<open>The fast search finds what the map has, with any mask the table has or has had.\<close>

theorem fast_find_correct:
  assumes "hm_valid hash m" "mask_of m msk" "my_mask m < 2 ^ 31"
  shows "\<exists>m'. internal_fast_find hash key msk m = Some (map_option (Pair key) (hm_abs m key), m') \<and>
    hm_valid hash m' \<and> hm_abs m' = hm_abs m"
  using lookup_abs [OF assms, of "\<lambda>_. True" False key undefined]
  unfolding fast_find_lookup [of hash key msk m "\<lambda>_. True" undefined]
  by (cases "hm_abs m key") force+

theorem fast_find_correct_witness:
  "\<exists>m'. internal_fast_find id 5 1 sample_table = Some (Some (5, 7), m') \<and> hm_abs m' = [5 \<mapsto> 7]"
  using fast_find_correct [OF sample_valid(1) sample_old_mask, of 5] by (auto simp: sample_mask sample_valid(2))

subsection \<open>Inserting a range\<close>

text \<open>A table that only insertions have made grow has at most about two buckets per item, above 256.\<close>

definition well_filled :: "('k, 'v) hash_map \<Rightarrow> bool" where
  "well_filled m \<longleftrightarrow> my_mask m + 1 \<le> 256 \<or> my_mask m + 1 \<le> 2 * (my_size m + 1)"

lemma grown_filled:
  assumes ok: "hm_ok hash n m" "hm_ok hash n' m'" and g: "grown n n' m'" and w: "well_filled m" and s: "my_size m \<le> my_size m'"
  shows "well_filled m'"
proof -
  have mask: "my_mask m + 1 = 2 ^ n" "my_mask m' + 1 = 2 ^ n'" using hm_okD(3) ok by blast+
  show ?thesis
  proof (cases "n' = n")
    case True
    then show ?thesis using w s mask by (auto simp: well_filled_def)
  next
    case False
    then have n': "n' = next_bits n" "2 ^ n - 1 \<le> my_size m'" using g by (auto simp: grown_def)
    show ?thesis
    proof (cases "n = 1")
      case True
      then show ?thesis using n'(1) mask(2) by (simp add: well_filled_def next_bits_def)
    next
      case False
      then have "my_mask m' + 1 = 2 * 2 ^ n" using n'(1) mask(2) by (simp add: next_bits_def)
      moreover have "(2 :: nat) ^ n \<le> my_size m' + 1" using n'(2) by linarith
      ultimately show ?thesis by (simp add: well_filled_def)
    qed
  qed
qed

lemma insert_one:
  assumes ok: "hm_ok hash n m" and w: "well_filled m" and alloc: "\<forall>sz. alloc sz" and s: "my_size m < 2 ^ 30"
  shows "\<exists>r a m' n'. hm_insert hash alloc (k, v) m = Some ((r, a), m') \<and> r \<noteq> Bad_alloc \<and> hm_ok hash n' m' \<and>
    well_filled m' \<and> my_size m' \<le> my_size m + 1 \<and> hm_abs m' = [k \<mapsto> v] ++ hm_abs m"
proof -
  have mask: "my_mask m + 1 = 2 ^ n" using hm_okD(3) [OF ok] .
  have "(2 :: nat) ^ n \<le> 2 ^ 31" using w s unfolding well_filled_def mask by auto
  then have "n \<le> 31" by (subst (asm) power_increasing_iff) simp_all
  then have n: "n < 32" by simp
  have mask': "my_mask m = 2 ^ n - 1" using mask by simp
  from lookup_ok [OF ok hm_okD(4) [OF ok] order_refl n, of alloc True k v] obtain r a m' n' where
    l: "lookup hash alloc True k v (2 ^ n - 1) m = Some ((r, a), m')" "hm_ok hash n' m'"
      "lookup_effect alloc True k v (items n m) r a (items n' m')" "grown n n' m'" by blast
  have run: "hm_insert hash alloc (k, v) m = Some ((r, a), m')" using l(1) by (simp add: hm_insert_def mask')
  consider (found) v' where "(k, v') \<in> items n m" "r = Returned False" "items n' m' = items n m"
    | (new) "\<forall>v'. (k, v') \<notin> items n m" "r = Returned True" "items n' m' = insert (k, v) (items n m)"
    using l(3) alloc by (auto simp: lookup_effect_def)
  then show ?thesis
  proof cases
    case found
    have abs: "hm_abs m' = hm_abs m" by (rule hm_abs_same [OF ok l(2) found(3)])
    then have size: "my_size m' = my_size m" using size_card [OF ok] size_card [OF l(2)] by simp
    have "hm_abs m k = Some v'" using found(1) hm_abs_iff [OF ok] by blast
    then have "[k \<mapsto> v] ++ hm_abs m = hm_abs m" by (auto simp: map_add_def fun_eq_iff split: option.splits)
    with run found(2) l(2) abs size grown_filled [OF ok l(2,4) w] show ?thesis by (intro exI) auto
  next
    case new
    have abs: "hm_abs m' = (hm_abs m)(k \<mapsto> v)" by (rule hm_abs_insert [OF ok l(2) new(3)])
    have none: "hm_abs m k = None" using new(1) hm_abs_none [OF ok] by blast
    then have size: "my_size m' = my_size m + 1"
      using size_card [OF ok] size_card [OF l(2)] abs
      by (simp add: hm_abs_def finite_dom_map_of card_insert_if domIff)
    have "[k \<mapsto> v] ++ hm_abs m = (hm_abs m)(k \<mapsto> v)"
      using none by (auto simp: map_add_def fun_eq_iff split: option.splits)
    with run new(2) l(2) abs size grown_filled [OF ok l(2,4) w] show ?thesis by (intro exI) auto
  qed
qed

lemma insert_range_ok:
  assumes "hm_ok hash n m" "well_filled m" "\<forall>sz. alloc sz" "my_size m + length ps \<le> 2 ^ 30"
  shows "\<exists>m' n'. hm_insert_range hash alloc ps m = Some (True, m') \<and> hm_ok hash n' m' \<and>
    well_filled m' \<and> hm_abs m' = map_of ps ++ hm_abs m"
  using assms
proof (induction ps arbitrary: m n)
  case Nil
  then show ?case by auto
next
  case (Cons p ps)
  obtain k v where p: "p = (k, v)" by (cases p)
  have "my_size m < 2 ^ 30" using Cons.prems(4) by simp
  from insert_one [OF Cons.prems(1-3) this] obtain r a m1 n1 where
    m1: "hm_insert hash alloc (k, v) m = Some ((r, a), m1)" "r \<noteq> Bad_alloc" "hm_ok hash n1 m1" "well_filled m1"
      "my_size m1 \<le> my_size m + 1" "hm_abs m1 = [k \<mapsto> v] ++ hm_abs m" by blast
  have "my_size m1 + length ps \<le> 2 ^ 30" using Cons.prems(4) m1(5) by simp
  from Cons.IH [OF m1(3,4) Cons.prems(3) this] obtain m' n' where
    m': "hm_insert_range hash alloc ps m1 = Some (True, m')" "hm_ok hash n' m'" "well_filled m'"
      "hm_abs m' = map_of ps ++ hm_abs m1" by blast
  have "map_of ps ++ ([k \<mapsto> v] ++ hm_abs m) = map_of (p # ps) ++ hm_abs m"
    unfolding p by (simp add: map_add_assoc [symmetric] map_add_upd [symmetric])
  with m' m1 show ?case by (intro exI [of _ m'] exI [of _ n']) (simp add: p fun_upd_def)
qed

text \<open>
  Insertion of a range: of several items with a key the first one counts, and none replaces an item
  of the table; the table stays within its load.
\<close>

theorem insert_range_correct:
  assumes "hm_valid hash m" "well_filled m" "\<forall>sz. alloc sz" "my_size m + length ps \<le> 2 ^ 30"
  shows "\<exists>m'. hm_insert_range hash alloc ps m = Some (True, m') \<and> hm_valid hash m' \<and> well_filled m' \<and>
    hm_abs m' = map_of ps ++ hm_abs m"
  using insert_range_ok [of hash _ m alloc ps] assms unfolding hm_valid_def by blast

theorem insert_range_correct_witness:
  "\<exists>m'. hm_insert_range id (\<lambda>_. True) [(1, 2), (5, 8), (1, 3)] sample_table = Some (True, m') \<and>
     hm_abs m' 1 = Some 2 \<and> hm_abs m' 5 = Some 7"
proof -
  have "well_filled sample_table" by (simp add: well_filled_def sample_mask)
  moreover have "my_size sample_table = 1" by code_simp
  ultimately show ?thesis
    using insert_range_correct [OF sample_valid(1), of "\<lambda>_. True" "[(1, 2), (5, 8), (1, 3)]"] sample_valid(2)
    by (auto simp: map_add_def)
qed

subsection \<open>The constructor from a range\<close>

lemma copy_list_ok:
  "hm_ok hash n m \<Longrightarrow> \<forall>x < 2 ^ n. rehashed m x \<Longrightarrow> distinct (map fst ps) \<Longrightarrow> fst ` set ps \<inter> fst ` items n m = {} \<Longrightarrow>
    \<exists>m'. copy_list hash (my_mask m) ps m = Some m' \<and> hm_ok hash n m' \<and> items n m' = set ps \<union> items n m"
proof (induction ps arbitrary: m)
  case Nil
  then show ?case by auto
next
  case (Cons p ps)
  from Cons.prems have "fst p \<notin> fst ` items n m" by auto
  from copy_node_ok [OF Cons.prems(1,2) this] obtain m1 where
    m1: "copy_node hash (my_mask m) p m = Some m1" "hm_ok hash n m1" "\<forall>x < 2 ^ n. rehashed m1 x"
      "items n m1 = insert p (items n m)" "my_mask m1 = my_mask m" by blast
  have "distinct (map fst ps)" "fst ` set ps \<inter> fst ` items n m1 = {}" using Cons.prems(3,4) m1(4) by auto
  from Cons.IH [OF m1(2,3) this] m1 show ?case by auto
qed

text \<open>A range without duplicate keys gives the table of its items.\<close>

theorem from_range_correct:
  fixes hash :: "'k \<Rightarrow> nat" and ps :: "('k \<times> 'v) list"
  assumes "distinct (map fst ps)" "length ps \<le> 2 ^ 31" "\<forall>sz. alloc sz"
  shows "\<exists>m. hm_from_range hash alloc ps = Some (True, m) \<and> hm_valid hash m \<and> hm_abs m = map_of ps"
proof -
  let ?b = "hash_map_base :: ('k, 'v) hash_map"
  note new = as_new_ok [OF as_new_base]
  from reserve_ok [OF new(1,2) assms(3,2), of hash] obtain n m where
    r: "reserve alloc (length ps) ?b = Some (True, m)" "hm_ok hash n m" "growable n m"
      "items n m = {}" "my_size m = my_size ?b" using new(3) by blast
  have "my_size ?b = 0" using as_new_base by (simp add: as_new_def)
  then have all: "\<forall>x < 2 ^ n. rehashed m x" using r(3,5) by (simp add: growable_def)
  from copy_list_ok [OF r(2) all assms(1)] r(4) obtain m' where
    c: "copy_list hash (my_mask m) ps m = Some m'" "hm_ok hash n m'" "items n m' = set ps" by auto
  have "hm_abs m' k = Some v \<longleftrightarrow> map_of ps k = Some v" for k v
    using hm_abs_iff [OF c(2), of k v] c(3) map_of_eq_Some_iff [OF assms(1)] by simp
  then have "hm_abs m' = map_of ps" by (intro ext option.expand) (metis not_Some_eq, metis option.sel not_Some_eq)
  then show ?thesis using r(1) c(1,2) by (auto simp: hm_from_range_def hm_valid_def)
qed

theorem from_range_correct_witness:
  "\<exists>m. hm_from_range id (\<lambda>_. True) [(5, 7), (300, 8)] = Some (True, m) \<and> hm_abs m = [5 \<mapsto> 7, 300 \<mapsto> (8 :: nat)]"
  using from_range_correct [of "[(5, 7), (300, 8)]" "\<lambda>_. True" id] by (auto simp: fun_upd_twist)

text \<open>
  With duplicate keys it does not: all the items go into the table, and an item with the key is
  still found after the key has been erased.
\<close>

theorem from_range_duplicates:
  "\<exists>m m'. hm_from_range hash alloc [(k, v), (k, w)] = Some (True, m) \<and> my_size m = 2 \<and>
    hm_erase hash k m = Some (True, m') \<and> equal_range hash k m' = Some (Some (k, v))"
proof -
  let ?b = "hash_map_base :: ('a, 'b) hash_map"
  define h where "h = hash k mod 2"
  have h: "h < 2 ^ 1" "hash k AND 1 = h" using and_mask_mod [of "hash k" 1] by (simp_all add: h_def)
  have idx: "hash k AND Suc 0 = h" "hash k mod 2 = h" using h(2) by (simp_all add: h_def)
  have base: "my_mask ?b = 1" "my_size ?b = 0" "list_at ?b h = Chain []"
    using as_new_base h(1) by (auto simp: as_new_def table_ok_def less_2_cases_iff)
  let ?t = "\<lambda>c s. ?b\<lparr>node_lists := (node_lists ?b)(bucket_addr h := c), my_size := s\<rparr>"
  have tab: "table_ok 1 (?t c s)" for c s using table_ok_base by (simp add: table_ok_def)
  have at: "node_list (?t c s) h = Some c" "get_bucket (?t c s) h = Some (bucket_addr h)" for c s
    using node_list_at [OF tab h(1)] get_bucket_addr [OF tab h(1)] by (simp_all add: list_at_def)
  have start: "?b = ?t (Chain []) 0" 
  proof (rule hash_map.equality)
    have "node_lists ?b (bucket_addr h) = Chain []" using base(3) by (simp add: list_at_def)
    then show "node_lists ?b = node_lists (?t (Chain []) 0)" by (simp add: fun_upd_idem)
  qed (simp_all add: base(2))
  have node: "copy_node hash 1 (k, x) (?t (Chain ns) s) = Some (?t (Chain ((k, x) # ns)) (s + 1))" for x ns s
    unfolding copy_node_def set_node_list_def add_to_bucket_def fst_conv h(2) at by simp
  have "reserve alloc 2 ?b = Some (True, ?b)"
    by (simp add: reserve_def reserve_loop.simps base(1))
  moreover have "copy_list hash 1 [(k, v), (k, w)] ?b = Some (?t (Chain [(k, w), (k, v)]) 2)"
    by (subst start) (simp add: node del: One_nat_def fun_upd_apply)
  ultimately have "hm_from_range hash alloc [(k, v), (k, w)] = Some (True, ?t (Chain [(k, w), (k, v)]) 2)"
    by (simp add: hm_from_range_def base(1) numeral_2_eq_2)
  moreover have "acquire_bucket hash h (?t (Chain ns) s) = Some (?t (Chain ns) s)" for ns s
    by (subst acquire_bucket.simps) (simp add: at)
  then have "hm_erase hash k (?t (Chain [(k, w), (k, v)]) 2) = Some (True, ?t (Chain [(k, v)]) 1)"
    by (simp add: hm_erase_def erase_def erase_try_def base(1) idx at chain_nodes_def set_node_list_def Let_def)
  moreover have "equal_range hash k (?t (Chain [(k, v)]) 1) = Some (Some (k, v))"
    by (simp add: equal_range_def rehashed_bucket.simps [of h] base(1) idx at chain_nodes_def)
  ultimately show ?thesis by (intro exI conjI) (assumption | simp)+
qed

end
