(* ===== verification/Spec2Isabelle.thy ===== *)
theory Spec2Isabelle
  imports Malloc Buddy_Alloc Itm Thread_System Node_Main Barrier Spin_Rw_Mutex Hash_Load
begin

text \<open>
  A verification library for DSTM_P1, a software transactional memory for programs that run on
  several nodes of a GASNet network.

  \<^bold>\<open>The program.\<close>  Every node runs \<^verbatim>\<open>main\<close> (\<^verbatim>\<open>src/src/dstm_main.cpp\<close>), which loads the
  instrumented application, and shares one segment of its memory with the other nodes.  The segment
  starts with a table of lock words and goes on with the objects
  (\<^verbatim>\<open>dstm_lib_p1/gasnet_mem_mgr.cpp\<close>); objects are handed out by \<^verbatim>\<open>dstm_malloc\<close> and named by
  64-bit addresses that carry the number of their node.  A lock word is a timestamp: a lock bit, the
  node that wrote it and a value of this node's Lamport clock (\<^verbatim>\<open>glue.cpp\<close>).  A transaction
  (\<^verbatim>\<open>dstm_lib_p1/dstm_transaction*\<close>) copies the blocks it reads and writes
  (\<^verbatim>\<open>dstm_cache*\<close>), and commits by locking the blocks of its write set on their nodes in one request
  per node (\<^verbatim>\<open>processLocksRequest\<close>, \<^verbatim>\<open>gasnet_handlers.cpp\<close>), validating its read set, writing its
  copies back and releasing the locks with a new version.  The instrumented code calls the functions
  of \<^verbatim>\<open>dstm_lib_p1/dstm_p1-ls.cpp\<close>.  Threads are created on node 0, placed on the nodes and joined
  (\<^verbatim>\<open>dstm_gasnet_application.cpp\<close>, \<^verbatim>\<open>gasnet_thread_spawner.cpp\<close>), may meet at a barrier
  (\<^verbatim>\<open>dstm_barrier.cpp\<close>), and leave statistics that node 0 collects (\<^verbatim>\<open>dstm_stats.cpp\<close>).

  \<^bold>\<open>Conventions.\<close>  Machine integers are words of their width.  A function of the model has the
  name of the function of the sources, with a prefix or suffix where the name is taken (\<open>tx_\<close> for the
  methods of \<^verbatim>\<open>DSTMTransaction\<close>, \<open>hm_\<close> for those of \<^verbatim>\<open>concurrent_hash_map\<close>, a final 2 for the build
  \<^verbatim>\<open>VARIANT2\<close>).  \<open>None\<close> is a run without a result: an access outside an array, a failed assertion, a
  null pointer, or a loop that does not end.  Errors the sources report are values.  GASNet is a record
  of operations, a parameter of the model; what the code relies on is the locale \<open>gasnet_api\<close>, and
  \<open>quiet_api\<close> adds that no other thread interferes.  \<open>Platform\<close> defines an instance of both, and
  the witnesses that need a platform are evaluated on it.
\<close>

subsection \<open>The theories\<close>

text \<open>
  \<^item> \<open>Prelude\<close>: types, bytes of words, association lists, hint collections.  \<open>Timestamps\<close>: the macros
    of \<^verbatim>\<open>dstm_timestamps.h\<close> and \<^verbatim>\<open>dstm_malloc.h\<close>.  \<open>Platform\<close>: memories, GASNet, interference.
  \<^item> \<open>MemMgr\<close> (\<^verbatim>\<open>GASNetMemoryManager\<close>): the two lock address maps; the locale \<open>lock_table\<close> says that
    blocks have lock words of their own, up to the limit of the table.
  \<^item> \<open>Malloc\<close>: the heap of a node with local and remote requests, release and copy; the locale
    \<open>allocator\<close> is what both allocators promise.  \<open>Buddy\<close> is the array code of \<^verbatim>\<open>buddy.cpp\<close>, \<open>Buddy_Tree\<close>
    its specification on trees, \<open>Buddy_Correct\<close> the refinement, \<open>Buddy_Alloc\<close> the results: what an
    allocation returns, what a release restores, and the request that writes outside the array.
  \<^item> \<open>Clock\<close>: the loops of \<^verbatim>\<open>increaseClock\<close> and \<^verbatim>\<open>getNextClock\<close>, their results and their
    end.  \<open>VersionCache\<close> (\<^verbatim>\<open>DSTMGASNetCache\<close>): the newest versions seen, and the read under a versioned lock
    word, which returns a committed state.  \<open>LocksCache\<close> (\<^verbatim>\<open>DSTMLocksCache\<close>): lines of lock words.
  \<^item> \<open>LockServer\<close>: requests for locks, on the node that owns the objects; and what a lock request does
    to the data when the object lies beyond the lock table (\<open>lock_word_overruns_objects\<close>).
  \<^item> \<open>Transaction\<close>, \<open>Variant2\<close>: the descriptor in both builds, every method of it.  \<open>Tx_Memory\<close>, \<open>Tx_Locks\<close>,
    \<open>Tx_Commit\<close> and \<open>Commit_Correct\<close> lead to the commit that is all or nothing; \<open>Tx_Isolation\<close> shows that
    nothing else stores to shared memory; \<open>Tx_Serial\<close> and \<open>Itm\<close> that an atomic block refines its
    sequential meaning.  \<open>Itm\<close> has the interface of the instrumented code; its relation \<open>attempts\<close> lists the reasons of the attempts
    that aborted.  \<open>Stats\<close> has the counters, and \<open>tally\<close>, what they should be for given reasons.
  \<^item> \<open>Threads\<close>: tables, spawner, load balancer, handlers.  \<open>Thread_System\<close>: the nodes with their messages,
    as a step relation, and its invariant; ghost fields record which functions have returned and which start
    routines were asked for.  \<open>Node_Main\<close>: the programs of all nodes, the end of the execution and the report;
    the first node that calls \<^verbatim>\<open>gasnet_exit\<close> ends the job, after which all processes are terminated.  \<open>Barrier\<close>: the barrier of the application.
  \<^item> \<open>Spin_Rw_Mutex\<close>: the mutex of the bundled TBB, one atomic access per step, any number of
    threads.  \<open>Hash_Buckets\<close>, \<open>Hash_Map\<close>: the table of \<^verbatim>\<open>concurrent_hash_map\<close> and its operations, whose
    buckets are under this mutex; \<open>Hash_Map_Correct\<close> refines the operations to a map, also for a thread that
    still has the mask of a smaller table.  \<open>Hash_Iterator\<close>, \<open>Hash_Range\<close>: iteration, division of ranges,
    removal through an accessor.  \<open>Hash_Rehash\<close>, \<open>Hash_Whole\<close>, \<open>Hash_Copy\<close>, \<open>Hash_Load\<close>: operations on
    whole tables.
\<close>

subsection \<open>What the theorems show\<close>

text \<open>
  Each property carries its number (C1 to C40) in the text before its theorem.  C1 to C9 are about
  transactions: commit, serial meaning, consistent reads, isolation, progress, bookkeeping, start, and
  the acquisition of locks with its error.  C10 to C16 are about threads and nodes, C17 to C22 about clocks,
  the version cache, the report and \<^verbatim>\<open>VARIANT2\<close>, C23 to C25 and C32 about the buddy allocator, C26 to C31 and C33
  to C37 about the hash map and its mutex, C38 to C40 about the barrier, the lock table and the heap.

  Bounds and their reasons:
  \<^item> Sizes and addresses of the lock table and the heap stay below the 48 bits an address has for them; a buddy
    arena has at most 30 levels, because its sizes are \<^verbatim>\<open>int\<close>; above that (\<open>arena_length\<close>) there is no result.
  \<^item> The commit theorems are about a transaction that no other thread interferes with
    (\<open>quiet_api\<close>), in a build without \<^verbatim>\<open>VARIANT3\<close>, whose cache of lock words may return the line of another
    node (\<open>lc_get_wrong_node\<close>); versions stay below the 48 bits they have in a lock word.  Reads, clocks, isolation and bookkeeping are shown under any interference.
  \<^item> Mutual exclusion of the mutex holds for fewer than 2^61 threads, which is what its word can count.
  \<^item> Insertion into the hash map is shown up to 2^31 buckets, because the mask of the parent is computed
    with \<^verbatim>\<open>1u\<close>; requests for buckets go up to 2^31.  An operation that starts with an old mask restarts
    at most once, so two attempts are modelled and the second is shown to be enough.
  \<^item> \<open>traverse\<close> needs as many steps as the table has items; a method of the mutex returns after four
    accesses of its own once the other threads are outside.
  \<^item> Loops that may wait for other threads are partial functions, with theorems that they return
    (\<open>clock_loops_return\<close>, \<open>commit_succeeds\<close>, \<open>joins_open_at_end\<close>, \<open>main_no_deadlock\<close>).
\<close>

subsection \<open>Not modelled\<close>

text \<open>
  \<^item> The instrumentation passes (\<^verbatim>\<open>tanger\<close>, \<^verbatim>\<open>PthreadCreateReplacePass\<close>) and the loading and compiling of the
    application work on LLVM's classes, which are not in the repository; their contract with the library is
    the interface in \<open>Itm\<close>.
  \<^item> Of the bundled TBB only the hash map, which \<^verbatim>\<open>dstm_cache.h\<close> includes, and its mutex are
    modelled; scheduler, thread server, allocators and support code are vendored and not called.  In the
    hash map the accesses to one bucket are one step, the lock an accessor holds on an item is left out, and so
    are statistics and performance warnings.
  \<^item> Test programs, the UPC versions, profiling and logging.
  \<^item> \<^verbatim>\<open>setjmp\<close> and \<^verbatim>\<open>longjmp\<close>: a retry starts the block again from its beginning.
\<close>

end
